(* ===== verification/Sc_Prelude.thy ===== *)
theory Sc_Prelude
  imports Main "HOL-Library.Word" "HOL-Library.Monad_Syntax" "HOL-Library.AList"
begin

text \<open>
  What every component of the development shares: the machine types of a 64-bit target, Rust's
  slice operations with their panics, \<open>usize\<close> arithmetic with its overflow behaviour, the
  little-endian byte codecs of the wire formats (one locale, interpreted for \<open>u32\<close> and \<open>u64\<close>),
  \<open>slice::chunks\<close>, and the hash maps keyed by \<open>u64\<close>.

  A computation that may panic has the type \<open>'a option\<close>, and \<open>None\<close> is the panic. A computation
  that may run forever has an \<open>option\<close> around its whole result (defined by
  \<^theory_text>\<open>partial_function\<close>), and there \<open>None\<close> is "does not return". A Rust
  \<open>Result<T, E>\<close> is the sum \<open>'e + 'a\<close>, with \<open>Inl\<close> for \<open>Err\<close>.
\<close>

named_theorems slice_simps \<open>reading and writing ranges of byte lists\<close>
named_theorems frame_simps \<open>what an operation leaves unchanged\<close>

type_synonym byte = "8 word"
type_synonym u32 = "32 word"
type_synonym u64 = "64 word"

section \<open>Options and lists\<close>

lemma bind_Some_conv: "Option.bind x f = Some y \<longleftrightarrow> (\<exists>a. x = Some a \<and> f a = Some y)"
  by (cases x) auto

lemma nth_take_drop: "i < n \<Longrightarrow> a + n \<le> length xs \<Longrightarrow> take n (drop a xs) ! i = xs ! (a + i)"
  by simp

lemma drop_replicate_append [simp]:
  "drop (n + k) (replicate n x @ ys) = drop k ys"
  by simp

section \<open>Slices: \<open>&xs[a..b]\<close> and \<open>copy_from_slice\<close>\<close>

text \<open>\<open>&xs[a..b]\<close> panics unless \<open>a \<le> b \<le> xs.len()\<close>.\<close>

definition subslice :: "nat \<Rightarrow> nat \<Rightarrow> 'a list \<Rightarrow> 'a list option" where
  "subslice a b xs = (if a \<le> b \<and> b \<le> length xs then Some (take (b - a) (drop a xs)) else None)"

text \<open>
  \<open>dst[a..b].copy_from_slice(src)\<close> panics when the range is out of bounds and when the lengths
  differ.
\<close>

definition copy_into :: "nat \<Rightarrow> nat \<Rightarrow> 'a list \<Rightarrow> 'a list \<Rightarrow> 'a list option" where
  "copy_into a b src dst =
     (if a \<le> b \<and> b \<le> length dst \<and> length src = b - a
      then Some (take a dst @ src @ drop b dst) else None)"

lemma subslice_Some_iff:
  "subslice a b xs = Some ys \<longleftrightarrow> a \<le> b \<and> b \<le> length xs \<and> ys = take (b - a) (drop a xs)"
  by (auto simp: subslice_def)

lemma subslice_ok [slice_simps]:
  "a \<le> b \<Longrightarrow> b \<le> length xs \<Longrightarrow> subslice a b xs = Some (take (b - a) (drop a xs))"
  by (simp add: subslice_def)

lemma subslice_length: "subslice a b xs = Some ys \<Longrightarrow> length ys = b - a"
  by (auto simp: subslice_def split: if_splits)

lemma copy_into_ok [slice_simps]:
  "a \<le> b \<Longrightarrow> b \<le> length dst \<Longrightarrow> length src = b - a \<Longrightarrow>
     copy_into a b src dst = Some (take a dst @ src @ drop b dst)"
  by (simp add: copy_into_def)

lemma copy_into_length: "copy_into a b src dst = Some d \<Longrightarrow> length d = length dst"
  by (auto simp: copy_into_def split: if_splits)

lemma copy_into_nth:
  assumes "copy_into a b src dst = Some d" and "j < length dst"
  shows "d ! j = (if a \<le> j \<and> j < b then src ! (j - a) else dst ! j)"
proof -
  from assms have d: "d = take a dst @ src @ drop b dst" and ab: "a \<le> b" "b \<le> length dst"
    and src: "length src = b - a"
    by (auto simp: copy_into_def split: if_splits)
  consider "j < a" | "a \<le> j" "j < b" | "b \<le> j" by linarith
  then show ?thesis
  proof cases
    case 1
    with ab show ?thesis by (simp add: d nth_append)
  next
    case 2
    then have "j - a < b - a" by simp
    with 2 ab src show ?thesis by (simp add: d nth_append)
  next
    case 3
    then have "b + (j - a - (b - a)) = j" using ab by simp
    with 3 ab src assms(2) show ?thesis by (auto simp: d nth_append min_def)
  qed
qed

text \<open>Writing the next field of a page that is filled from the front.\<close>

lemma copy_into_front [slice_simps]:
  "length done = a \<Longrightarrow> b = a + length src \<Longrightarrow> length src \<le> k \<Longrightarrow>
     copy_into a b src (done @ replicate k z) = Some ((done @ src) @ replicate (k - length src) z)"
  by (simp add: copy_into_def)

section \<open>\<open>usize\<close> arithmetic\<close>

text \<open>
  \<open>usize\<close> values are natural numbers below \<open>2 ^ 64\<close>. The flag is \<open>cfg(overflow_checks)\<close>: with it
  an overflow panics (the \<open>dev\<close> profile), without it the result wraps (the \<open>release\<close> profile).
\<close>

definition usize_add :: "bool \<Rightarrow> nat \<Rightarrow> nat \<Rightarrow> nat option" where
  "usize_add ov a b =
     (if a + b < 2 ^ 64 then Some (a + b) else if ov then None else Some ((a + b) mod 2 ^ 64))"

definition usize_sub :: "bool \<Rightarrow> nat \<Rightarrow> nat \<Rightarrow> nat option" where
  "usize_sub ov a b =
     (if b \<le> a then Some (a - b) else if ov then None else Some ((2 ^ 64 + a - b) mod 2 ^ 64))"

definition usize_mul :: "bool \<Rightarrow> nat \<Rightarrow> nat \<Rightarrow> nat option" where
  "usize_mul ov a b =
     (if a * b < 2 ^ 64 then Some (a * b) else if ov then None else Some ((a * b) mod 2 ^ 64))"

lemma usize_add_ok [slice_simps]: "a + b < 2 ^ 64 \<Longrightarrow> usize_add ov a b = Some (a + b)"
  by (simp add: usize_add_def)

lemma usize_sub_ok [slice_simps]: "b \<le> a \<Longrightarrow> usize_sub ov a b = Some (a - b)"
  by (simp add: usize_sub_def)

lemma usize_mul_ok [slice_simps]: "a * b < 2 ^ 64 \<Longrightarrow> usize_mul ov a b = Some (a * b)"
  by (simp add: usize_mul_def)

lemma usize_add_bound: "usize_add ov a b = Some c \<Longrightarrow> c < 2 ^ 64"
  by (auto simp: usize_add_def split: if_splits)

section \<open>Little-endian integers\<close>

lemma unat_less: "unat (w :: 'a::len word) < 2 ^ LENGTH('a)"
  by (rule unsigned_less)

fun to_le :: "nat \<Rightarrow> nat \<Rightarrow> byte list" where
  "to_le 0 v = []"
| "to_le (Suc n) v = word_of_nat (v mod 256) # to_le n (v div 256)"

fun from_le :: "byte list \<Rightarrow> nat" where
  "from_le [] = 0"
| "from_le (b # bs) = unat b + 256 * from_le bs"

lemma length_to_le [simp]: "length (to_le n v) = n"
  by (induction n arbitrary: v) auto

lemma from_le_to_le: "from_le (to_le n v) = v mod 256 ^ n"
proof (induction n arbitrary: v)
  case 0
  show ?case by simp
next
  case (Suc n)
  have "unat (word_of_nat (v mod 256) :: byte) = v mod 256"
    by (simp add: unat_of_nat)
  with Suc show ?case by (simp add: mod_mult2_eq)
qed

definition u32_to_le :: "u32 \<Rightarrow> byte list" where
  "u32_to_le w = to_le 4 (unat w)"

definition u32_from_le :: "byte list \<Rightarrow> u32" where
  "u32_from_le bs = word_of_nat (from_le bs)"

definition u64_to_le :: "u64 \<Rightarrow> byte list" where
  "u64_to_le w = to_le 8 (unat w)"

definition u64_from_le :: "byte list \<Rightarrow> u64" where
  "u64_from_le bs = word_of_nat (from_le bs)"

text \<open>The interface of a fixed-width codec, and what a reader of a page may rely on.\<close>

locale byte_codec =
  fixes enc :: "'v \<Rightarrow> byte list"
    and dec :: "byte list \<Rightarrow> 'v"
    and width :: nat
  assumes length_enc: "length (enc v) = width"
    and dec_enc: "dec (enc v) = v"
begin

lemma enc_inj: "enc v = enc w \<Longrightarrow> v = w"
  by (metis dec_enc)

lemma read_field:
  assumes "length before = a"
  shows "map_option dec (subslice a (a + width) (before @ enc v @ rest)) = Some v"
  using assms by (simp add: subslice_def length_enc dec_enc)

lemma write_read_field:
  assumes "copy_into a (a + width) (enc v) dst = Some d"
  shows "map_option dec (subslice a (a + width) d) = Some v"
  using assms by (auto simp: copy_into_def subslice_def length_enc dec_enc split: if_splits)

end

interpretation u32_le: byte_codec u32_to_le u32_from_le 4
proof
  show "length (u32_to_le v) = 4" for v
    by (simp add: u32_to_le_def)
  show "u32_from_le (u32_to_le v) = v" for v
    using unat_less [of v] by (simp add: u32_to_le_def u32_from_le_def from_le_to_le)
qed

interpretation u64_le: byte_codec u64_to_le u64_from_le 8
proof
  show "length (u64_to_le v) = 8" for v
    by (simp add: u64_to_le_def)
  show "u64_from_le (u64_to_le v) = v" for v
    using unat_less [of v] by (simp add: u64_to_le_def u64_from_le_def from_le_to_le)
qed

lemmas codec_simps [simp] =
  u32_le.length_enc u32_le.dec_enc u64_le.length_enc u64_le.dec_enc

section \<open>\<open>slice::chunks\<close>\<close>

text \<open>\<open>xs.chunks(n)\<close> panics for \<open>n = 0\<close>; callers check, and the model returns no chunk there.\<close>

function chunks :: "nat \<Rightarrow> 'a list \<Rightarrow> 'a list list" where
  "chunks n xs = (if n = 0 \<or> xs = [] then [] else take n xs # chunks n (drop n xs))"
  by pat_completeness auto
termination
  by (relation "measure (\<lambda>(n, xs). length xs)") auto

declare chunks.simps [simp del]

lemma chunks_Nil [simp]: "chunks n [] = []"
  by (simp add: chunks.simps)

lemma chunks_step: "0 < n \<Longrightarrow> xs \<noteq> [] \<Longrightarrow> chunks n xs = take n xs # chunks n (drop n xs)"
  by (simp add: chunks.simps [of n xs])

lemma concat_chunks: "0 < n \<Longrightarrow> concat (chunks n xs) = xs"
proof (induction n xs rule: chunks.induct)
  case (1 n xs)
  then show ?case by (cases "xs = []") (simp_all add: chunks_step)
qed

lemma length_chunks: "0 < n \<Longrightarrow> length (chunks n xs) = (length xs + n - 1) div n"
proof (induction n xs rule: chunks.induct)
  case (1 n xs)
  show ?case
  proof (cases "xs = []")
    case True
    with 1 show ?thesis by simp
  next
    case False
    with 1 have IH: "length (chunks n (drop n xs)) = (length xs - n + n - 1) div n" by simp
    have len: "length xs + n - 1 = (length xs - 1) + n"
      using False by (simp add: Suc_leI)
    have "(length xs + n - 1) div n = Suc ((length xs - 1) div n)"
      unfolding len using 1(2) by (simp only: div_add_self2)
    moreover have "(length xs - n + n - 1) div n = (length xs - 1) div n"
      using 1(2) by (cases "n \<le> length xs") auto
    ultimately show ?thesis using IH False 1(2) by (simp add: chunks_step)
  qed
qed

lemma chunks_nth:
  "i < length (chunks n xs) \<Longrightarrow> chunks n xs ! i = take n (drop (i * n) xs)"
proof (induction n xs arbitrary: i rule: chunks.induct)
  case (1 n xs)
  have "\<not> (n = 0 \<or> xs = [])"
  proof
    assume "n = 0 \<or> xs = []"
    then have "chunks n xs = []" by (simp add: chunks.simps [of n xs])
    with 1 show False by simp
  qed
  then have "0 < n" and "xs \<noteq> []" by auto
  with 1 show ?case
    by (cases i) (simp_all add: chunks_step add.commute)
qed

lemma chunk_index_lt: "0 < n \<Longrightarrow> i < length (chunks n xs) \<longleftrightarrow> i * n < length xs"
proof -
  assume n: "0 < n"
  have "i < (length xs + n - 1) div n \<longleftrightarrow> Suc i * n \<le> length xs + n - 1"
    using n by (metis Suc_le_eq less_eq_div_iff_mult_less_eq)
  with n show ?thesis by (auto simp: length_chunks)
qed

section \<open>Hash maps keyed by \<open>u64\<close>\<close>

text \<open>
  A \<open>HashMap\<close> that the code iterates over is an association list with distinct keys (the
  iteration order never matters to the code: it only uses \<open>all\<close> and \<open>retain\<close>).
\<close>

type_synonym 'v hmap = "(u64 \<times> 'v) list"

definition hm_insert :: "u64 \<Rightarrow> 'v \<Rightarrow> 'v hmap \<Rightarrow> 'v hmap" where
  "hm_insert k v m = AList.update k v m"

definition hm_remove :: "u64 \<Rightarrow> 'v hmap \<Rightarrow> 'v hmap" where
  "hm_remove k m = AList.delete k m"

definition hm_retain :: "('v \<Rightarrow> bool) \<Rightarrow> 'v hmap \<Rightarrow> 'v hmap" where
  "hm_retain p m = filter (\<lambda>kv. p (snd kv)) m"

definition hm_all :: "('v \<Rightarrow> bool) \<Rightarrow> 'v hmap \<Rightarrow> bool" where
  "hm_all p m = list_all (\<lambda>kv. p (snd kv)) m"

lemma hm_insert_lookup [simp]: "map_of (hm_insert k v m) = (map_of m)(k \<mapsto> v)"
  by (simp add: hm_insert_def update_conv')

lemma hm_remove_lookup [simp]: "map_of (hm_remove k m) = (map_of m)(k := None)"
  by (simp add: hm_remove_def delete_conv')

lemma hm_insert_distinct [simp]:
  "distinct (map fst m) \<Longrightarrow> distinct (map fst (hm_insert k v m))"
  by (simp add: hm_insert_def distinct_update)

lemma hm_remove_distinct [simp]:
  "distinct (map fst m) \<Longrightarrow> distinct (map fst (hm_remove k m))"
  by (simp add: hm_remove_def distinct_delete)

lemma hm_retain_distinct [simp]:
  "distinct (map fst m) \<Longrightarrow> distinct (map fst (hm_retain p m))"
  by (auto simp: hm_retain_def intro: distinct_map_filter)

lemma set_hm_remove: "set (hm_remove k m) = {kv \<in> set m. fst kv \<noteq> k}"
  by (auto simp: hm_remove_def AList.delete_eq)

lemma hm_remove_idem [simp]: "hm_remove k (hm_remove k m) = hm_remove k m"
  by (simp add: hm_remove_def delete_idem)

lemma hm_remove_Nil [simp]: "hm_remove k [] = []"
  by (simp add: hm_remove_def)

lemma hm_all_iff: "hm_all p m \<longleftrightarrow> (\<forall>kv \<in> set m. p (snd kv))"
  by (simp add: hm_all_def list_all_iff)

end
