(* ===== verification/Backing_Common.thy ===== *)
theory Backing_Common
  imports Sc_Prelude
begin

text \<open>
  What the backings share (\<^verbatim>\<open>skycurrent/src/backing/common.rs\<close>): the results of the receiving calls,
  the errors of the common code, the interruption signals, and the set-up of the project directory
  over a file system given as a parameter.

  Values of third-party error types and \<open>std::io::ErrorKind\<close> are only stored and printed by the code:
  a string stands for them. A path is a list of components.
\<close>

type_synonym ext_error = string
type_synonym path = "string list"

datatype common_init_error =
    NotAFolder path
  | FailedToCanonicalizeProjectPath path ext_error
  | CreateDirError path ext_error
  | TcpListenerBindError ext_error

text \<open>A call that panics, or returns.\<close>

datatype 'a outcome = Panics | Returns 'a

datatype interrupt_signals = Interrupt | TerminationRequest | GenericInterruptSignal

datatype try_recv_stream_result =
    NewCompleted "byte list" nat
  | PotentiallyAvailable
  | OutOfAccessible

datatype try_recv_copy_result = NewMessage "byte list" | OutOfAccessibleCopy

text \<open>The operations of \<open>std::fs\<close> and of the canonicalisation crate that the code calls.\<close>

record 'w fs_api =
  fs_is_dir :: "path \<Rightarrow> 'w \<Rightarrow> bool"
  fs_exists :: "path \<Rightarrow> 'w \<Rightarrow> bool"
  fs_canonicalize :: "path \<Rightarrow> 'w \<Rightarrow> ext_error + path"
  fs_create_dir_all :: "path \<Rightarrow> 'w \<Rightarrow> (ext_error + unit) \<times> 'w"
  fs_write :: "path \<Rightarrow> string \<Rightarrow> 'w \<Rightarrow> (ext_error + unit) \<times> 'w"

definition path_join :: "path \<Rightarrow> string \<Rightarrow> path" where
  "path_join p c = p @ [c]"

record project_directory_paths =
  pd_root :: path
  pd_tmp :: path

definition build_project_dir_structure ::
  "'w fs_api \<Rightarrow> path \<Rightarrow> 'w \<Rightarrow> (common_init_error + project_directory_paths) \<times> 'w" where
  "build_project_dir_structure fs path_ref w =
     (if \<not> fs_is_dir fs path_ref w then (Inl (NotAFolder path_ref), w)
      else case fs_canonicalize fs path_ref w of
        Inl e \<Rightarrow> (Inl (FailedToCanonicalizeProjectPath path_ref e), w)
      | Inr p \<Rightarrow>
          (let tmp = path_join p ''tmp''
           in case fs_create_dir_all fs tmp w of
                (Inl e, w) \<Rightarrow> (Inl (CreateDirError tmp e), w)
              | (Inr _, w) \<Rightarrow> (Inr \<lparr>pd_root = p, pd_tmp = tmp\<rparr>, w)))"

text \<open>\<open>bind_tcp_listener\<close>, with \<open>TcpListener::bind\<close> as a parameter; a listener is opaque.\<close>

definition bind_tcp_listener ::
  "(string \<Rightarrow> 'w \<Rightarrow> (ext_error + 'l) \<times> 'w) \<Rightarrow> string \<Rightarrow> 'w \<Rightarrow> (common_init_error + 'l) \<times> 'w" where
  "bind_tcp_listener tcp_bind addr w =
     (case tcp_bind addr w of
        (Inl e, w) \<Rightarrow> (Inl (TcpListenerBindError e), w)
      | (Inr l, w) \<Rightarrow> (Inr l, w))"

lemma build_project_dir_structure_ok:
  assumes "build_project_dir_structure fs p w = (Inr d, w')"
  shows "fs_is_dir fs p w" and "fs_canonicalize fs p w = Inr (pd_root d)"
    and "pd_tmp d = pd_root d @ [''tmp'']"
    and "fs_create_dir_all fs (pd_tmp d) w = (Inr (), w')"
  using assms
  by (auto simp: build_project_dir_structure_def path_join_def Let_def
      split: if_splits sum.splits prod.splits)

end
