(* ===== verification/Iox2_Wire.thy ===== *)
theory Iox2_Wire
  imports Backing_Common
begin

text \<open>
  The pages of the iceoryx2 backing (\<^verbatim>\<open>skycurrent/src/backing/iox2.rs\<close>): how a payload is written
  into fixed-size blobs, in one page or fragmented, and how the receiver reads a page and merges
  fragments. Lengths are \<open>usize\<close> (natural numbers below \<open>2 ^ 64\<close>), wire fields are words.
\<close>

definition PRESET_N :: nat where
  "PRESET_N = 1024"

type_synonym blob = "byte list"

text \<open>\<open>Blob<N>::resize<T>\<close>.\<close>

definition blob_resize :: "nat \<Rightarrow> blob \<Rightarrow> blob" where
  "blob_resize t b =
     (let copy_size = min (length b) t
      in take copy_size b @ drop copy_size (replicate t 0))"

section \<open>Writing pages\<close>

text \<open>The page of an unfragmented payload (\<open>send_stream\<close>, the branch that does not fragment).\<close>

definition single_page :: "byte list \<Rightarrow> nat \<Rightarrow> blob option" where
  "single_page payload header_size = do {
     let data = replicate PRESET_N 0;
     data \<leftarrow> copy_into 0 8 (u64_to_le (word_of_nat (length payload))) data;
     data \<leftarrow> copy_into 16 24 (u64_to_le (word_of_nat header_size)) data;
     copy_into 24 (length payload + 24) payload data }"

text \<open>The page of chunk \<open>i\<close> of a fragmented payload (the loop body of \<open>send_stream\<close>).\<close>

definition fragment_page ::
  "nat \<Rightarrow> nat \<Rightarrow> u64 \<Rightarrow> nat \<Rightarrow> byte list \<Rightarrow> nat \<Rightarrow> byte list \<Rightarrow> blob option" where
  "fragment_page payload_body_len_remainder num_chunks identification header_size payload_header i chunk = do {
     let page = replicate PRESET_N 0;
     page \<leftarrow> copy_into 0 8 (u64_to_le (word_of_nat payload_body_len_remainder)) page;
     page \<leftarrow> copy_into 8 12 (u32_to_le (word_of_nat i)) page;
     page \<leftarrow> copy_into 12 16 (u32_to_le (word_of_nat num_chunks)) page;
     page \<leftarrow> copy_into 16 24 (u64_to_le identification) page;
     page \<leftarrow> copy_into 24 32 (u64_to_le (word_of_nat header_size)) page;
     page \<leftarrow> copy_into 32 (header_size + 32) payload_header page;
     let actual_chunk_len = length chunk;
     copy_into (header_size + 32) (actual_chunk_len + header_size + 32) chunk page }"

text \<open>The page of \<open>send_page_sized\<close>.\<close>

definition sized_page :: "byte list \<Rightarrow> blob option" where
  "sized_page payload = do {
     let data = replicate PRESET_N 0;
     data \<leftarrow> copy_into 0 8 (u64_to_le (word_of_nat (length payload))) data;
     copy_into 8 (length payload + 8) payload data }"

section \<open>Reading a page and merging\<close>

text \<open>An entry of \<open>MERGE_ALLOCS\<close>: the merged chunks, their count, and the allocation.\<close>

type_synonym merge_entry = "bool list \<times> nat \<times> byte list"
type_synonym merge_allocs = "u64 \<rightharpoonup> merge_entry"

text \<open>\<open>vec![0u8; n]\<close> panics when the size exceeds \<open>isize::MAX\<close>.\<close>

definition vec_zeroed :: "nat \<Rightarrow> byte list option" where
  "vec_zeroed n = (if n < 2 ^ 63 then Some (replicate n 0) else None)"

text \<open>\<open>merged[i]\<close> of a \<open>BitVec\<close> panics out of range.\<close>

definition bit_at :: "bool list \<Rightarrow> nat \<Rightarrow> bool option" where
  "bit_at bs i = (if i < length bs then Some (bs ! i) else None)"

text \<open>
  The total length a fragment announces:
  \<open>header_size + (num_chunks - 1) * chunk_size + if remainder == 0 { chunk_size } else { remainder }\<close>.
\<close>

definition announced_len :: "bool \<Rightarrow> nat \<Rightarrow> nat \<Rightarrow> nat \<Rightarrow> nat \<Rightarrow> nat option" where
  "announced_len ov header_size num_chunks chunk_size remainder = do {
     n \<leftarrow> usize_sub ov num_chunks 1;
     body \<leftarrow> usize_mul ov n chunk_size;
     l \<leftarrow> usize_add ov header_size body;
     usize_add ov l (if remainder = 0 then chunk_size else remainder) }"

text \<open>\<open>allocations.entry(identification).or_insert_with(..)\<close>.\<close>

definition entry_or_insert ::
  "bool \<Rightarrow> merge_allocs \<Rightarrow> u64 \<Rightarrow> nat \<Rightarrow> nat \<Rightarrow> blob \<Rightarrow> nat \<Rightarrow> merge_entry option" where
  "entry_or_insert ov allocs identification num_chunks total_len blob header_size =
     (case allocs identification of
        Some en \<Rightarrow> Some en
      | None \<Rightarrow> do {
          allocation \<leftarrow> vec_zeroed total_len;
          to \<leftarrow> usize_add ov header_size 32;
          header \<leftarrow> subslice 32 to blob;
          allocation \<leftarrow> copy_into 0 header_size header allocation;
          Some (replicate num_chunks False, 0, allocation) })"

text \<open>
  Merging one fragment the user asked for (the closure passed to \<open>MERGE_ALLOCS.with\<close>). The result is
  a completed payload with its header size, if any, and the allocations.
\<close>

definition merge_fragment ::
  "bool \<Rightarrow> blob \<Rightarrow> nat \<Rightarrow> nat \<Rightarrow> nat \<Rightarrow> u64 \<Rightarrow> nat \<Rightarrow> merge_allocs \<Rightarrow>
     ((byte list \<times> nat) option \<times> merge_allocs) option" where
  "merge_fragment ov blob remainder chunk_i num_chunks identification header_size allocs = do {
     chunk_size \<leftarrow> usize_sub ov (PRESET_N - 8 - 8 - 8 - 8) header_size;
     total_len \<leftarrow> announced_len ov header_size num_chunks chunk_size remainder;
     (merged, count, allocation) \<leftarrow>
       entry_or_insert ov allocs identification num_chunks total_len blob header_size;
     seen \<leftarrow> bit_at merged chunk_i;
     if seen then
       Some (None, allocs(identification \<mapsto> (merged, count, allocation)))
     else do {
       off \<leftarrow> usize_mul ov chunk_i chunk_size;
       chunk_start_offset \<leftarrow> usize_add ov header_size off;
       let actual_chunk_len =
         (if num_chunks = chunk_i + 1
          then (if remainder = 0 then chunk_size else remainder) else chunk_size);
       chunk_end_offset \<leftarrow> usize_add ov chunk_start_offset actual_chunk_len;
       from \<leftarrow> usize_add ov header_size 32;
       to \<leftarrow> usize_add ov actual_chunk_len header_size;
       to \<leftarrow> usize_add ov to 32;
       chunk \<leftarrow> subslice from to blob;
       allocation \<leftarrow> copy_into chunk_start_offset chunk_end_offset chunk allocation;
       let merged = merged[chunk_i := True];
       let count = count + 1;
       if num_chunks = count then
         Some (Some (allocation, header_size), allocs(identification := None))
       else
         Some (None, allocs(identification \<mapsto> (merged, count, allocation))) } }"

text \<open>
  The closure of \<open>try_recv_stream\<close>: what is done with one page. The user's \<open>should_collect\<close> may
  panic, hence its type.
\<close>

definition handle_page ::
  "bool \<Rightarrow> (byte list \<Rightarrow> bool option) \<Rightarrow> blob \<Rightarrow> merge_allocs \<Rightarrow>
     ((byte list \<times> nat) option \<times> merge_allocs) option" where
  "handle_page ov should_collect blob allocs = do {
     f \<leftarrow> subslice 0 8 blob;
     let remainder = unat (u64_from_le f);
     f \<leftarrow> subslice 8 12 blob;
     let chunk_i = unat (u32_from_le f);
     f \<leftarrow> subslice 12 16 blob;
     let num_chunks = unat (u32_from_le f);
     f \<leftarrow> subslice 16 24 blob;
     let identification = u64_from_le f;
     if num_chunks = 0 then do {
       let payload_len = remainder;
       let header_size = unat identification;
       to \<leftarrow> usize_add ov header_size 24;
       header \<leftarrow> subslice 24 to blob;
       collect \<leftarrow> should_collect header;
       if collect then do {
         to \<leftarrow> usize_add ov payload_len 24;
         payload \<leftarrow> subslice 24 to blob;
         Some (Some (payload, header_size), allocs) }
       else Some (None, allocs) }
     else do {
       f \<leftarrow> subslice 24 32 blob;
       let header_size = unat (u64_from_le f);
       to \<leftarrow> usize_add ov header_size 32;
       header \<leftarrow> subslice 32 to blob;
       collect \<leftarrow> should_collect header;
       if collect then
         merge_fragment ov blob remainder chunk_i num_chunks identification header_size allocs
       else Some (None, allocs) } }"

text \<open>The closure of \<open>recv_page_sized\<close>: the payload handed to the callback.\<close>

definition sized_payload :: "bool \<Rightarrow> blob \<Rightarrow> byte list option" where
  "sized_payload ov blob = do {
     f \<leftarrow> subslice 0 8 blob;
     to \<leftarrow> usize_add ov (unat (u64_from_le f)) 8;
     subslice 8 to blob }"

section \<open>The fragments of a payload\<close>

text \<open>
  What \<open>send_stream\<close> sends for a payload that does not fit into one page: its chunk size, its chunks,
  the length of the last chunk when that is not full, and the pages in order.
\<close>

definition chunk_size_of :: "nat \<Rightarrow> nat" where
  "chunk_size_of header_size = PRESET_N - 8 - 8 - 8 - 8 - header_size"

definition body_chunks :: "byte list \<Rightarrow> nat \<Rightarrow> byte list list" where
  "body_chunks payload header_size = chunks (chunk_size_of header_size) (drop header_size payload)"

definition body_remainder :: "byte list \<Rightarrow> nat \<Rightarrow> nat" where
  "body_remainder payload header_size = (length payload - header_size) mod chunk_size_of header_size"

definition nth_fragment :: "byte list \<Rightarrow> nat \<Rightarrow> u64 \<Rightarrow> nat \<Rightarrow> blob option" where
  "nth_fragment payload header_size identification i =
     fragment_page (body_remainder payload header_size) (length (body_chunks payload header_size))
       identification header_size (take header_size payload) i (body_chunks payload header_size ! i)"

end
