(* ===== verification/Event_Machine.thy ===== *)
theory Event_Machine
  imports Sc_Prelude
begin

text \<open>
  Runs of a deterministic machine over a list of operations, each step giving an event or not
  returning (\<open>None\<close>), and the interfaces: a machine with an invariant, one whose steps all return under
  it, and a machine that simulates a total specification event by event.
\<close>

fun run_events :: "('op \<Rightarrow> 's \<Rightarrow> ('ev \<times> 's) option) \<Rightarrow> 'op list \<Rightarrow> 's \<Rightarrow> ('ev list \<times> 's) option" where
  "run_events step [] s = Some ([], s)"
| "run_events step (x # xs) s =
     (case step x s of
        None \<Rightarrow> None
      | Some (e, s1) \<Rightarrow>
          (case run_events step xs s1 of
             None \<Rightarrow> None
           | Some (es, s2) \<Rightarrow> Some (e # es, s2)))"

fun run_total :: "('op \<Rightarrow> 's \<Rightarrow> 'ev \<times> 's) \<Rightarrow> 'op list \<Rightarrow> 's \<Rightarrow> 'ev list \<times> 's" where
  "run_total step [] s = ([], s)"
| "run_total step (x # xs) s =
     (let (e, s1) = step x s; (es, s2) = run_total step xs s1 in (e # es, s2))"

lemma run_total_Cons:
  "run_total step (x # xs) s =
     (fst (step x s) # fst (run_total step xs (snd (step x s))),
      snd (run_total step xs (snd (step x s))))"
  by (simp split: prod.splits)

lemma run_events_append:
  "run_events step (xs @ ys) s =
     (case run_events step xs s of
        None \<Rightarrow> None
      | Some (es, s1) \<Rightarrow>
          (case run_events step ys s1 of
             None \<Rightarrow> None
           | Some (fs, s2) \<Rightarrow> Some (es @ fs, s2)))"
  by (induction xs arbitrary: s) (auto split: option.splits prod.splits)

lemma run_events_map: "run_events step (map f xs) s = run_events (\<lambda>x. step (f x)) xs s"
  by (induction xs arbitrary: s) (auto split: option.splits)

lemma run_events_cong:
  "(\<And>x s. x \<in> set xs \<Longrightarrow> step x s = step' x s) \<Longrightarrow> run_events step xs s = run_events step' xs s"
  by (induction xs arbitrary: s) (auto split: option.splits)

locale guarded_machine =
  fixes step :: "'op \<Rightarrow> 's \<Rightarrow> ('ev \<times> 's) option"
    and inv :: "'s \<Rightarrow> bool"
    and good :: "'ev \<Rightarrow> bool"
  assumes step_keeps: "inv s \<Longrightarrow> step x s = Some (e, s') \<Longrightarrow> inv s' \<and> good e"
begin

lemma run_keeps: "inv s \<Longrightarrow> run_events step xs s = Some (es, s') \<Longrightarrow> inv s' \<and> list_all good es"
proof (induction xs arbitrary: s es)
  case (Cons x xs)
  then show ?case using step_keeps by (auto split: option.splits prod.splits) blast+
qed simp

text \<open>Steps that decrease a measure: a bound on the length of a run.\<close>

lemma run_bounded:
  assumes "\<And>s x e s'. inv s \<Longrightarrow> p x \<Longrightarrow> step x s = Some (e, s') \<Longrightarrow> m s' < (m s :: nat)"
  shows "inv s \<Longrightarrow> list_all p xs \<Longrightarrow> run_events step xs s = Some (es, s') \<Longrightarrow> length xs + m s' \<le> m s"
proof (induction xs arbitrary: s es)
  case (Cons x xs)
  then obtain e s1 fs where s1: "step x s = Some (e, s1)" "run_events step xs s1 = Some (fs, s')"
    by (auto split: option.splits)
  have "length xs + m s' \<le> m s1"
    using Cons s1 step_keeps [OF Cons.prems(1) s1(1)] by auto
  moreover have "m s1 < m s" using assms [OF Cons.prems(1) _ s1(1)] Cons.prems(2) by simp
  ultimately show ?case by simp
qed simp

end

locale invariant_machine =
  fixes step :: "'op \<Rightarrow> 's \<Rightarrow> ('ev \<times> 's) option"
    and inv :: "'s \<Rightarrow> bool"
    and good :: "'ev \<Rightarrow> bool"
  assumes step_ok: "inv s \<Longrightarrow> \<exists>e s'. step x s = Some (e, s') \<and> inv s' \<and> good e"
begin

lemma run_ok:
  "inv s \<Longrightarrow> \<exists>es s'. run_events step xs s = Some (es, s') \<and> inv s' \<and> (\<forall>e \<in> set es. good e)"
proof (induction xs arbitrary: s)
  case Nil
  then show ?case by simp
next
  case (Cons x xs)
  from step_ok [OF Cons.prems, of x] obtain e s1 where
    "step x s = Some (e, s1)" "inv s1" "good e" by blast
  moreover from Cons.IH [OF this(2)] obtain es s2 where
    "run_events step xs s1 = Some (es, s2)" "inv s2" "\<forall>e \<in> set es. good e" by blast
  ultimately show ?case by simp
qed

end

sublocale invariant_machine < guarded_machine step inv good
proof
  show "inv s' \<and> good e" if "inv s" "step x s = Some (e, s')" for s x e s'
    using step_ok [OF that(1), of x] that(2) by auto
qed

locale event_simulation =
  fixes cstep :: "'op \<Rightarrow> 'c \<Rightarrow> ('ev \<times> 'c) option"
    and astep :: "'op \<Rightarrow> 'a \<Rightarrow> 'ev \<times> 'a"
    and rel :: "'c \<Rightarrow> 'a \<Rightarrow> bool"
    and admitted :: "'op \<Rightarrow> bool"
  assumes simulates: "rel c a \<Longrightarrow> admitted x \<Longrightarrow>
    \<exists>c'. cstep x c = Some (fst (astep x a), c') \<and> rel c' (snd (astep x a))"
begin

lemma run_agrees:
  "rel c a \<Longrightarrow> list_all admitted xs \<Longrightarrow>
     \<exists>c'. run_events cstep xs c = Some (fst (run_total astep xs a), c') \<and>
          rel c' (snd (run_total astep xs a))"
proof (induction xs arbitrary: c a)
  case Nil
  then show ?case by simp
next
  case (Cons x xs)
  from Cons.prems simulates obtain c1 where
    c1: "cstep x c = Some (fst (astep x a), c1)" "rel c1 (snd (astep x a))"
    by (metis list.pred_inject(2))
  from Cons.IH [OF c1(2)] Cons.prems obtain c2 where
    "run_events cstep xs c1 = Some (fst (run_total astep xs (snd (astep x a))), c2)"
    "rel c2 (snd (run_total astep xs (snd (astep x a))))"
    by auto
  with c1 show ?case by (auto split: prod.splits)
qed

end

end
