(* ===== verification/Iox2_Merge.thy ===== *)
theory Iox2_Merge
  imports Iox2_Wire Event_Machine
begin

text \<open>
  Reassembly. The layout of the pages \<open>send_stream\<close> writes, what the receiver reads back from them,
  the invariant of a partially merged payload, and the refinement of the receiver to a machine that
  only remembers which fragments of which message have arrived.
\<close>

section \<open>Layout\<close>

lemma fragment_page_eq:
  assumes "length hdr = hs" and "hs + length ch + 32 \<le> PRESET_N"
  shows "fragment_page r n ident hs hdr i ch = Some
    (u64_to_le (word_of_nat r) @ u32_to_le (word_of_nat i) @ u32_to_le (word_of_nat n) @
     u64_to_le ident @ u64_to_le (word_of_nat hs) @ hdr @ ch @
     replicate (PRESET_N - 32 - hs - length ch) 0)"
  using assms unfolding fragment_page_def PRESET_N_def by (simp add: copy_into_def)

lemma single_page_eq:
  assumes "length payload + 24 \<le> PRESET_N"
  shows "single_page payload hs = Some
    (u64_to_le (word_of_nat (length payload)) @ replicate 8 0 @ u64_to_le (word_of_nat hs) @
     payload @ replicate (PRESET_N - 24 - length payload) 0)"
proof -
  have rep: "replicate 1016 0 = replicate 8 (0 :: byte) @ replicate 1008 0"
    by (simp add: replicate_add [symmetric])
  show ?thesis
    using assms unfolding single_page_def PRESET_N_def
    by (simp add: copy_into_def rep)
qed

lemma sized_page_eq:
  assumes "length payload + 8 \<le> PRESET_N"
  shows "sized_page payload = Some
    (u64_to_le (word_of_nat (length payload)) @ payload @ replicate (PRESET_N - 8 - length payload) 0)"
  using assms unfolding sized_page_def PRESET_N_def by (simp add: copy_into_def)

section \<open>Reading back\<close>

lemma subslice_mid:
  "length xs = a \<Longrightarrow> b = a + length ys \<Longrightarrow> subslice a b (xs @ ys @ zs) = Some ys"
  by (simp add: subslice_def)

lemma from_le_zeroes: "from_le (replicate n 0) = 0"
  by (induction n) simp_all

text \<open>A single page hands the payload to the receiver, whatever its allocations are.\<close>

lemma handle_single_page:
  assumes len: "length payload + 24 \<le> PRESET_N" and hs: "hs \<le> length payload"
    and page: "single_page payload hs = Some page"
  shows "handle_page ov sc page allocs =
    (case sc (take hs payload) of
       None \<Rightarrow> None
     | Some c \<Rightarrow> Some (if c then Some (payload, hs) else None, allocs))"
proof -
  let ?L = "u64_to_le (word_of_nat (length payload))" and ?H = "u64_to_le (word_of_nat hs)"
  let ?pad = "replicate (PRESET_N - 24 - length payload) 0"
  have page_eq: "page = ?L @ replicate 8 0 @ ?H @ payload @ ?pad"
    using page single_page_eq [OF len, of hs] by simp
  have sizes: "length payload < 2 ^ 64" "hs < 2 ^ 64" "hs + 24 < 2 ^ 64" "length payload + 24 < 2 ^ 64"
    using len hs by (simp_all add: PRESET_N_def)
  have zero: "u32_from_le (replicate 4 0) = 0"
    by (simp add: u32_from_le_def from_le_zeroes)
  have r4: "replicate 8 (0 :: byte) = replicate 4 0 @ replicate 4 0"
    by (simp add: replicate_add [symmetric])
  have slices: "subslice 0 8 page = Some ?L" "subslice 8 12 page = Some (replicate 4 0)"
    "subslice 12 16 page = Some (replicate 4 0)" "subslice 16 24 page = Some ?H"
    "subslice 24 (hs + 24) page = Some (take hs payload)"
    "subslice 24 (length payload + 24) page = Some payload"
    using hs len by (simp_all add: page_eq r4 subslice_def PRESET_N_def)
  show ?thesis
    using sizes
    by (simp add: handle_page_def slices zero unat_of_nat take_bit_nat_eq_self usize_add_ok
        unsigned_of_nat split: option.split)
qed

section \<open>Fragments of one payload\<close>

text \<open>
  The payloads \<open>send_stream\<close> fragments: the header leaves room for a body byte in a page, the body is
  not empty, and the number of chunks fits the 32-bit field of the page.
\<close>

definition fragmentable :: "byte list \<Rightarrow> nat \<Rightarrow> bool" where
  "fragmentable payload hs \<longleftrightarrow>
     8 + 8 + 8 + 8 + hs < PRESET_N \<and> hs < length payload \<and> length payload < 2 ^ 63 \<and>
     length (body_chunks payload hs) < 2 ^ 32"

abbreviation num_chunks_of :: "byte list \<Rightarrow> nat \<Rightarrow> nat" where
  "num_chunks_of payload hs \<equiv> length (body_chunks payload hs)"

lemma chunk_size_pos: "fragmentable payload hs \<Longrightarrow> 0 < chunk_size_of hs"
  by (simp add: fragmentable_def chunk_size_of_def PRESET_N_def)

definition chunk_len :: "byte list \<Rightarrow> nat \<Rightarrow> nat \<Rightarrow> nat" where
  "chunk_len payload hs i =
     (if num_chunks_of payload hs = i + 1
      then (if body_remainder payload hs = 0 then chunk_size_of hs else body_remainder payload hs)
      else chunk_size_of hs)"

lemma num_chunks_pos: "fragmentable payload hs \<Longrightarrow> 0 < num_chunks_of payload hs"
  using chunk_size_pos [of payload hs] chunk_index_lt [of "chunk_size_of hs" 0 "drop hs payload"]
  by (simp add: fragmentable_def body_chunks_def)

text \<open>All chunks but the last are full, and the announced length is the payload's.\<close>

lemma body_len:
  assumes "fragmentable payload hs"
  shows "length payload = hs + (num_chunks_of payload hs - 1) * chunk_size_of hs +
    (if body_remainder payload hs = 0 then chunk_size_of hs else body_remainder payload hs)"
proof -
  let ?c = "chunk_size_of hs" and ?b = "length payload - hs" and ?n = "num_chunks_of payload hs"
  have c: "0 < ?c" using assms by (rule chunk_size_pos)
  have b: "0 < ?b" and hs: "hs \<le> length payload" using assms by (auto simp: fragmentable_def)
  have n: "?n = (?b + ?c - 1) div ?c" using c by (simp add: body_chunks_def length_chunks)
  have split: "?b = (?b div ?c) * ?c + ?b mod ?c" by simp
  have "?b = (?n - 1) * ?c + (if ?b mod ?c = 0 then ?c else ?b mod ?c)"
  proof (cases "?b mod ?c = 0")
    case True
    then obtain k where k: "?b = k * ?c" by (metis mult.commute mult_0_right split add_0_right)
    then obtain j where j: "k = Suc j" using b by (cases k) auto
    have "?b + ?c - 1 = (?c - 1) + k * ?c" using k c by simp
    then have "?n = k" unfolding n using c by (intro div_nat_eqI) (simp_all add: algebra_simps)
    with True k j show ?thesis by simp
  next
    case False
    have "?b + ?c - 1 = (?b div ?c + 1) * ?c + (?b mod ?c - 1)"
      using False split by simp
    moreover have "?b mod ?c - 1 < ?c" using c by (simp add: less_imp_diff_less)
    ultimately have "?n = ?b div ?c + 1"
      unfolding n using c by (intro div_nat_eqI) (simp_all add: algebra_simps)
    with False split show ?thesis by simp
  qed
  then have "length payload = hs + ((?n - 1) * ?c + (if ?b mod ?c = 0 then ?c else ?b mod ?c))"
    using hs by linarith
  then show ?thesis by (simp only: body_remainder_def add.assoc)
qed

lemma chunk_start_le:
  assumes f: "fragmentable payload hs" and i: "i < num_chunks_of payload hs"
  shows "hs + i * chunk_size_of hs + chunk_len payload hs i \<le> length payload"
    and "num_chunks_of payload hs = i + 1 \<Longrightarrow>
      hs + i * chunk_size_of hs + chunk_len payload hs i = length payload"
proof -
  let ?c = "chunk_size_of hs" and ?n = "num_chunks_of payload hs"
  show *: "hs + i * ?c + chunk_len payload hs i = length payload" if "?n = i + 1"
    using body_len [OF f] that by (simp add: chunk_len_def)
  show "hs + i * ?c + chunk_len payload hs i \<le> length payload"
  proof (cases "?n = i + 1")
    case True
    with * show ?thesis by simp
  next
    case False
    with i have "Suc i \<le> ?n - 1" by simp
    then have "Suc i * ?c \<le> (?n - 1) * ?c" by (rule mult_le_mono1)
    with False body_len [OF f] show ?thesis by (simp add: chunk_len_def)
  qed
qed

lemma chunk_len_bound: "fragmentable payload hs \<Longrightarrow> chunk_len payload hs i \<le> chunk_size_of hs"
  using chunk_size_pos [of payload hs]
  by (auto simp: chunk_len_def body_remainder_def intro: less_imp_le)

lemma chunk_nth:
  assumes f: "fragmentable payload hs" and i: "i < num_chunks_of payload hs"
  shows "body_chunks payload hs ! i =
    take (chunk_len payload hs i) (drop (hs + i * chunk_size_of hs) payload)"
    and "length (body_chunks payload hs ! i) = chunk_len payload hs i"
proof -
  let ?c = "chunk_size_of hs"
  have eq: "body_chunks payload hs ! i = take ?c (drop (hs + i * ?c) payload)"
    using i by (simp add: body_chunks_def chunks_nth add.commute)
  show *: "body_chunks payload hs ! i = take (chunk_len payload hs i) (drop (hs + i * ?c) payload)"
  proof (cases "num_chunks_of payload hs = i + 1")
    case True
    with chunk_start_le(2) [OF f i]
    have "length (drop (hs + i * ?c) payload) = chunk_len payload hs i" by simp
    then show ?thesis using eq chunk_len_bound [OF f, of i] by (metis take_all order_refl)
  next
    case False
    with eq show ?thesis by (simp add: chunk_len_def)
  qed
  show "length (body_chunks payload hs ! i) = chunk_len payload hs i"
    using chunk_start_le(1) [OF f i] by (simp add: *)
qed

text \<open>Which chunk a payload byte belongs to.\<close>

lemma byte_in_chunk:
  assumes f: "fragmentable payload hs" and j: "hs \<le> j" "j < length payload"
    and i: "i < num_chunks_of payload hs"
  shows "(j - hs) div chunk_size_of hs = i \<longleftrightarrow>
    hs + i * chunk_size_of hs \<le> j \<and> j < hs + i * chunk_size_of hs + chunk_len payload hs i"
proof -
  let ?c = "chunk_size_of hs"
  have c: "0 < ?c" using f by (rule chunk_size_pos)
  have "(j - hs) div ?c = i \<longleftrightarrow> i \<le> (j - hs) div ?c \<and> (j - hs) div ?c < Suc i" by auto
  also have "\<dots> \<longleftrightarrow> i * ?c \<le> j - hs \<and> j - hs < Suc i * ?c"
    using c by (simp only: div_less_iff_less_mult less_eq_div_iff_mult_less_eq)
  also have "\<dots> \<longleftrightarrow> hs + i * ?c \<le> j \<and> j < hs + i * ?c + ?c"
    using j by (simp add: le_diff_conv2 less_diff_conv2 algebra_simps)
  finally have div_iff: "(j - hs) div ?c = i \<longleftrightarrow> hs + i * ?c \<le> j \<and> j < hs + i * ?c + ?c" .
  show ?thesis
  proof (cases "num_chunks_of payload hs = i + 1")
    case True
    from chunk_start_le(2) [OF f i True] have e: "hs + i * ?c + chunk_len payload hs i = length payload" .
    have "j < hs + i * ?c + ?c" using e j chunk_len_bound [OF f, of i] by linarith
    with div_iff e j show ?thesis by simp
  next
    case False
    then have "chunk_len payload hs i = ?c" by (simp add: chunk_len_def)
    with div_iff show ?thesis by simp
  qed
qed

lemma byte_chunk_exists:
  assumes f: "fragmentable payload hs" and j: "hs \<le> j" "j < length payload"
  shows "(j - hs) div chunk_size_of hs < num_chunks_of payload hs"
proof -
  have "((j - hs) div chunk_size_of hs) * chunk_size_of hs < length (drop hs payload)"
    using j by (metis (no_types, opaque_lifting) diff_less_mono div_times_less_eq_dividend
        le_less_trans length_drop)
  then show ?thesis
    unfolding body_chunks_def by (simp only: chunk_index_lt [OF chunk_size_pos [OF f]])
qed

section \<open>One fragment arrives\<close>

lemma nth_fragment_eq:
  assumes f: "fragmentable payload hs" and i: "i < num_chunks_of payload hs"
  shows "nth_fragment payload hs ident i = Some
    (u64_to_le (word_of_nat (body_remainder payload hs)) @ u32_to_le (word_of_nat i) @
     u32_to_le (word_of_nat (num_chunks_of payload hs)) @ u64_to_le ident @
     u64_to_le (word_of_nat hs) @ take hs payload @ body_chunks payload hs ! i @
     replicate (PRESET_N - 32 - hs - length (body_chunks payload hs ! i)) 0)"
proof -
  have "hs + length (body_chunks payload hs ! i) + 32 \<le> PRESET_N"
    using f chunk_len_bound [OF f, of i]
    unfolding chunk_nth(2) [OF f i] chunk_size_of_def fragmentable_def by linarith
  moreover have "length (take hs payload) = hs" using f by (simp add: fragmentable_def)
  ultimately show ?thesis unfolding nth_fragment_def by (rule fragment_page_eq [rotated])
qed

text \<open>What the receiver reads in a fragment page.\<close>

lemma fragment_reads:
  assumes f: "fragmentable payload hs" and i: "i < num_chunks_of payload hs"
    and page: "nth_fragment payload hs ident i = Some page"
  shows "subslice 0 8 page = Some (u64_to_le (word_of_nat (body_remainder payload hs)))"
    and "subslice 8 12 page = Some (u32_to_le (word_of_nat i))"
    and "subslice 12 16 page = Some (u32_to_le (word_of_nat (num_chunks_of payload hs)))"
    and "subslice 16 24 page = Some (u64_to_le ident)"
    and "subslice 24 32 page = Some (u64_to_le (word_of_nat hs))"
    and "subslice 32 (hs + 32) page = Some (take hs payload)"
    and "subslice (hs + 32) (chunk_len payload hs i + hs + 32) page = Some (body_chunks payload hs ! i)"
proof -
  have hs: "hs < length payload" using f by (simp add: fragmentable_def)
  note eq = page [unfolded nth_fragment_eq [OF f i], THEN option.inject [THEN iffD1], symmetric]
  note len = chunk_nth(2) [OF f i]
  show "subslice 0 8 page = Some (u64_to_le (word_of_nat (body_remainder payload hs)))"
    "subslice 8 12 page = Some (u32_to_le (word_of_nat i))"
    "subslice 12 16 page = Some (u32_to_le (word_of_nat (num_chunks_of payload hs)))"
    "subslice 16 24 page = Some (u64_to_le ident)"
    "subslice 24 32 page = Some (u64_to_le (word_of_nat hs))"
    "subslice 32 (hs + 32) page = Some (take hs payload)"
    "subslice (hs + 32) (chunk_len payload hs i + hs + 32) page = Some (body_chunks payload hs ! i)"
    using hs by (simp_all add: eq subslice_def len)
qed

lemma announced_len_eq:
  assumes f: "fragmentable payload hs"
  shows "announced_len ov hs (num_chunks_of payload hs) (chunk_size_of hs) (body_remainder payload hs) =
    Some (length payload)"
proof -
  let ?n = "num_chunks_of payload hs" and ?c = "chunk_size_of hs" and ?r = "body_remainder payload hs"
  have len: "length payload < 2 ^ 63" using f by (simp add: fragmentable_def)
  have one: "1 \<le> ?n" using num_chunks_pos [OF f] by linarith
  note b = body_len [OF f]
  have 1: "(?n - 1) * ?c < 2 ^ 64" "hs + (?n - 1) * ?c < 2 ^ 64" using b len by simp_all
  have 2: "hs + (?n - 1) * ?c + (if ?r = 0 then ?c else ?r) < 2 ^ 64" using b len by simp
  show ?thesis
    unfolding announced_len_def
    by (simp only: usize_sub_ok [OF one] usize_mul_ok [OF 1(1)] usize_add_ok [OF 1(2)]
        usize_add_ok [OF 2] Option.bind.bind_lunit b [symmetric])
qed

text \<open>The bytes that the chunks in \<open>S\<close> and the header bring.\<close>

definition partial_merge :: "byte list \<Rightarrow> nat \<Rightarrow> nat set \<Rightarrow> merge_entry \<Rightarrow> bool" where
  "partial_merge payload hs S en =
     (case en of (merged, count, allocation) \<Rightarrow>
        merged = map (\<lambda>i. i \<in> S) [0..<num_chunks_of payload hs] \<and>
        S \<subseteq> {..<num_chunks_of payload hs} \<and> count = card S \<and>
        length allocation = length payload \<and>
        (\<forall>j < length payload. j < hs \<or> (j - hs) div chunk_size_of hs \<in> S \<longrightarrow>
           allocation ! j = payload ! j))"

lemma entry_fresh:
  assumes f: "fragmentable payload hs" and i: "i < num_chunks_of payload hs"
    and page: "nth_fragment payload hs ident i = Some page" and none: "allocs ident = None"
  shows "\<exists>en. entry_or_insert ov allocs ident (num_chunks_of payload hs) (length payload) page hs = Some en \<and>
    partial_merge payload hs {} en"
proof -
  have len: "length payload < 2 ^ 63" and hs: "hs < length payload" "hs + 32 < 2 ^ 64"
    using f by (auto simp: fragmentable_def PRESET_N_def)
  show ?thesis
    using none len hs
    by (simp add: entry_or_insert_def vec_zeroed_def fragment_reads(6) [OF f i page]
        usize_add_ok [OF hs(2)] copy_into_def partial_merge_def map_replicate_const nth_append)
qed

text \<open>
  A fragment the user wants: nothing happens when it was merged before, the last missing one
  completes the payload and frees the entry, any other one is recorded.
\<close>

definition merging :: "byte list \<Rightarrow> nat \<Rightarrow> nat set \<Rightarrow> merge_entry option \<Rightarrow> bool" where
  "merging payload hs S x =
     (case x of None \<Rightarrow> S = {} | Some en \<Rightarrow> S \<noteq> {} \<and> partial_merge payload hs S en)"

lemma merging_empty: "merging payload hs {} x \<Longrightarrow> x = None"
  by (simp add: merging_def split: option.splits)

lemma merge_copy:
  assumes f: "fragmentable payload hs" and i: "i < num_chunks_of payload hs"
    and pm: "partial_merge payload hs S (merged, count, alloc)"
    and new: "i \<notin> S"
    and copy: "copy_into (hs + i * chunk_size_of hs) (hs + i * chunk_size_of hs + chunk_len payload hs i)
      (body_chunks payload hs ! i) alloc = Some alloc'"
  shows "partial_merge payload hs (insert i S) (merged[i := True], count + 1, alloc')"
proof -
  let ?c = "chunk_size_of hs" and ?n = "num_chunks_of payload hs"
  have len: "length alloc' = length payload"
    using copy_into_length [OF copy] pm by (simp add: partial_merge_def)
  have merged: "merged[i := True] = map (\<lambda>k. k \<in> insert i S) [0..<?n]"
    using pm i by (auto simp: partial_merge_def intro!: nth_equalityI split: if_splits)
      (metis nth_list_update length_map diff_zero length_upt nth_map_upt add_0)+
  have fin: "finite S" using pm by (auto simp: partial_merge_def intro: finite_subset)
  have bytes: "alloc' ! j = payload ! j"
    if j: "j < length payload" and known: "j < hs \<or> (j - hs) div ?c \<in> insert i S" for j
  proof -
    have nth: "alloc' ! j =
        (if hs + i * ?c \<le> j \<and> j < hs + i * ?c + chunk_len payload hs i
         then body_chunks payload hs ! i ! (j - (hs + i * ?c)) else alloc ! j)"
      using copy_into_nth [OF copy, of j] j pm by (simp add: partial_merge_def)
    show ?thesis
    proof (cases "hs + i * ?c \<le> j \<and> j < hs + i * ?c + chunk_len payload hs i")
      case True
      then have "body_chunks payload hs ! i ! (j - (hs + i * ?c)) = payload ! j"
        using chunk_start_le(1) [OF f i] j
        by (subst chunk_nth(1) [OF f i], subst nth_take) (auto simp del: drop_drop)
      with nth True show ?thesis by simp
    next
      case False
      then have "j < hs \<or> (j - hs) div ?c \<in> S"
        using known byte_in_chunk [OF f _ j i] by (cases "j < hs") auto
      then have "alloc ! j = payload ! j" using pm j by (auto simp: partial_merge_def)
      with nth False show ?thesis by simp
    qed
  qed
  show ?thesis
    unfolding partial_merge_def prod.case merged
    using pm new i fin len bytes by (auto simp: partial_merge_def)
qed

lemma partial_merge_complete:
  assumes f: "fragmentable payload hs" and pm: "partial_merge payload hs S (merged, count, alloc)"
  shows "num_chunks_of payload hs = count \<longleftrightarrow> S = {..<num_chunks_of payload hs}"
    and "S = {..<num_chunks_of payload hs} \<Longrightarrow> alloc = payload"
proof -
  show "num_chunks_of payload hs = count \<longleftrightarrow> S = {..<num_chunks_of payload hs}"
    using pm card_subset_eq [of "{..<num_chunks_of payload hs}" S] by (auto simp: partial_merge_def)
  show "alloc = payload" if "S = {..<num_chunks_of payload hs}"
    using pm byte_chunk_exists [OF f] that
    by (intro nth_equalityI) (auto simp: partial_merge_def not_less)
qed

text \<open>What the closure of \<open>try_recv_stream\<close> does with fragment \<open>i\<close> of a payload it is asked to collect.\<close>

definition completes :: "byte list \<Rightarrow> nat \<Rightarrow> nat set \<Rightarrow> nat \<Rightarrow> bool" where
  "completes payload hs S i \<longleftrightarrow> i \<notin> S \<and> insert i S = {..<num_chunks_of payload hs}"

lemma handle_fragment:
  assumes f: "fragmentable payload hs" and i: "i < num_chunks_of payload hs"
    and page: "nth_fragment payload hs ident i = Some page"
    and sc: "sc (take hs payload) = Some True"
    and m: "merging payload hs S (allocs ident)"
  shows "\<exists>x. handle_page ov sc page allocs =
      Some (if completes payload hs S i then Some (payload, hs) else None, allocs(ident := x)) \<and>
    merging payload hs (if completes payload hs S i then {} else insert i S) x"
proof -
  let ?c = "chunk_size_of hs" and ?n = "num_chunks_of payload hs" and ?r = "body_remainder payload hs"
  have hs: "hs + 32 < 1024" "hs + 32 < 2 ^ 64" and len: "length payload < 2 ^ 63" and n: "?n < 2 ^ 32"
    using f by (simp_all add: fragmentable_def PRESET_N_def)
  have c: "?c = 992 - hs" "PRESET_N - 8 - 8 - 8 - 8 = 992" by (simp_all add: chunk_size_of_def PRESET_N_def)
  have r: "?r < 2 ^ 64"
    unfolding body_remainder_def by (rule le_less_trans [OF mod_less_eq_dividend]) (use len in simp)
  have cl: "chunk_len payload hs i \<le> 992" using chunk_len_bound [OF f, of i] c by simp
  have sub: "usize_sub ov 992 hs = Some ?c" using hs c by (simp add: usize_sub_ok)
  have bound: "hs + i * ?c + chunk_len payload hs i < 2 ^ 64"
    using chunk_start_le(1) [OF f i] len by simp
  have arith: "usize_mul ov i ?c = Some (i * ?c)" "usize_add ov hs (i * ?c) = Some (hs + i * ?c)"
    "usize_add ov (hs + i * ?c) (chunk_len payload hs i) = Some (hs + i * ?c + chunk_len payload hs i)"
    "usize_add ov hs 32 = Some (hs + 32)"
    "usize_add ov (chunk_len payload hs i) hs = Some (chunk_len payload hs i + hs)"
    "usize_add ov (chunk_len payload hs i + hs) 32 = Some (chunk_len payload hs i + hs + 32)"
    using bound hs cl by (simp_all add: usize_add_def usize_mul_def)
  have words: "unat (word_of_nat hs :: u64) = hs" "unat (word_of_nat i :: u32) = i"
    "unat (word_of_nat ?n :: u32) = ?n" "unat (word_of_nat ?r :: u64) = ?r"
    using hs i n r by (simp_all add: unat_of_nat)
  have alen: "(if ?n = i + 1 then if ?r = 0 then ?c else ?r else ?c) = chunk_len payload hs i"
    by (simp add: chunk_len_def)
  have reads: "handle_page ov sc page allocs = merge_fragment ov page ?r i ?n ident hs allocs"
    using num_chunks_pos [OF f] sc
    by (simp add: handle_page_def fragment_reads [OF f i page] words arith)
  obtain merged count alloc where
    en: "entry_or_insert ov allocs ident ?n (length payload) page hs = Some (merged, count, alloc)"
    and pm: "partial_merge payload hs S (merged, count, alloc)"
    and same: "i \<in> S \<Longrightarrow> allocs ident = Some (merged, count, alloc)"
  proof (cases "allocs ident")
    case None
    with m entry_fresh [where allocs = allocs and ov = ov, OF f i page None] that show ?thesis by (auto simp: merging_def)
  next
    case (Some en)
    with m that show ?thesis by (cases en) (auto simp: merging_def entry_or_insert_def)
  qed
  have bit: "bit_at merged i = Some (i \<in> S)"
    using pm i by (simp add: partial_merge_def bit_at_def)
  show ?thesis
  proof (cases "i \<in> S")
    case True
    then have "allocs(ident \<mapsto> (merged, count, alloc)) = allocs(ident := allocs ident)"
      by (simp add: same)
    with True have "handle_page ov sc page allocs = Some (None, allocs(ident := allocs ident))"
      by (simp only: reads merge_fragment_def c(2) sub announced_len_eq [OF f] en bit
          Option.bind.bind_lunit prod.case if_True)
    with True pm show ?thesis
      by (auto simp: completes_def insert_absorb same merging_def)
  next
    case False
    obtain alloc' where copy: "copy_into (hs + i * ?c) (hs + i * ?c + chunk_len payload hs i)
        (body_chunks payload hs ! i) alloc = Some alloc'"
      using chunk_start_le(1) [OF f i] chunk_nth(2) [OF f i] pm
      by (auto simp: copy_into_def partial_merge_def)
    note pm' = merge_copy [OF f i pm False copy]
    note comp = partial_merge_complete [OF f pm']
    have "handle_page ov sc page allocs =
        (if ?n = count + 1 then Some (Some (alloc', hs), allocs(ident := None))
         else Some (None, allocs(ident \<mapsto> (merged[i := True], count + 1, alloc'))))"
      using False
      by (simp only: reads merge_fragment_def c(2) sub announced_len_eq [OF f] en bit
          Option.bind.bind_lunit prod.case if_False Let_def alen arith fragment_reads(7) [OF f i page] copy)
    with comp pm' False show ?thesis
      by (auto simp: completes_def merging_def)
  qed
qed

lemma handle_unwanted:
  assumes f: "fragmentable payload hs" and i: "i < num_chunks_of payload hs"
    and page: "nth_fragment payload hs ident i = Some page"
    and sc: "sc (take hs payload) = Some False"
  shows "handle_page ov sc page allocs = Some (None, allocs)"
proof -
  have hs: "hs + 32 < 2 ^ 64" and n: "num_chunks_of payload hs < 2 ^ 32"
    using f by (simp_all add: fragmentable_def PRESET_N_def)
  then show ?thesis
    using num_chunks_pos [OF f] sc
    by (simp add: handle_page_def fragment_reads [OF f i page] unat_of_nat usize_add_ok)
qed

end
