(* ===== verification/Iox2_Port.thy ===== *)
theory Iox2_Port
  imports Iox2_Merge
begin

unbundle bit_operations_syntax

text \<open>
  The iceoryx2 backing of one thread (\<^verbatim>\<open>skycurrent/src/backing/iox2.rs\<close>): the thread-local cells,
  initialisation, waiting and notifying, sending and receiving pages, and the streams over them.

  iceoryx2, the random generator and the file system are an argument (\<open>iox2_api\<close>) over a world of
  type \<open>'w\<close>; its objects (configuration, node, services, ports) are opaque handles of type \<open>'h\<close>.
  Durations are milliseconds.
\<close>

section \<open>The library interface\<close>

datatype node_wait_failure = NodeInterrupt | NodeTerminationRequest

datatype listener_wait_error = InterruptSignal | OtherWaitError ext_error

text \<open>
  \<open>blocking_wait_all\<close> may never return, and then gives \<open>None\<close>; otherwise it gives the event ids it
  called back with, in order.
\<close>

record ('w, 'h) iox2_api =
  api_fs :: "'w fs_api"
  path_text :: "path \<Rightarrow> string"
  on_unix :: bool
  on_windows :: bool
  file_path_new :: "path \<Rightarrow> ext_error + unit"
  config_from_file :: "path \<Rightarrow> 'w \<Rightarrow> (ext_error + 'h) \<times> 'w"
  node_create :: "'h \<Rightarrow> 'w \<Rightarrow> (ext_error + 'h) \<times> 'w"
  event_open_or_create :: "'h \<Rightarrow> string \<Rightarrow> 'w \<Rightarrow> (ext_error + 'h) \<times> 'w"
  notifier_create :: "'h \<Rightarrow> 'w \<Rightarrow> (ext_error + 'h) \<times> 'w"
  listener_create :: "'h \<Rightarrow> 'w \<Rightarrow> (ext_error + 'h) \<times> 'w"
  pub_sub_open_or_create :: "'h \<Rightarrow> string \<Rightarrow> 'w \<Rightarrow> (ext_error + 'h) \<times> 'w"
  publisher_create :: "'h \<Rightarrow> 'w \<Rightarrow> (ext_error + 'h) \<times> 'w"
  subscriber_create :: "'h \<Rightarrow> 'w \<Rightarrow> (ext_error + 'h) \<times> 'w"
  node_wait :: "'h \<Rightarrow> nat \<Rightarrow> 'w \<Rightarrow> (node_wait_failure + unit) \<times> 'w"
  notify_event :: "'h \<Rightarrow> nat \<Rightarrow> 'w \<Rightarrow> (ext_error + nat) \<times> 'w"
  blocking_wait_all :: "'h \<Rightarrow> 'w \<Rightarrow> ((listener_wait_error + unit) \<times> nat list \<times> 'w) option"
  timed_wait_all :: "'h \<Rightarrow> nat \<Rightarrow> 'w \<Rightarrow> (listener_wait_error + unit) \<times> nat list \<times> 'w"
  loan_uninit :: "'h \<Rightarrow> 'w \<Rightarrow> (ext_error + 'h) \<times> 'w"
  sample_send :: "'h \<Rightarrow> blob \<Rightarrow> 'w \<Rightarrow> (ext_error + unit) \<times> 'w"
  sub_receive :: "'h \<Rightarrow> 'w \<Rightarrow> (ext_error + blob option) \<times> 'w"
  random_u64 :: "'w \<Rightarrow> u64 \<times> 'w"

section \<open>Thread-local state\<close>

record 'h iox2_tls =
  project_root_path :: "path option"
  iox2_custom_config :: "'h option"
  iox2_node :: "'h option"
  iox2_service_events :: "'h option"
  iox2_notif :: "'h option"
  iox2_liste :: "'h option"
  iox2_service_pub_sub :: "'h option"
  iox2_pub :: "'h option"
  iox2_sub :: "'h option"
  merge_allocs :: merge_allocs

definition fresh_tls :: "'h iox2_tls" where
  "fresh_tls = \<lparr>project_root_path = None, iox2_custom_config = None, iox2_node = None,
     iox2_service_events = None, iox2_notif = None, iox2_liste = None, iox2_service_pub_sub = None,
     iox2_pub = None, iox2_sub = None, merge_allocs = Map.empty\<rparr>"

text \<open>\<open>OnceCell::get_or_init\<close>.\<close>

definition get_or_init :: "'a \<Rightarrow> 'a option \<Rightarrow> 'a option" where
  "get_or_init v cell = (case cell of None \<Rightarrow> Some v | Some x \<Rightarrow> Some x)"

section \<open>Initialisation\<close>

type_synonym init_flags = u32

definition IOX2_CREAT_SUBSCRIBER :: init_flags where "IOX2_CREAT_SUBSCRIBER = 0b00000001"
definition IOX2_CREAT_PUBLISHER :: init_flags where "IOX2_CREAT_PUBLISHER = 0b00000010"
definition IOX2_CREAT_LISTENER :: init_flags where "IOX2_CREAT_LISTENER = 0b00000100"
definition IOX2_CREAT_NOTIFIER :: init_flags where "IOX2_CREAT_NOTIFIER = 0b00001000"

definition intersects :: "init_flags \<Rightarrow> init_flags \<Rightarrow> bool" where
  "intersects f g \<longleftrightarrow> f AND g \<noteq> 0"

datatype iox2_init_error =
    CommonInitError common_init_error
  | CreateIox2RootError path ext_error
  | Iox2WriteIpcConfigError path ext_error
  | Iox2NodeCreationFailure ext_error
  | Iox2EventOpenOrCreateError ext_error
  | Iox2NotifierCreateError ext_error
  | Iox2ListenerCreateError ext_error
  | Iox2PublishSubscribeOpenOrCreateError ext_error
  | Iox2PublisherCreateError ext_error
  | Iox2SubscriberCreateError ext_error
  | Iox2InvalidConfigFilePathError path ext_error
  | Iox2ConfigCreationError ext_error

definition apostrophe :: string where
  "apostrophe = [CHR 0x27]"

fun join_lines :: "string list \<Rightarrow> string" where
  "join_lines [] = []"
| "join_lines [l] = l"
| "join_lines (l # m # ls) = l @ [CHR 0x0A] @ join_lines (m # ls)"

text \<open>The configuration file \<open>init\<close> writes when there is none.\<close>

definition ipc_config :: "string \<Rightarrow> string \<Rightarrow> string" where
  "ipc_config unix windows = join_lines
     [[],
      ''[global]'',
      ''root-path-unix                              = '' @ apostrophe @ unix @ apostrophe,
      ''root-path-windows                           = '' @ apostrophe @ windows @ apostrophe,
      ''prefix                                      = '' @ apostrophe @ ''sc_'' @ apostrophe,
      [],
      ''[global.node]'',
      ''directory                                   = '' @ apostrophe @ ''nodes'' @ apostrophe,
      ''monitor-suffix                              = '' @ apostrophe @ ''.node_monitor'' @ apostrophe,
      ''static-config-suffix                        = '' @ apostrophe @ ''.details'' @ apostrophe,
      ''service-tag-suffix                          = '' @ apostrophe @ ''.service_tag'' @ apostrophe,
      ''cleanup-dead-nodes-on-creation              = true'',
      ''cleanup-dead-nodes-on-destruction           = true'',
      [],
      ''[global.service]'',
      ''directory                                   = '' @ apostrophe @ ''services'' @ apostrophe,
      ''publisher-data-segment-suffix               = '' @ apostrophe @ ''.publisher_data'' @ apostrophe,
      ''static-config-storage-suffix                = '' @ apostrophe @ ''.service'' @ apostrophe,
      ''dynamic-config-storage-suffix               = '' @ apostrophe @ ''.dynamic'' @ apostrophe,
      ''event-connection-suffix                     = '' @ apostrophe @ ''.event'' @ apostrophe,
      ''connection-suffix                           = '' @ apostrophe @ ''.connection'' @ apostrophe,
      ''creation-timeout.secs                       = 0'',
      ''creation-timeout.nanos                      = 500000000'',
      [],
      ''[defaults.request-response]'',
      ''enable-safe-overflow-for-requests           = true'',
      ''enable-safe-overflow-for-responses          = true'',
      ''max-active-responses                        = 4'',
      ''max-active-requests                         = 2'',
      ''max-borrowed-responses                      = 4'',
      ''max-borrowed-requests                       = 2'',
      ''max-response-buffer-size                    = 2'',
      ''max-request-buffer-size                     = 4'',
      ''max-servers                                 = 2'',
      ''max-clients                                 = 8'',
      ''max-nodes                                   = 20'',
      [],
      ''[defaults.publish-subscribe]'',
      ''max-subscribers                             = 16'',
      ''max-publishers                              = 16'',
      ''max-nodes                                   = 20'',
      ''publisher-history-size                      = 0'',
      ''subscriber-max-buffer-size                  = 10'',
      ''subscriber-max-borrowed-samples             = 10'',
      ''publisher-max-loaned-samples                = 10'',
      ''enable-safe-overflow                        = false'',
      ''unable-to-deliver-strategy                  = '' @ apostrophe @ ''Block'' @ apostrophe @ '' # or '' @ apostrophe @ ''DiscardSample'' @ apostrophe,
      ''subscriber-expired-connection-buffer        = 128'',
      [],
      ''[defaults.event]'',
      ''max-listeners                               = 16'',
      ''max-notifiers                               = 16'',
      ''max-nodes                                   = 36'',
      ''event-id-max-value                          = 4294967295'',
      ''# deadline.secs                               = 1 # uncomment to enable deadline'',
      ''# deadline.nanos                              = 0 # uncomment to enable deadline'',
      ''# notifier-created-event                      = 1 # uncomment to enable setting'',
      ''# notifier-dropped-event                      = 2 # uncomment to enable setting'',
      ''# notifier-dead-event                         = 3 # uncomment to enable setting'']"

text \<open>The \<open>?\<close> operator over a state, and a fallible operation of the world with its error wrapped.\<close>

definition try_bind ::
  "('s \<Rightarrow> ('e + 'a) \<times> 's) \<Rightarrow> ('a \<Rightarrow> 's \<Rightarrow> ('e + 'b) \<times> 's) \<Rightarrow> 's \<Rightarrow> ('e + 'b) \<times> 's" where
  "try_bind m f s = (case m s of (Inl e, s1) \<Rightarrow> (Inl e, s1) | (Inr a, s1) \<Rightarrow> f a s1)"

definition try_ok :: "'a \<Rightarrow> 's \<Rightarrow> ('e + 'a) \<times> 's" where
  "try_ok a s = (Inr a, s)"

definition on_world :: "('x \<Rightarrow> 'e) \<Rightarrow> ('w \<Rightarrow> ('x + 'a) \<times> 'w) \<Rightarrow> 't \<times> 'w \<Rightarrow> ('e + 'a) \<times> 't \<times> 'w" where
  "on_world wrap f s =
     (case s of (cells, w) \<Rightarrow>
        (case f w of (r, w1) \<Rightarrow> (case r of Inl e \<Rightarrow> Inl (wrap e) | Inr a \<Rightarrow> Inr a, cells, w1)))"

definition on_cells :: "('t \<Rightarrow> 't) \<Rightarrow> 't \<times> 'w \<Rightarrow> ('e + unit) \<times> 't \<times> 'w" where
  "on_cells f s = (case s of (cells, w) \<Rightarrow> (Inr (), f cells, w))"

text \<open>
  A port is created only if its flag is set, and put into its cell at once unless the cell is full.
\<close>

definition create_port ::
  "bool \<Rightarrow> (ext_error \<Rightarrow> iox2_init_error) \<Rightarrow> ('w \<Rightarrow> (ext_error + 'h) \<times> 'w) \<Rightarrow>
     (('h option \<Rightarrow> 'h option) \<Rightarrow> 'h iox2_tls \<Rightarrow> 'h iox2_tls) \<Rightarrow>
     'h iox2_tls \<times> 'w \<Rightarrow> (iox2_init_error + unit) \<times> 'h iox2_tls \<times> 'w" where
  "create_port wanted wrap create cell =
     (if wanted then try_bind (on_world wrap create) (\<lambda>p. on_cells (cell (get_or_init p)))
      else try_ok ())"

definition write_config_if_missing ::
  "('w, 'h) iox2_api \<Rightarrow> path \<Rightarrow> path \<Rightarrow> 'h iox2_tls \<times> 'w \<Rightarrow>
     (iox2_init_error + unit) \<times> 'h iox2_tls \<times> 'w" where
  "write_config_if_missing api config_path root s =
     (if fs_exists (api_fs api) config_path (snd s) then try_ok () s
      else on_world (Iox2WriteIpcConfigError config_path)
        (fs_write (api_fs api) config_path
          (ipc_config (if on_unix api then path_text api root else [])
                      (if on_windows api then path_text api root else []))) s)"

definition iox2_init ::
  "('w, 'h) iox2_api \<Rightarrow> path \<Rightarrow> init_flags \<Rightarrow> 'h iox2_tls \<times> 'w \<Rightarrow>
     (iox2_init_error + unit) \<times> 'h iox2_tls \<times> 'w" where
  "iox2_init api path_ref flags =
     try_bind (on_world CommonInitError (build_project_dir_structure (api_fs api) path_ref)) (\<lambda>dirs.
     let root = path_join (pd_tmp dirs) ''iox2''; config_path = path_join (pd_tmp dirs) ''iox2.toml'' in
     try_bind (on_world (CreateIox2RootError root) (fs_create_dir_all (api_fs api) root)) (\<lambda>_.
     try_bind (write_config_if_missing api config_path root) (\<lambda>_.
     try_bind (on_world (Iox2InvalidConfigFilePathError config_path)
         (\<lambda>w. (file_path_new api config_path, w))) (\<lambda>_.
     try_bind (on_world Iox2ConfigCreationError (config_from_file api config_path)) (\<lambda>custom_config.
     try_bind (on_world Iox2NodeCreationFailure (node_create api custom_config)) (\<lambda>node.
     try_bind (on_world Iox2EventOpenOrCreateError
         (event_open_or_create api node ''SkyCurrent/Events'')) (\<lambda>service_events.
     try_bind (create_port (intersects flags IOX2_CREAT_NOTIFIER) Iox2NotifierCreateError
         (notifier_create api service_events) iox2_notif_update) (\<lambda>_.
     try_bind (create_port (intersects flags IOX2_CREAT_LISTENER) Iox2ListenerCreateError
         (listener_create api service_events) iox2_liste_update) (\<lambda>_.
     try_bind (on_world Iox2PublishSubscribeOpenOrCreateError
         (pub_sub_open_or_create api node ''SkyCurrent/PubSub'')) (\<lambda>service_pub_sub.
     try_bind (create_port (intersects flags IOX2_CREAT_PUBLISHER) Iox2PublisherCreateError
         (publisher_create api service_pub_sub) iox2_pub_update) (\<lambda>_.
     try_bind (create_port (intersects flags IOX2_CREAT_SUBSCRIBER) Iox2SubscriberCreateError
         (subscriber_create api service_pub_sub) iox2_sub_update) (\<lambda>_.
     on_cells (\<lambda>cells.
       cells\<lparr>iox2_service_pub_sub := get_or_init service_pub_sub (iox2_service_pub_sub cells),
          iox2_service_events := get_or_init service_events (iox2_service_events cells),
          iox2_node := get_or_init node (iox2_node cells),
          iox2_custom_config := get_or_init custom_config (iox2_custom_config cells),
          project_root_path := get_or_init (pd_root dirs) (project_root_path cells)\<rparr>)))))))))))))"

section \<open>Waiting and notifying\<close>

datatype iox2_ipc_error =
    NotInitialized
  | InterruptSignalReceivedError interrupt_signals
  | PayloadHeaderSizeExceedsPayloadLength nat nat
  | Iox2PayloadTooLarge nat nat
  | Iox2PayloadHeaderTooLarge nat nat
  | Iox2NotifierNotifyError ext_error
  | Iox2ListenerWaitError listener_wait_error
  | Iox2PublisherLoanError ext_error
  | Iox2PublisherSendError ext_error
  | Iox2SubscriberReceiveError ext_error

definition node_pause ::
  "('w, 'h) iox2_api \<Rightarrow> 'h iox2_tls \<Rightarrow> nat \<Rightarrow> 'w \<Rightarrow> (iox2_ipc_error + unit) \<times> 'w" where
  "node_pause api cells cycle_time w =
     (case iox2_node cells of
        None \<Rightarrow> (Inl NotInitialized, w)
      | Some node \<Rightarrow>
          (case node_wait api node cycle_time w of
             (Inl NodeInterrupt, w1) \<Rightarrow> (Inl (InterruptSignalReceivedError Interrupt), w1)
           | (Inl NodeTerminationRequest, w1) \<Rightarrow>
               (Inl (InterruptSignalReceivedError TerminationRequest), w1)
           | (Inr u, w1) \<Rightarrow> (Inr (), w1)))"

definition listener_error :: "listener_wait_error \<Rightarrow> iox2_ipc_error" where
  "listener_error e =
     (case e of
        InterruptSignal \<Rightarrow> InterruptSignalReceivedError GenericInterruptSignal
      | OtherWaitError _ \<Rightarrow> Iox2ListenerWaitError e)"

text \<open>The callback is a state transformer; \<open>None\<close> is a wait that never ends.\<close>

definition wait_for_events ::
  "('w, 'h) iox2_api \<Rightarrow> 'h iox2_tls \<Rightarrow> (nat \<Rightarrow> 'c \<Rightarrow> 'c) \<Rightarrow> 'c \<Rightarrow> 'w \<Rightarrow>
     ((iox2_ipc_error + unit) \<times> 'c \<times> 'w) option" where
  "wait_for_events api cells f c w =
     (case iox2_liste cells of
        None \<Rightarrow> Some (Inl NotInitialized, c, w)
      | Some listener \<Rightarrow>
          (case blocking_wait_all api listener w of
             None \<Rightarrow> None
           | Some (r, ids, w1) \<Rightarrow>
               Some (case r of Inl e \<Rightarrow> Inl (listener_error e) | Inr u \<Rightarrow> Inr (), fold f ids c, w1)))"

definition wait_for_events_with_timeout ::
  "('w, 'h) iox2_api \<Rightarrow> 'h iox2_tls \<Rightarrow> (nat \<Rightarrow> 'c \<Rightarrow> 'c) \<Rightarrow> nat \<Rightarrow> 'c \<Rightarrow> 'w \<Rightarrow>
     (iox2_ipc_error + unit) \<times> 'c \<times> 'w" where
  "wait_for_events_with_timeout api cells f timeout c w =
     (case iox2_liste cells of
        None \<Rightarrow> (Inl NotInitialized, c, w)
      | Some listener \<Rightarrow>
          (case timed_wait_all api listener timeout w of
             (r, ids, w1) \<Rightarrow>
               (case r of Inl e \<Rightarrow> Inl (listener_error e) | Inr u \<Rightarrow> Inr (), fold f ids c, w1)))"

definition notify ::
  "('w, 'h) iox2_api \<Rightarrow> 'h iox2_tls \<Rightarrow> nat \<Rightarrow> 'w \<Rightarrow> (iox2_ipc_error + nat) \<times> 'w" where
  "notify api cells event_id w =
     (case iox2_notif cells of
        None \<Rightarrow> (Inl NotInitialized, w)
      | Some notifier \<Rightarrow>
          (case notify_event api notifier event_id w of
             (Inl e, w1) \<Rightarrow> (Inl (Iox2NotifierNotifyError e), w1)
           | (Inr n, w1) \<Rightarrow> (Inr n, w1)))"

definition iox2_wait_stream ::
  "('w, 'h) iox2_api \<Rightarrow> 'h iox2_tls \<Rightarrow> 'w \<Rightarrow> ((iox2_ipc_error + unit) \<times> 'w) option" where
  "iox2_wait_stream api cells w =
     map_option (\<lambda>(r, _, w1). (r, w1)) (wait_for_events api cells (\<lambda>_ c. c) () w)"

definition iox2_shutdown_signal ::
  "('w, 'h) iox2_api \<Rightarrow> 'h iox2_tls \<Rightarrow> 'w \<Rightarrow> (iox2_ipc_error + unit) \<times> 'w" where
  "iox2_shutdown_signal api cells w =
     (case notify api cells 0 w of (Inl e, w1) \<Rightarrow> (Inl e, w1) | (Inr _, w1) \<Rightarrow> (Inr (), w1))"

text \<open>\<open>close\<close> does nothing.\<close>

definition iox2_close :: "'w \<Rightarrow> 'w" where
  "iox2_close w = w"

section \<open>Sending\<close>

definition send_page ::
  "('w, 'h) iox2_api \<Rightarrow> 'h iox2_tls \<Rightarrow> blob \<Rightarrow> 'w \<Rightarrow> (iox2_ipc_error + unit) \<times> 'w" where
  "send_page api cells payload w =
     (case iox2_pub cells of
        None \<Rightarrow> (Inl NotInitialized, w)
      | Some publisher \<Rightarrow>
          (case loan_uninit api publisher w of
             (Inl e, w1) \<Rightarrow> (Inl (Iox2PublisherLoanError e), w1)
           | (Inr sample, w1) \<Rightarrow>
               (case sample_send api sample payload w1 of
                  (Inl e, w2) \<Rightarrow> (Inl (Iox2PublisherSendError e), w2)
                | (Inr u, w2) \<Rightarrow> (Inr (), w2))))"

definition send_page_sized ::
  "('w, 'h) iox2_api \<Rightarrow> 'h iox2_tls \<Rightarrow> byte list \<Rightarrow> 'w \<Rightarrow> ((iox2_ipc_error + unit) \<times> 'w) outcome" where
  "send_page_sized api cells payload w =
     (if length payload > PRESET_N - 8
      then Returns (Inl (Iox2PayloadTooLarge (length payload) (PRESET_N - 8)), w)
      else case sized_page payload of
             None \<Rightarrow> Panics
           | Some data \<Rightarrow> Returns (send_page api cells data w))"

text \<open>\<open>while identification == 0\<close>: \<open>None\<close> when the generator only ever draws zero.\<close>

partial_function (option) draw_identification ::
  "('w, 'h) iox2_api \<Rightarrow> 'w \<Rightarrow> (u64 \<times> 'w) option" where
  [code]: "draw_identification api w =
     (case random_u64 api w of (ident, w1) \<Rightarrow>
        if ident = 0 then draw_identification api w1 else Some (ident, w1))"

text \<open>\<open>while let Err(_) = send_page(..)\<close>: \<open>None\<close> when every attempt fails and no wait does.\<close>

partial_function (option) send_page_retry ::
  "('w, 'h) iox2_api \<Rightarrow> 'h iox2_tls \<Rightarrow> blob \<Rightarrow> nat \<Rightarrow> 'w \<Rightarrow> ((iox2_ipc_error + unit) \<times> 'w) option" where
  [code]: "send_page_retry api cells page backoff w =
     (case send_page api cells page w of
        (Inr _, w1) \<Rightarrow> Some (Inr (), w1)
      | (Inl _, w1) \<Rightarrow>
          (case node_pause api cells backoff w1 of
             (Inl wait_error, w2) \<Rightarrow> Some (Inl wait_error, w2)
           | (Inr _, w2) \<Rightarrow> send_page_retry api cells page (min 8000 (backoff * 2)) w2))"

text \<open>The loop over the chunks, from index \<open>i\<close>.\<close>

fun send_chunks ::
  "('w, 'h) iox2_api \<Rightarrow> 'h iox2_tls \<Rightarrow> nat \<Rightarrow> nat \<Rightarrow> u64 \<Rightarrow> nat \<Rightarrow> byte list \<Rightarrow> nat \<Rightarrow>
     byte list list \<Rightarrow> 'w \<Rightarrow> ((iox2_ipc_error + unit) \<times> 'w) outcome option" where
  "send_chunks api cells remainder num_chunks ident header_size header i [] w = Some (Returns (Inr (), w))"
| "send_chunks api cells remainder num_chunks ident header_size header i (chunk # rest) w =
     (case fragment_page remainder num_chunks ident header_size header i chunk of
        None \<Rightarrow> Some Panics
      | Some page \<Rightarrow>
          (case send_page_retry api cells page 100 w of
             None \<Rightarrow> None
           | Some (Inl e, w1) \<Rightarrow> Some (Returns (Inl e, w1))
           | Some (Inr _, w1) \<Rightarrow>
               (case notify api cells 0 w1 of
                  (Inl e, w2) \<Rightarrow> Some (Returns (Inl e, w2))
                | (Inr _, w2) \<Rightarrow>
                    send_chunks api cells remainder num_chunks ident header_size header (i + 1) rest w2)))"

definition iox2_send_stream ::
  "('w, 'h) iox2_api \<Rightarrow> 'h iox2_tls \<Rightarrow> byte list \<Rightarrow> nat \<Rightarrow> 'w \<Rightarrow>
     ((iox2_ipc_error + unit) \<times> 'w) outcome option" where
  "iox2_send_stream api cells payload header_size w =
     (if header_size > length payload
      then Some (Returns (Inl (PayloadHeaderSizeExceedsPayloadLength header_size (length payload)), w))
      else if length payload \<le> PRESET_N - 8 - 8 - 8
      then (case single_page payload header_size of
              None \<Rightarrow> Some Panics
            | Some data \<Rightarrow>
                (case send_page api cells data w of
                   (result, w1) \<Rightarrow>
                     (case notify api cells 0 w1 of
                        (Inl e, w2) \<Rightarrow> Some (Returns (Inl e, w2))
                      | (Inr _, w2) \<Rightarrow> Some (Returns (result, w2)))))
      else if 8 + 8 + 8 + 8 + header_size \<ge> PRESET_N
      then Some (Returns (Inl (Iox2PayloadHeaderTooLarge header_size (PRESET_N - 8 - 8 - 8 - 8 - 1)), w))
      else (case draw_identification api w of
              None \<Rightarrow> None
            | Some (ident, w1) \<Rightarrow>
                send_chunks api cells (body_remainder payload header_size)
                  (length (body_chunks payload header_size)) ident header_size
                  (take header_size payload) 0 (body_chunks payload header_size) w1))"

section \<open>Receiving\<close>

text \<open>
  \<open>recv_page\<close> hands a page to a callback that may panic (\<open>None\<close>) and may change the allocations.
\<close>

definition recv_page ::
  "('w, 'h) iox2_api \<Rightarrow> (blob \<Rightarrow> merge_allocs \<Rightarrow> ('r \<times> merge_allocs) option) \<Rightarrow> 'h iox2_tls \<times> 'w \<Rightarrow>
     ((iox2_ipc_error + 'r option) \<times> 'h iox2_tls \<times> 'w) outcome" where
  "recv_page api f s =
     (case s of (cells, w) \<Rightarrow>
        (case iox2_sub cells of
           None \<Rightarrow> Returns (Inl NotInitialized, cells, w)
         | Some subscriber \<Rightarrow>
             (case sub_receive api subscriber w of
                (Inl e, w1) \<Rightarrow> Returns (Inl (Iox2SubscriberReceiveError e), cells, w1)
              | (Inr None, w1) \<Rightarrow> Returns (Inr None, cells, w1)
              | (Inr (Some sample), w1) \<Rightarrow>
                  (case f sample (merge_allocs cells) of
                     None \<Rightarrow> Panics
                   | Some (r, allocs) \<Rightarrow> Returns (Inr (Some r), cells\<lparr>merge_allocs := allocs\<rparr>, w1)))))"

definition recv_page_sized ::
  "bool \<Rightarrow> ('w, 'h) iox2_api \<Rightarrow> (byte list \<Rightarrow> 'r option) \<Rightarrow> 'h iox2_tls \<times> 'w \<Rightarrow>
     ((iox2_ipc_error + 'r option) \<times> 'h iox2_tls \<times> 'w) outcome" where
  "recv_page_sized ov api f =
     recv_page api (\<lambda>blob allocs.
       case sized_payload ov blob of
         None \<Rightarrow> None
       | Some payload \<Rightarrow> map_option (\<lambda>r. (r, allocs)) (f payload))"

text \<open>The loop of \<open>try_recv_stream\<close> returns in its first round on every path.\<close>

definition iox2_try_recv_stream ::
  "bool \<Rightarrow> ('w, 'h) iox2_api \<Rightarrow> (byte list \<Rightarrow> bool option) \<Rightarrow> 'h iox2_tls \<times> 'w \<Rightarrow>
     ((iox2_ipc_error + try_recv_stream_result) \<times> 'h iox2_tls \<times> 'w) outcome" where
  "iox2_try_recv_stream ov api should_collect s =
     (case recv_page api (handle_page ov should_collect) s of
        Panics \<Rightarrow> Panics
      | Returns (Inr (Some (Some (msg, header_size))), s1) \<Rightarrow> Returns (Inr (NewCompleted msg header_size), s1)
      | Returns (Inr (Some None), s1) \<Rightarrow> Returns (Inr PotentiallyAvailable, s1)
      | Returns (Inr None, s1) \<Rightarrow> Returns (Inr OutOfAccessible, s1)
      | Returns (Inl e, s1) \<Rightarrow> Returns (Inl e, s1))"

partial_function (option) iox2_recv_stream ::
  "bool \<Rightarrow> ('w, 'h) iox2_api \<Rightarrow> (byte list \<Rightarrow> bool option) \<Rightarrow> 'h iox2_tls \<times> 'w \<Rightarrow>
     ((iox2_ipc_error + byte list) \<times> 'h iox2_tls \<times> 'w) outcome option" where
  [code]: "iox2_recv_stream ov api should_collect s =
     (case iox2_try_recv_stream ov api should_collect s of
        Panics \<Rightarrow> Some Panics
      | Returns (r, cells, w) \<Rightarrow>
          (case r of
             Inl e \<Rightarrow> Some (Returns (Inl e, cells, w))
           | Inr (NewCompleted msg _) \<Rightarrow> Some (Returns (Inr msg, cells, w))
           | Inr PotentiallyAvailable \<Rightarrow> iox2_recv_stream ov api should_collect (cells, w)
           | Inr OutOfAccessible \<Rightarrow>
               (case iox2_wait_stream api cells w of
                  None \<Rightarrow> None
                | Some (Inl e, w1) \<Rightarrow> Some (Returns (Inl e, cells, w1))
                | Some (Inr _, w1) \<Rightarrow> iox2_recv_stream ov api should_collect (cells, w1))))"

end
