(* ===== verification/Ws_Gateway.thy ===== *)
theory Ws_Gateway
  imports Backing_Common "HOL-Library.Sublist"
begin

text \<open>
  The websocket gateway backing (\<^verbatim>\<open>skycurrent/src/backing/ws_gateway.rs\<close>): the origin check of the
  upgrade, the loop that serves a client, and the calls of the backing over two broadcast channels.
  Sockets, HTTP and the channels of \<open>postage\<close> are a parameter (\<open>ws_api\<close>); their objects are opaque
  handles of type \<open>'h\<close>. A call that blocks forever is \<open>None\<close>.
\<close>

datatype try_recv_error = Pending | Closed

record ('w, 'h) ws_api =
  tcp_bind :: "string \<Rightarrow> 'w \<Rightarrow> (ext_error + 'h) \<times> 'w"
  broadcast_channel :: "nat \<Rightarrow> 'w \<Rightarrow> ('h \<times> 'h) \<times> 'w"
  spawn_accept_loop :: "'h \<Rightarrow> 'w \<Rightarrow> 'w"
  tx_subscribe :: "'h \<Rightarrow> 'w \<Rightarrow> 'h \<times> 'w"
  rx_try_recv :: "'h \<Rightarrow> 'w \<Rightarrow> (try_recv_error + byte list) \<times> 'w"
  rx_recv :: "'h \<Rightarrow> 'w \<Rightarrow> (byte list option \<times> 'w) option"
  tx_blocking_send :: "'h \<Rightarrow> byte list \<Rightarrow> 'w \<Rightarrow> (bool \<times> 'w) option"

section \<open>Statics and initialisation\<close>

definition GATEWAY_PORT :: nat where
  "GATEWAY_PORT = 8367"

definition ALLOWED_ORIGINS :: "string list" where
  "ALLOWED_ORIGINS = [''null'', ''http://127.0.0.1'', ''http://localhost'']"

record 'h ws_statics =
  broadcast_tx :: 'h
  receiving_tx :: "'h option"
  receiving_rx :: "'h option"

datatype ws_init_error = WsCommonInitError common_init_error

definition gateway_address :: string where
  "gateway_address = ''0.0.0.0:8367''"

definition ws_init ::
  "('w, 'h) ws_api \<Rightarrow> 'h ws_statics \<times> 'w \<Rightarrow> (ws_init_error + unit) \<times> 'h ws_statics \<times> 'w" where
  "ws_init api s =
     (case s of (st, w) \<Rightarrow>
        if receiving_tx st \<noteq> None then (Inr (), st, w)
        else case bind_tcp_listener (tcp_bind api) gateway_address w of
               (Inl e, w1) \<Rightarrow> (Inl (WsCommonInitError e), st, w1)
             | (Inr listener, w1) \<Rightarrow>
                 (case broadcast_channel api 100 w1 of ((tx, rx), w2) \<Rightarrow>
                    (Inr (),
                     st\<lparr>receiving_tx := Some tx,
                        receiving_rx := (case receiving_rx st of None \<Rightarrow> Some rx | Some x \<Rightarrow> Some x)\<rparr>,
                     spawn_accept_loop api listener w2)))"

section \<open>The upgrade request\<close>

definition to_ascii_lowercase_char :: "char \<Rightarrow> char" where
  "to_ascii_lowercase_char c =
     (if of_char c \<in> {65..90 :: nat} then char_of (of_char c + 32 :: nat) else c)"

definition to_ascii_lowercase :: "string \<Rightarrow> string" where
  "to_ascii_lowercase s = map to_ascii_lowercase_char s"

definition origin_allowed :: "string \<Rightarrow> bool" where
  "origin_allowed origin =
     (let origin_lower = to_ascii_lowercase origin
      in list_ex (\<lambda>allowed. allowed = origin_lower \<or> prefix (allowed @ '':'') origin_lower) ALLOWED_ORIGINS)"

datatype 'r upgrade_result = Forbidden403 | Upgraded 'r

text \<open>
  \<open>server_upgrade\<close>. \<open>origin\<close> is the \<open>Origin\<close> header when it is present and readable as text;
  \<open>upgrade\<close> is the library's upgrade, which also gives the future of the client to be spawned.
\<close>

definition server_upgrade ::
  "string option \<Rightarrow> ('w \<Rightarrow> (ext_error + 'r) \<times> 'w) \<Rightarrow> 'w \<Rightarrow> (ext_error + 'r upgrade_result) \<times> 'w" where
  "server_upgrade origin upgrade w =
     (case origin of
        Some o' \<Rightarrow>
          if \<not> origin_allowed o' then (Inr Forbidden403, w)
          else (case upgrade w of (Inl e, w1) \<Rightarrow> (Inl e, w1) | (Inr r, w1) \<Rightarrow> (Inr (Upgraded r), w1))
      | None \<Rightarrow>
          (case upgrade w of (Inl e, w1) \<Rightarrow> (Inl e, w1) | (Inr r, w1) \<Rightarrow> (Inr (Upgraded r), w1)))"

section \<open>Serving a client\<close>

text \<open>
  What \<open>select!\<close> yields, in order: a frame read from the socket (or its error), or a payload of the
  broadcast channel (\<open>None\<close> if it closed). \<open>forward\<close> sends to the receiving channel and says if that
  worked; \<open>write\<close> writes a binary frame to the socket.
\<close>

datatype ws_opcode = OpClose | OpBinary | OpOther

datatype client_input = FrameRead "ext_error + ws_opcode \<times> byte list" | BroadcastRecv "byte list option"

datatype client_result = ClientRunning | ClientDone | ClientFailed ext_error | ClientPanics

fun client_loop ::
  "(byte list \<Rightarrow> 'w \<Rightarrow> bool \<times> 'w) \<Rightarrow> (byte list \<Rightarrow> 'w \<Rightarrow> (ext_error + unit) \<times> 'w) \<Rightarrow>
     client_input list \<Rightarrow> 'w \<Rightarrow> client_result \<times> 'w" where
  "client_loop forward write [] w = (ClientRunning, w)"
| "client_loop forward write (FrameRead (Inl e) # ins) w = (ClientFailed e, w)"
| "client_loop forward write (FrameRead (Inr (opcode, payload)) # ins) w =
     (case opcode of
        OpClose \<Rightarrow> (ClientDone, w)
      | OpBinary \<Rightarrow>
          (case forward payload w of
             (True, w1) \<Rightarrow> client_loop forward write ins w1
           | (False, w1) \<Rightarrow> (ClientPanics, w1))
      | OpOther \<Rightarrow> client_loop forward write ins w)"
| "client_loop forward write (BroadcastRecv None # ins) w = (ClientPanics, w)"
| "client_loop forward write (BroadcastRecv (Some payload) # ins) w =
     (case write payload w of
        (Inl e, w1) \<Rightarrow> (ClientFailed e, w1)
      | (Inr _, w1) \<Rightarrow> client_loop forward write ins w1)"

definition handle_client ::
  "'h ws_statics \<Rightarrow> ext_error option \<Rightarrow> (byte list \<Rightarrow> 'w \<Rightarrow> bool \<times> 'w) \<Rightarrow>
     (byte list \<Rightarrow> 'w \<Rightarrow> (ext_error + unit) \<times> 'w) \<Rightarrow> client_input list \<Rightarrow> 'w \<Rightarrow> client_result \<times> 'w" where
  "handle_client st upgrade_error forward write ins w =
     (case upgrade_error of
        Some e \<Rightarrow> (ClientFailed e, w)
      | None \<Rightarrow>
          if receiving_tx st = None then (ClientPanics, w) else client_loop forward write ins w)"

section \<open>The calls of the backing\<close>

datatype ws_ipc_error = WsNotInitialized

definition ws_try_recv_copy ::
  "('w, 'h) ws_api \<Rightarrow> 'h ws_statics \<Rightarrow> 'w \<Rightarrow> ((ws_ipc_error + try_recv_copy_result) \<times> 'w) outcome" where
  "ws_try_recv_copy api st w =
     (case receiving_rx st of
        None \<Rightarrow> Returns (Inl WsNotInitialized, w)
      | Some rx \<Rightarrow>
          (case rx_try_recv api rx w of
             (Inr payload, w1) \<Rightarrow> Returns (Inr (NewMessage payload), w1)
           | (Inl Pending, w1) \<Rightarrow> Returns (Inr OutOfAccessibleCopy, w1)
           | (Inl Closed, w1) \<Rightarrow> Panics))"

text \<open>\<open>wait_stream\<close> waits on a new subscription, so only for messages sent after it began.\<close>

definition ws_wait_stream ::
  "('w, 'h) ws_api \<Rightarrow> 'h ws_statics \<Rightarrow> 'w \<Rightarrow> ((ws_ipc_error + unit) \<times> 'w) option" where
  "ws_wait_stream api st w =
     (case receiving_tx st of
        None \<Rightarrow> Some (Inl WsNotInitialized, w)
      | Some tx \<Rightarrow>
          (case tx_subscribe api tx w of (rx, w1) \<Rightarrow>
             (case rx_recv api rx w1 of None \<Rightarrow> None | Some (_, w2) \<Rightarrow> Some (Inr (), w2))))"

definition ws_recv_copy ::
  "('w, 'h) ws_api \<Rightarrow> 'h ws_statics \<Rightarrow> 'w \<Rightarrow> ((ws_ipc_error + byte list) \<times> 'w) outcome option" where
  "ws_recv_copy api st w =
     (case receiving_rx st of
        None \<Rightarrow> Some (Returns (Inl WsNotInitialized, w))
      | Some rx \<Rightarrow>
          (case rx_recv api rx w of
             None \<Rightarrow> None
           | Some (Some payload, w1) \<Rightarrow> Some (Returns (Inr payload, w1))
           | Some (None, w1) \<Rightarrow> Some Panics))"

definition ws_close :: "'w \<Rightarrow> 'w" where
  "ws_close w = w"

text \<open>A failing broadcast is ignored.\<close>

definition ws_send_copy :: "('w, 'h) ws_api \<Rightarrow> 'h ws_statics \<Rightarrow> byte list \<Rightarrow> 'w \<Rightarrow> 'w option" where
  "ws_send_copy api st payload w = map_option snd (tx_blocking_send api (broadcast_tx st) payload w)"

definition ws_send_copy_to_self ::
  "('w, 'h) ws_api \<Rightarrow> 'h ws_statics \<Rightarrow> byte list \<Rightarrow> 'w \<Rightarrow> ((ws_ipc_error + unit) \<times> 'w) outcome option" where
  "ws_send_copy_to_self api st payload w =
     (case receiving_tx st of
        None \<Rightarrow> Some (Returns (Inl WsNotInitialized, w))
      | Some tx \<Rightarrow>
          (case tx_blocking_send api tx payload w of
             None \<Rightarrow> None
           | Some (True, w1) \<Rightarrow> Some (Returns (Inr (), w1))
           | Some (False, w1) \<Rightarrow> Some Panics))"

section \<open>The origin check\<close>

lemma lower_append: "to_ascii_lowercase (a @ b) = to_ascii_lowercase a @ to_ascii_lowercase b"
  by (simp add: to_ascii_lowercase_def)

lemma lower_colon: "to_ascii_lowercase_char c = CHR '':'' \<longleftrightarrow> c = CHR '':''"
proof
  assume l: "to_ascii_lowercase_char c = CHR '':''"
  show "c = CHR '':''"
  proof (cases "of_char c \<in> {65..90 :: nat}")
    case True
    then have "of_char (to_ascii_lowercase_char c) = of_char c + (32 :: nat)"
      by (simp add: to_ascii_lowercase_char_def)
    with l True show ?thesis by simp
  next
    case False
    then have "to_ascii_lowercase_char c = c" by (simp only: to_ascii_lowercase_char_def if_False)
    with l show ?thesis by simp
  qed
qed (simp add: to_ascii_lowercase_char_def)

text \<open>Two strings that agree up to their first colon.\<close>

lemma colon_free_split:
  assumes "a @ x = b @ y" and "CHR '':'' \<notin> set a" and "CHR '':'' \<notin> set b"
    and "x = [] \<or> hd x = CHR '':''" and "y = [] \<or> hd y = CHR '':''"
  shows "a = b \<and> x = y"
  using assms
proof (induction a arbitrary: b)
  case Nil
  then show ?case by (cases b) auto
next
  case (Cons c a)
  then show ?case by (cases b) auto
qed

lemma lower_host_colon: "CHR '':'' \<in> set (to_ascii_lowercase h) \<longleftrightarrow> CHR '':'' \<in> set h"
  by (auto simp: to_ascii_lowercase_def image_iff lower_colon) (metis lower_colon)+

end
