(* ===== verification/Combined.thy ===== *)
theory Combined
  imports Iox2_Port Ws_Gateway
begin

text \<open>
  The combined runtime (\<^verbatim>\<open>skycurrent/src/backing/combined.rs\<close>): the actor threads of the iceoryx2
  backing, the calls that go through their channels, the scheduler of \<open>try_recv_stream\<close>, \<open>wait_stream\<close>
  with its locks, and the forwarding between the mesh and the websocket gateway.

  One thread makes the calls (the code requires it for \<open>wait_stream\<close>). The receiving actor may be
  inside a blocking \<open>wait_stream\<close>; the end of that wait is an event of the environment. A call on an
  actor that is blocked does not return (\<open>None\<close>).
\<close>

section \<open>Backings and errors\<close>

datatype backing = Iox2 | WsGateway | Count

definition backing_index :: "backing \<Rightarrow> nat" where
  "backing_index b = (case b of Iox2 \<Rightarrow> 0 | WsGateway \<Rightarrow> 1 | Count \<Rightarrow> 2)"

text \<open>\<open>Backing::from\<close>, which panics on other numbers.\<close>

definition backing_from :: "nat \<Rightarrow> backing option" where
  "backing_from n = (if n = 0 then Some Iox2 else if n = 1 then Some WsGateway else None)"

definition next_backing :: "backing \<Rightarrow> backing option" where
  "next_backing b = backing_from ((backing_index b + 1) mod 2)"

definition INIT_IOX2_RECV :: init_flags where "INIT_IOX2_RECV = 0b00000001"
definition INIT_IOX2_SEND :: init_flags where "INIT_IOX2_SEND = 0b00000010"
definition INIT_WS_GATEWAY :: init_flags where "INIT_WS_GATEWAY = 0b00000100"

datatype combined_init_error =
    MissingGlobalProjectDirectory string
  | CCommonInitError common_init_error
  | BackingCrashed backing
  | Iox2InitError iox2_init_error
  | WsGatewayInitError ws_init_error

datatype combined_ipc_error =
    CNotInitialized
  | MissingGlobalShouldCollect string
  | BackingCrashedOrNotStarted string
  | Iox2IpcError iox2_ipc_error
  | WsGatewayIpcError ws_ipc_error

section \<open>State\<close>

text \<open>
  An actor thread: serving its channel, with its thread-local cells; inside the blocking wait of
  \<open>WaitStream\<close>, with the messages that were sent to it meanwhile without waiting for a response; or
  gone (it left its loop, or panicked).
\<close>

datatype queued_message = QWaitStream | QClose

datatype 'h actor = Serving "'h iox2_tls" | WaitingEvent "'h iox2_tls" "queued_message list" | Gone

type_synonym should_collect = "byte list \<Rightarrow> bool option"

text \<open>
  The statics. \<open>recv_tx\<close> says whether \<open>IOX2_RECV_SENDER_TX\<close> holds a sender, to the actor \<open>recv_actor\<close>;
  likewise for sending. \<open>wait_rx\<close> is the queue of \<open>WAIT_STREAM_RECEIVER\<close>, \<open>current_backing\<close> the backing
  with precedence and the time it was entered.
\<close>

record ('w, 'h) combined =
  global_project_dir :: "path option"
  global_should_collect :: "should_collect option"
  recv_tx :: bool
  recv_actor :: "'h actor"
  send_tx :: bool
  send_actor :: "'h actor"
  wait_stream_locks :: "bool list"
  wait_rx :: "(combined_ipc_error + backing) list option"
  current_backing :: "backing \<times> nat"
  ws_st :: "'h ws_statics"
  world :: 'w

text \<open>
  The build: cargo features \<open>backing-iox2\<close> and \<open>backing-ws-gateway\<close>, the overflow checks; and the
  libraries. \<open>clock\<close> is \<open>Instant::now\<close> in microseconds, \<open>sleep_ms\<close> is \<open>thread::sleep\<close>.
\<close>

record ('w, 'h) build =
  has_iox2 :: bool
  has_ws :: bool
  overflow_checks :: bool
  iox2_lib :: "('w, 'h) iox2_api"
  ws_lib :: "('w, 'h) ws_api"
  clock :: "'w \<Rightarrow> nat"
  sleep_ms :: "nat \<Rightarrow> 'w \<Rightarrow> 'w"

definition set_global_project_dir :: "path \<Rightarrow> ('w, 'h) combined \<Rightarrow> ('w, 'h) combined" where
  "set_global_project_dir p g = g\<lparr>global_project_dir := Some p\<rparr>"

definition set_global_should_collect :: "should_collect \<Rightarrow> ('w, 'h) combined \<Rightarrow> ('w, 'h) combined" where
  "set_global_should_collect sc g = g\<lparr>global_should_collect := Some sc\<rparr>"

section \<open>Actor calls\<close>

text \<open>
  \<open>actor_call!\<close> with a response. The actor takes the message, runs \<open>handle\<close> on its cells, and responds;
  a panic ends the thread and drops the response channel (and with the thread its ports, so that the
  world's pages for them no longer matter). While the actor waits for an event the
  caller is blocked.
\<close>

definition actor_call ::
  "string \<Rightarrow> bool \<Rightarrow> 'h actor \<Rightarrow> ('h iox2_tls \<times> 'w \<Rightarrow> (('e + 'a) \<times> 'h iox2_tls \<times> 'w) outcome option) \<Rightarrow>
     ('e \<Rightarrow> combined_ipc_error) \<Rightarrow> 'w \<Rightarrow> ((combined_ipc_error + 'a) \<times> 'h actor \<times> 'w) option" where
  "actor_call name has_tx actor handle wrap w =
     (if \<not> has_tx then Some (Inl CNotInitialized, actor, w)
      else case actor of
             Gone \<Rightarrow> Some (Inl (BackingCrashedOrNotStarted name), actor, w)
           | WaitingEvent _ _ \<Rightarrow> None
           | Serving cells \<Rightarrow>
               (case handle (cells, w) of
                  None \<Rightarrow> None
                | Some Panics \<Rightarrow> Some (Inl (BackingCrashedOrNotStarted name), Gone, w)
                | Some (Returns (r, cells1, w1)) \<Rightarrow>
                    Some (case r of Inl e \<Rightarrow> Inl (wrap e) | Inr a \<Rightarrow> Inr a, Serving cells1, w1)))"

section \<open>Sending\<close>

definition combined_send_stream ::
  "('w, 'h) build \<Rightarrow> byte list \<Rightarrow> nat \<Rightarrow> ('w, 'h) combined \<Rightarrow>
     ((combined_ipc_error + unit) \<times> ('w, 'h) combined) outcome option" where
  "combined_send_stream b payload header_size g =
     (if has_iox2 b then
        (case actor_call ''IOX2_SEND_SENDER_TX'' (send_tx g) (send_actor g)
            (\<lambda>(cells, w). map_option
               (\<lambda>x. case x of Panics \<Rightarrow> Panics | Returns (r, w1) \<Rightarrow> Returns (r, cells, w1))
               (iox2_send_stream (iox2_lib b) cells payload header_size w)) Iox2IpcError (world g) of
           None \<Rightarrow> None
         | Some (r, actor, w1) \<Rightarrow> Some (Returns (r, g\<lparr>send_actor := actor, world := w1\<rparr>)))
      else if has_ws b then
        (case ws_send_copy_to_self (ws_lib b) (ws_st g)
            (payload @ u64_to_le (word_of_nat header_size)) (world g) of
           None \<Rightarrow> None
         | Some Panics \<Rightarrow> Some Panics
         | Some (Returns (r, w1)) \<Rightarrow>
             Some (Returns (case r of Inl e \<Rightarrow> Inl (WsGatewayIpcError e) | Inr u \<Rightarrow> Inr u, g\<lparr>world := w1\<rparr>)))
      else Some (Returns (Inr (), g)))"

definition combined_shutdown_signal ::
  "('w, 'h) build \<Rightarrow> ('w, 'h) combined \<Rightarrow> ((combined_ipc_error + unit) \<times> ('w, 'h) combined) option" where
  "combined_shutdown_signal b g =
     (if has_iox2 b then
        (case actor_call ''IOX2_SEND_SENDER_TX'' (send_tx g) (send_actor g)
            (\<lambda>(cells, w). case iox2_shutdown_signal (iox2_lib b) cells w of
               (r, w1) \<Rightarrow> Some (Returns (r, cells, w1))) Iox2IpcError (world g) of
           None \<Rightarrow> None
         | Some (r, actor, w1) \<Rightarrow> Some (r, g\<lparr>send_actor := actor, world := w1\<rparr>))
      else Some (Inr (), g))"

section \<open>The results of \<open>wait_stream\<close>\<close>

text \<open>\<open>handle_wait_stream_return\<close>: an error leaves the lock as it is.\<close>

definition handle_wait_stream_return ::
  "combined_ipc_error + backing \<Rightarrow> ('w, 'h) combined \<Rightarrow> (combined_ipc_error + unit) \<times> ('w, 'h) combined" where
  "handle_wait_stream_return r g =
     (case r of
        Inl e \<Rightarrow> (Inl e, g)
      | Inr bk \<Rightarrow> (Inr (), g\<lparr>wait_stream_locks := (wait_stream_locks g)[backing_index bk := False]\<rparr>))"

text \<open>\<open>while let Ok(..) = wait_stream_rx.try_recv()\<close>: the first error leaves the rest in the channel.\<close>

fun drain_results ::
  "(combined_ipc_error + backing) list \<Rightarrow> ('w, 'h) combined \<Rightarrow> (combined_ipc_error + unit) \<times> ('w, 'h) combined" where
  "drain_results [] g = (Inr (), g\<lparr>wait_rx := Some []\<rparr>)"
| "drain_results (r # rs) g =
     (case handle_wait_stream_return r (g\<lparr>wait_rx := Some rs\<rparr>) of
        (Inl e, g1) \<Rightarrow> (Inl e, g1)
      | (Inr _, g1) \<Rightarrow> drain_results rs g1)"

text \<open>
  \<open>wait_stream_drain\<close>. \<open>held\<close> says that \<open>WAIT_STREAM_RECEIVER\<close> is locked (by a running \<open>wait_stream\<close>).
\<close>

definition wait_stream_drain ::
  "bool \<Rightarrow> ('w, 'h) combined \<Rightarrow> (combined_ipc_error + unit) \<times> ('w, 'h) combined" where
  "wait_stream_drain held g =
     (if held then (Inr (), g)
      else case wait_rx g of
             None \<Rightarrow> (Inl CNotInitialized, g)
           | Some rs \<Rightarrow> drain_results rs g)"

section \<open>\<open>try_recv_stream\<close>\<close>

definition with_world :: "('w, 'h) combined \<Rightarrow> 'w \<Rightarrow> ('w, 'h) combined" where
  "with_world g w = g\<lparr>world := w\<rparr>"

text \<open>The closure \<open>try_recv_stream\<close>: one query of one backing.\<close>

definition query_backing ::
  "('w, 'h) build \<Rightarrow> should_collect option \<Rightarrow> backing \<Rightarrow> ('w, 'h) combined \<Rightarrow>
     ((combined_ipc_error + try_recv_stream_result) \<times> ('w, 'h) combined) outcome option" where
  "query_backing b sc bk g =
     (case bk of
        Iox2 \<Rightarrow>
          if \<not> has_iox2 b then Some Panics
          else if \<not> recv_tx g then Some (Returns (Inl CNotInitialized, g))
          else (case sc of
                  None \<Rightarrow> Some (Returns (Inl (MissingGlobalShouldCollect ''iox2''), g))
                | Some should_collect \<Rightarrow>
                    (case actor_call ''IOX2_RECV_SENDER_TX'' True (recv_actor g)
                        (\<lambda>s. Some (iox2_try_recv_stream (overflow_checks b) (iox2_lib b) should_collect s))
                        Iox2IpcError (world g) of
                       None \<Rightarrow> None
                     | Some (r, actor, w1) \<Rightarrow> Some (Returns (r, g\<lparr>recv_actor := actor, world := w1\<rparr>))))
      | WsGateway \<Rightarrow>
          if \<not> has_ws b then Some Panics
          else (case ws_try_recv_copy (ws_lib b) (ws_st g) (world g) of
                  Panics \<Rightarrow> Some Panics
                | Returns (Inl e, w1) \<Rightarrow> Some (Returns (Inl (WsGatewayIpcError e), g\<lparr>world := w1\<rparr>))
                | Returns (Inr (NewMessage items), w1) \<Rightarrow>
                    Some (Returns (Inr (NewCompleted items 0), g\<lparr>world := w1\<rparr>))
                | Returns (Inr OutOfAccessibleCopy, w1) \<Rightarrow>
                    Some (Returns (Inr OutOfAccessible, g\<lparr>world := w1\<rparr>)))
      | Count \<Rightarrow> Some Panics)"

text \<open>Errors that the retry loops of the runtime repeat the call for.\<close>

definition transient :: "combined_ipc_error \<Rightarrow> bool" where
  "transient e =
     (case e of
        Iox2IpcError (Iox2NotifierNotifyError _) \<Rightarrow> True
      | Iox2IpcError (Iox2PublisherLoanError _) \<Rightarrow> True
      | Iox2IpcError (Iox2PublisherSendError _) \<Rightarrow> True
      | _ \<Rightarrow> False)"

text \<open>The loop that sends a websocket message into the mesh; any other error panics.\<close>

partial_function (option) forward_to_mesh ::
  "('w, 'h) build \<Rightarrow> byte list \<Rightarrow> nat \<Rightarrow> ('w, 'h) combined \<Rightarrow> ('w, 'h) combined outcome option" where
  [code]: "forward_to_mesh b payload header_size g =
     (case combined_send_stream b payload header_size g of
        None \<Rightarrow> None
      | Some Panics \<Rightarrow> Some Panics
      | Some (Returns (r, g1)) \<Rightarrow>
          (case r of
             Inr _ \<Rightarrow> Some (Returns g1)
           | Inl e \<Rightarrow>
               if transient e
               then forward_to_mesh b payload header_size (with_world g1 (sleep_ms b 100 (world g1)))
               else Some Panics))"

text \<open>
  A websocket payload carries its header size in its last 8 bytes. \<open>payload.len()-8\<close> panics or
  wraps around when there are fewer, and then the slice panics.
\<close>

definition split_trailer :: "bool \<Rightarrow> byte list \<Rightarrow> (byte list \<times> nat) option" where
  "split_trailer ov payload = do {
     from \<leftarrow> usize_sub ov (length payload) 8;
     trailer \<leftarrow> subslice from (length payload) payload;
     Some (take from payload, unat (u64_from_le trailer)) }"

text \<open>What is done with a completed message.\<close>

definition deliver ::
  "('w, 'h) build \<Rightarrow> backing \<Rightarrow> byte list \<Rightarrow> nat \<Rightarrow> ('w, 'h) combined \<Rightarrow>
     ((combined_ipc_error + try_recv_stream_result) \<times> ('w, 'h) combined) outcome option" where
  "deliver b bk payload header_size g =
     (case bk of
        Iox2 \<Rightarrow>
          if has_ws b then
            (case ws_send_copy (ws_lib b) (ws_st g) (payload @ u64_to_le (word_of_nat header_size)) (world g) of
               None \<Rightarrow> None
             | Some w1 \<Rightarrow> Some (Returns (Inr (NewCompleted payload header_size), g\<lparr>world := w1\<rparr>)))
          else Some (Returns (Inr (NewCompleted payload header_size), g))
      | WsGateway \<Rightarrow>
          (case split_trailer (overflow_checks b) payload of
             None \<Rightarrow> Some Panics
           | Some (body, hs) \<Rightarrow>
               if has_iox2 b then
                 (case forward_to_mesh b body hs g of
                    None \<Rightarrow> None
                  | Some Panics \<Rightarrow> Some Panics
                  | Some (Returns g1) \<Rightarrow> Some (Returns (Inr PotentiallyAvailable, g1)))
               else
                 (case ws_send_copy (ws_lib b) (ws_st g) payload (world g) of
                    None \<Rightarrow> None
                  | Some w1 \<Rightarrow> Some (Returns (Inr (NewCompleted body hs), g\<lparr>world := w1\<rparr>))))
      | Count \<Rightarrow> Some Panics)"

definition enter_backing :: "('w, 'h) build \<Rightarrow> backing \<Rightarrow> ('w, 'h) combined \<Rightarrow> ('w, 'h) combined" where
  "enter_backing b bk g = g\<lparr>current_backing := (bk, clock b (world g))\<rparr>"

text \<open>The loop over the backings, with the number of rounds left.\<close>

fun try_backings ::
  "('w, 'h) build \<Rightarrow> should_collect option \<Rightarrow> nat \<Rightarrow> ('w, 'h) combined \<Rightarrow>
     ((combined_ipc_error + try_recv_stream_result) \<times> ('w, 'h) combined) outcome option" where
  "try_backings b sc 0 g = Some (Returns (Inr OutOfAccessible, g))"
| "try_backings b sc (Suc n) g =
     (let bk = fst (current_backing g) in
      case bit_at (wait_stream_locks g) (backing_index bk) of
        None \<Rightarrow> Some Panics
      | Some blocked \<Rightarrow>
      if blocked then try_backings b sc n g
      else if bk = Iox2 \<and> \<not> has_iox2 b \<or> bk = WsGateway \<and> \<not> has_ws b then try_backings b sc n g
      else case query_backing b sc bk g of
             None \<Rightarrow> None
           | Some Panics \<Rightarrow> Some Panics
           | Some (Returns (Inl e, g1)) \<Rightarrow> Some (Returns (Inl e, g1))
           | Some (Returns (Inr (NewCompleted payload header_size), g1)) \<Rightarrow>
               deliver b bk payload header_size g1
           | Some (Returns (Inr PotentiallyAvailable, g1)) \<Rightarrow>
               Some (Returns (Inr PotentiallyAvailable, g1))
           | Some (Returns (Inr OutOfAccessible, g1)) \<Rightarrow>
               (case next_backing bk of
                  None \<Rightarrow> Some Panics
                | Some nb \<Rightarrow> try_backings b sc n (enter_backing b nb g1)))"

text \<open>Which backing to start on: the turn of a backing lasts 10 ms.\<close>

definition choose_backing :: "('w, 'h) build \<Rightarrow> ('w, 'h) combined \<Rightarrow> ('w, 'h) combined option" where
  "choose_backing b g =
     (case current_backing g of (bk, entered) \<Rightarrow>
        if bk = Count then Some (enter_backing b Iox2 g)
        else if clock b (world g) - entered > 10000
        then map_option (\<lambda>nb. enter_backing b nb g) (next_backing bk)
        else Some g)"

definition combined_try_recv_stream ::
  "('w, 'h) build \<Rightarrow> bool \<Rightarrow> ('w, 'h) combined \<Rightarrow>
     ((combined_ipc_error + try_recv_stream_result) \<times> ('w, 'h) combined) outcome option" where
  "combined_try_recv_stream b held g =
     (case choose_backing b g of
        None \<Rightarrow> Some Panics
      | Some g1 \<Rightarrow>
          (case wait_stream_drain held g1 of
             (Inl e, g2) \<Rightarrow> Some (Returns (Inl e, g2))
           | (Inr _, g2) \<Rightarrow> try_backings b (global_should_collect g) 2 g2))"

section \<open>\<open>wait_stream\<close>\<close>

text \<open>
  \<open>actor_call!\<close> without a response, for \<open>WaitStream\<close>: a serving actor enters the wait, and answers at
  once if its thread has no listener.
\<close>

definition post_result :: "combined_ipc_error + backing \<Rightarrow> ('w, 'h) combined \<Rightarrow> ('w, 'h) combined" where
  "post_result r g = g\<lparr>wait_rx := map_option (\<lambda>rs. rs @ [r]) (wait_rx g)\<rparr>"

definition start_wait :: "('w, 'h) combined \<Rightarrow> 'h iox2_tls \<Rightarrow> ('w, 'h) combined" where
  "start_wait g cells =
     (if iox2_liste cells = None
      then post_result (Inl (Iox2IpcError NotInitialized)) (g\<lparr>recv_actor := Serving cells\<rparr>)
      else g\<lparr>recv_actor := WaitingEvent cells []\<rparr>)"

definition send_wait_stream ::
  "('w, 'h) combined \<Rightarrow> (combined_ipc_error + unit) \<times> ('w, 'h) combined" where
  "send_wait_stream g =
     (if \<not> recv_tx g then (Inl CNotInitialized, g)
      else case recv_actor g of
             Gone \<Rightarrow> (Inl (BackingCrashedOrNotStarted ''IOX2_RECV_SENDER_TX''), g)
           | Serving cells \<Rightarrow> (Inr (), start_wait g cells)
           | WaitingEvent cells q \<Rightarrow> (Inr (), g\<lparr>recv_actor := WaitingEvent cells (q @ [QWaitStream])\<rparr>))"

text \<open>The first part of \<open>wait_stream\<close>: every backing that is not blocked is sent into its wait.\<close>

definition wait_register ::
  "('w, 'h) build \<Rightarrow> ('w, 'h) combined \<Rightarrow> (combined_ipc_error + unit) \<times> ('w, 'h) combined" where
  "wait_register b g =
     (if has_iox2 b \<and> \<not> wait_stream_locks g ! backing_index Iox2 then
        (case send_wait_stream g of
           (Inl e, g1) \<Rightarrow> (Inl e, g1)
         | (Inr _, g1) \<Rightarrow>
             (Inr (), g1\<lparr>wait_stream_locks := (wait_stream_locks g1)[backing_index Iox2 := True]\<rparr>))
      else (Inr (), g))"

text \<open>
  The end of the blocking wait: the actor posts its result and goes on with what was queued. \<open>r\<close> is
  what \<open>iox2::wait_stream\<close> returned.
\<close>

fun resume_actor :: "'h iox2_tls \<Rightarrow> queued_message list \<Rightarrow> ('w, 'h) combined \<Rightarrow> ('w, 'h) combined" where
  "resume_actor cells [] g = g\<lparr>recv_actor := Serving cells\<rparr>"
| "resume_actor cells (QClose # q) g = g\<lparr>recv_actor := Gone\<rparr>"
| "resume_actor cells (QWaitStream # q) g = g\<lparr>recv_actor := WaitingEvent cells q\<rparr>"

definition wait_ends :: "iox2_ipc_error + unit \<Rightarrow> ('w, 'h) combined \<Rightarrow> ('w, 'h) combined" where
  "wait_ends r g =
     (case recv_actor g of
        WaitingEvent cells q \<Rightarrow>
          resume_actor cells q
            (post_result (case r of Inl e \<Rightarrow> Inl (Iox2IpcError e) | Inr _ \<Rightarrow> Inr Iox2) g)
      | _ \<Rightarrow> g)"

text \<open>
  A poll of the second part of \<open>wait_stream\<close>. With both backings \<open>select!\<close> takes a branch that is ready,
  starting with the websocket one if \<open>ws_first\<close>; the websocket wait is ready if \<open>ws_ready\<close> says that
  a message came since, and at once if that backing is not initialised. Without the iceoryx2 backing
  no branch is compiled. The actor's thread owns the sending end of the channel: when it is gone an
  empty channel is closed, and the wait returns.
\<close>

datatype 'a poll = PollPending | PollReady 'a

definition receive_results ::
  "('w, 'h) combined \<Rightarrow> (combined_ipc_error + unit) poll \<times> ('w, 'h) combined" where
  "receive_results g =
     (case wait_rx g of
        None \<Rightarrow> (PollReady (Inl CNotInitialized), g)
      | Some [] \<Rightarrow> ((case recv_actor g of Gone \<Rightarrow> PollReady (Inr ()) | _ \<Rightarrow> PollPending), g)
      | Some (r # rs) \<Rightarrow> (case drain_results (r # rs) g of (x, g1) \<Rightarrow> (PollReady x, g1)))"

definition wait_poll ::
  "('w, 'h) build \<Rightarrow> bool \<Rightarrow> bool \<Rightarrow> ('w, 'h) combined \<Rightarrow>
     (combined_ipc_error + unit) poll \<times> ('w, 'h) combined" where
  "wait_poll b ws_first ws_ready g =
     (if wait_rx g = None then (PollReady (Inl CNotInitialized), g)
      else if \<not> has_iox2 b then (PollReady (Inr ()), g)
      else if \<not> has_ws b then receive_results g
      else
        (let ws_done = (ws_ready \<or> receiving_tx (ws_st g) = None) in
         if ws_first \<and> ws_done then (PollReady (Inr ()), g)
         else case receive_results g of
                (PollPending, g1) \<Rightarrow> if ws_done then (PollReady (Inr ()), g1) else (PollPending, g1)
              | (PollReady x, g1) \<Rightarrow> (PollReady x, g1)))"

text \<open>One round of \<open>recv_stream\<close>: what \<open>try_recv_stream\<close> makes it do.\<close>

datatype recv_round = RoundReturn "combined_ipc_error + byte list" | RoundContinue | RoundAwait

definition recv_stream_round ::
  "('w, 'h) build \<Rightarrow> ('w, 'h) combined \<Rightarrow> (recv_round \<times> ('w, 'h) combined) outcome option" where
  "recv_stream_round b g =
     (case combined_try_recv_stream b False g of
        None \<Rightarrow> None
      | Some Panics \<Rightarrow> Some Panics
      | Some (Returns (r, g1)) \<Rightarrow>
          Some (Returns (case r of
             Inl e \<Rightarrow> RoundReturn (Inl e)
           | Inr (NewCompleted msg _) \<Rightarrow> RoundReturn (Inr msg)
           | Inr PotentiallyAvailable \<Rightarrow> RoundContinue
           | Inr OutOfAccessible \<Rightarrow> RoundAwait, g1)))"

section \<open>\<open>init\<close> and \<open>close\<close>\<close>

text \<open>
  Starting one actor: a new thread with fresh cells handles \<open>Init\<close>; its sender is stored only if that
  succeeds.
\<close>

definition start_actor ::
  "('w, 'h) build \<Rightarrow> path \<Rightarrow> init_flags \<Rightarrow> 'w \<Rightarrow> (combined_init_error + 'h actor) \<times> 'w" where
  "start_actor b dir flags w =
     (case iox2_init (iox2_lib b) dir flags (fresh_tls, w) of
        (Inl e, _, w1) \<Rightarrow> (Inl (Iox2InitError e), w1)
      | (Inr _, cells, w1) \<Rightarrow> (Inr (Serving cells), w1))"

definition init_iox2_actors ::
  "('w, 'h) build \<Rightarrow> init_flags \<Rightarrow> ('w, 'h) combined \<Rightarrow> (combined_init_error + unit) \<times> ('w, 'h) combined" where
  "init_iox2_actors b flags g =
     (case global_project_dir g of
        None \<Rightarrow> (Inl (MissingGlobalProjectDirectory ''iox2''), g)
      | Some dir \<Rightarrow>
          try_bind (\<lambda>g.
            if \<not> intersects flags INIT_IOX2_RECV then (Inr (), g)
            else case start_actor b dir (IOX2_CREAT_SUBSCRIBER OR IOX2_CREAT_LISTENER) (world g) of
                   (Inl e, w1) \<Rightarrow> (Inl e, with_world g w1)
                 | (Inr a, w1) \<Rightarrow> (Inr (), (with_world g w1)\<lparr>recv_tx := True, recv_actor := a\<rparr>)) (\<lambda>_ g.
            if \<not> intersects flags INIT_IOX2_SEND then (Inr (), g)
            else case start_actor b dir (IOX2_CREAT_PUBLISHER OR IOX2_CREAT_NOTIFIER) (world g) of
                   (Inl e, w1) \<Rightarrow> (Inl e, with_world g w1)
                 | (Inr a, w1) \<Rightarrow> (Inr (), (with_world g w1)\<lparr>send_tx := True, send_actor := a\<rparr>)) g)"

definition combined_init ::
  "('w, 'h) build \<Rightarrow> init_flags \<Rightarrow> ('w, 'h) combined \<Rightarrow> (combined_init_error + unit) \<times> ('w, 'h) combined" where
  "combined_init b flags g =
     try_bind (\<lambda>g. if has_iox2 b then init_iox2_actors b flags g else (Inr (), g)) (\<lambda>_ g.
       if has_ws b \<and> intersects flags INIT_WS_GATEWAY then
         (case ws_init (ws_lib b) (ws_st g, world g) of
            (Inl e, st, w1) \<Rightarrow> (Inl (WsGatewayInitError e), g\<lparr>ws_st := st, world := w1\<rparr>)
          | (Inr _, st, w1) \<Rightarrow> (Inr (), g\<lparr>ws_st := st, world := w1\<rparr>))
       else (Inr (), g)) (g\<lparr>wait_rx := Some []\<rparr>)"

text \<open>The loop of \<open>close\<close> around \<open>shutdown_signal\<close>.\<close>

partial_function (option) signal_until_sent ::
  "('w, 'h) build \<Rightarrow> ('w, 'h) combined \<Rightarrow> ('w, 'h) combined outcome option" where
  [code]: "signal_until_sent b g =
     (case combined_shutdown_signal b g of
        None \<Rightarrow> None
      | Some (r, g1) \<Rightarrow>
          (case r of
             Inr _ \<Rightarrow> Some (Returns g1)
           | Inl CNotInitialized \<Rightarrow> Some (Returns g1)
           | Inl (BackingCrashedOrNotStarted _) \<Rightarrow> Some (Returns g1)
           | Inl (Iox2IpcError (Iox2NotifierNotifyError _)) \<Rightarrow>
               signal_until_sent b (with_world g1 (sleep_ms b 100 (world g1)))
           | Inl _ \<Rightarrow> Some Panics))"

text \<open>Sending \<open>Close\<close>: a serving actor leaves its loop, a waiting one does when its wait ends.\<close>

definition send_close :: "bool \<Rightarrow> 'h actor \<Rightarrow> 'h actor" where
  "send_close has_tx a =
     (if \<not> has_tx then a
      else case a of
             Serving _ \<Rightarrow> Gone
           | WaitingEvent cells q \<Rightarrow> WaitingEvent cells (q @ [QClose])
           | Gone \<Rightarrow> Gone)"

text \<open>Joining a thread; \<open>wakes\<close> says whether a wait it is in ends. Otherwise the join never returns.\<close>

definition join_actor :: "bool \<Rightarrow> 'h actor \<Rightarrow> 'h actor option" where
  "join_actor wakes a =
     (case a of WaitingEvent _ _ \<Rightarrow> if wakes then Some Gone else None | _ \<Rightarrow> Some Gone)"

definition combined_close ::
  "('w, 'h) build \<Rightarrow> bool \<Rightarrow> ('w, 'h) combined \<Rightarrow> ('w, 'h) combined outcome option" where
  "combined_close b wakes g =
     (let g1 = (if has_iox2 b then g\<lparr>recv_actor := send_close (recv_tx g) (recv_actor g), recv_tx := False\<rparr>
                else g)
      in case signal_until_sent b g1 of
           None \<Rightarrow> None
         | Some Panics \<Rightarrow> Some Panics
         | Some (Returns g2) \<Rightarrow>
             (case (if has_iox2 b then join_actor wakes (recv_actor g2) else Some (recv_actor g2)) of
                None \<Rightarrow> None
              | Some ra \<Rightarrow>
                  (let g3 = g2\<lparr>recv_actor := ra\<rparr>;
                       g4 = (if has_iox2 b then g3\<lparr>send_actor := Gone, send_tx := False\<rparr> else g3)
                   in Some (Returns (g4\<lparr>wait_stream_locks := map (\<lambda>_. False) (wait_stream_locks g4),
                        wait_rx := None, current_backing := (Count, clock b (world g4))\<rparr>)))))"

text \<open>
  \<open>_wait_for_possible_crashes\<close>, which nothing calls yet: whether a poll completes. The first poll sends
  \<open>_WaitForExit\<close> to both actors; each keeps its channel until its thread ends, which closes it.
\<close>

definition ended :: "'h actor \<Rightarrow> bool" where
  "ended a = (case a of Gone \<Rightarrow> True | _ \<Rightarrow> False)"

definition wait_for_possible_crashes_poll :: "bool \<Rightarrow> ('w, 'h) combined \<Rightarrow> bool" where
  "wait_for_possible_crashes_poll first g \<longleftrightarrow>
     (if first \<and> (\<not> recv_tx g \<or> ended (recv_actor g)) then True
      else if first \<and> (\<not> send_tx g \<or> ended (send_actor g)) then True
      else ended (recv_actor g) \<or> ended (send_actor g))"

text \<open>The initial statics.\<close>

definition combined_start :: "'h \<Rightarrow> 'w \<Rightarrow> ('w, 'h) combined" where
  "combined_start bc w =
     \<lparr>global_project_dir = None, global_should_collect = None, recv_tx = False, recv_actor = Gone,
      send_tx = False, send_actor = Gone, wait_stream_locks = [False, False], wait_rx = None,
      current_backing = (Count, 0),
      ws_st = \<lparr>broadcast_tx = bc, receiving_tx = None, receiving_rx = None\<rparr>, world = w\<rparr>"

end
