(* ===== verification/Lmq_Queue.thy ===== *)
theory Lmq_Queue
  imports Sc_Prelude
begin

text \<open>
  The linked message queue of \<^verbatim>\<open>lmq/src/lib.rs\<close>. Shared objects live in a store: a node is an
  \<open>Arc<Mutex<NextMessage>>\<close>, a payload cell an \<open>Arc<RwLock<Option<Vec<u8>>>>\<close>, a tracker the
  \<open>Arc<()>\<close> whose strong count says whether a consumer is alive. References are numbers handed out
  in the order of allocation, so an \<open>Arc\<close> never dangles. Each operation is one atomic step here:
  it takes the locks it needs and releases them before it returns. A loop that would not end, or a
  thread that would lock a mutex it already holds, is \<open>None\<close>.

  The flag \<open>autodrop\<close> of the store is the cargo feature of that name.
\<close>

type_synonym nref = nat
type_synonym pref = nat
type_synonym tracker = nat

section \<open>Data\<close>

record next_message =
  payload_ref :: pref
  next_ref :: "nref option"
  target_consumers :: "tracker hmap option"

record link_message_queue =
  q_root :: nref
  q_last :: nref
  q_tail :: nref
  q_notify :: nat

record message_consumer =
  mc_current :: nref
  mc_notify :: nat
  mc_id :: u64
  mc_tracker :: tracker

text \<open>
  \<open>active\<close> is the static \<open>ACTIVE_MESSAGE_CONSUMERS\<close>, shared by every queue of the process;
  \<open>live t\<close> is \<open>strong_count() != 0\<close> for tracker \<open>t\<close>; \<open>notified n\<close> counts the calls of
  \<open>notify_waiters\<close> on the \<open>Notify\<close> object \<open>n\<close>.
\<close>

record lmq_store =
  autodrop :: bool
  nodes :: "nref \<Rightarrow> next_message"
  payloads :: "pref \<Rightarrow> byte list option"
  node_count :: nat
  payload_count :: nat
  tracker_count :: nat
  notify_count :: nat
  active :: "tracker hmap"
  live :: "tracker \<Rightarrow> bool"
  notified :: "nat \<Rightarrow> nat"

definition empty_store :: "bool \<Rightarrow> lmq_store" where
  "empty_store ad =
     \<lparr>autodrop = ad,
      nodes = (\<lambda>_. \<lparr>payload_ref = 0, next_ref = None, target_consumers = None\<rparr>),
      payloads = (\<lambda>_. None), node_count = 0, payload_count = 0, tracker_count = 0,
      notify_count = 0, active = [], live = (\<lambda>_. False), notified = (\<lambda>_. 0)\<rparr>"

section \<open>Store operations\<close>

definition alloc_payload :: "byte list option \<Rightarrow> lmq_store \<Rightarrow> pref \<times> lmq_store" where
  "alloc_payload v s =
     (payload_count s,
      s\<lparr>payloads := (payloads s)(payload_count s := v), payload_count := Suc (payload_count s)\<rparr>)"

definition alloc_node :: "next_message \<Rightarrow> lmq_store \<Rightarrow> nref \<times> lmq_store" where
  "alloc_node m s =
     (node_count s,
      s\<lparr>nodes := (nodes s)(node_count s := m), node_count := Suc (node_count s)\<rparr>)"

definition nxt :: "lmq_store \<Rightarrow> nref \<Rightarrow> nref option" where
  "nxt s n = next_ref (nodes s n)"

definition set_next :: "nref \<Rightarrow> nref option \<Rightarrow> lmq_store \<Rightarrow> lmq_store" where
  "set_next n r s = s\<lparr>nodes := (nodes s)(n := (nodes s n)\<lparr>next_ref := r\<rparr>)\<rparr>"

section \<open>Messages: \<open>is_claimed\<close>, \<open>read\<close>, \<open>claim\<close>\<close>

text \<open>
  A consumer holds a clone of the node, so a \<^typ>\<open>next_message\<close> shares the payload cell of the
  node it was cloned from.
\<close>

definition is_claimed :: "lmq_store \<Rightarrow> next_message \<Rightarrow> bool" where
  "is_claimed s m \<longleftrightarrow> payloads s (payload_ref m) = None"

definition read_message :: "lmq_store \<Rightarrow> next_message \<Rightarrow> byte list option" where
  "read_message s m =
     (case payloads s (payload_ref m) of Some v \<Rightarrow> Some v | None \<Rightarrow> None)"

definition claim :: "next_message \<Rightarrow> lmq_store \<Rightarrow> byte list option \<times> lmq_store" where
  "claim m s = (payloads s (payload_ref m), s\<lparr>payloads := (payloads s)(payload_ref m := None)\<rparr>)"

section \<open>The queue: \<open>new\<close> and \<open>push\<close>\<close>

definition lmq_new :: "lmq_store \<Rightarrow> link_message_queue \<times> lmq_store" where
  "lmq_new s =
     (let (tail_payload, s) = alloc_payload None s;
          (tail_arc, s) = alloc_node
             \<lparr>payload_ref = tail_payload, next_ref = None, target_consumers = None\<rparr> s;
          (root_payload, s) = alloc_payload None s;
          (root_arc, s) = alloc_node
             \<lparr>payload_ref = root_payload, next_ref = Some tail_arc, target_consumers = None\<rparr> s;
          n = notify_count s
      in (\<lparr>q_root = root_arc, q_last = root_arc, q_tail = tail_arc, q_notify = n\<rparr>,
          s\<lparr>notify_count := Suc n, notified := (notified s)(n := 0)\<rparr>))"

text \<open>The traversal of \<open>push\<close>: from the recorded last node to the node that points to the tail.\<close>

partial_function (option) find_last :: "nref \<Rightarrow> nref \<Rightarrow> lmq_store \<Rightarrow> nref option" where
  "find_last tail cur s =
     (case nxt s cur of
        None \<Rightarrow> Some cur
      | Some n \<Rightarrow> if n = tail then Some cur else find_last tail n s)"

declare find_last.simps [code]

definition lmq_push ::
  "byte list \<Rightarrow> link_message_queue \<Rightarrow> lmq_store \<Rightarrow> (link_message_queue \<times> lmq_store) option" where
  "lmq_push v q s =
     (let (p, s) = alloc_payload (Some v) s;
          (new_node, s) = alloc_node
             \<lparr>payload_ref = p, next_ref = Some (q_tail q),
              target_consumers = (if autodrop s then Some (active s) else None)\<rparr> s
      in case find_last (q_tail q) (q_last q) s of
           None \<Rightarrow> None
         | Some l \<Rightarrow>
             (let s = set_next l (Some new_node) s
              in Some (q\<lparr>q_last := new_node\<rparr>,
                       s\<lparr>notified := (notified s)(q_notify q := Suc (notified s (q_notify q)))\<rparr>)))"

section \<open>Consumers\<close>

text \<open>The identifier is drawn by \<open>rand\<close>: it is an argument.\<close>

definition create_consumer ::
  "u64 \<Rightarrow> link_message_queue \<Rightarrow> lmq_store \<Rightarrow> message_consumer \<times> lmq_store" where
  "create_consumer cid q s =
     (if autodrop s then
        (let t = tracker_count s;
             s = s\<lparr>tracker_count := Suc t, live := (live s)(t := True)\<rparr>;
             s = s\<lparr>active := hm_insert cid t (hm_retain (live s) (active s))\<rparr>
         in (\<lparr>mc_current = q_root q, mc_notify = q_notify q, mc_id = cid, mc_tracker = t\<rparr>, s))
      else
        (\<lparr>mc_current = q_root q, mc_notify = q_notify q, mc_id = cid, mc_tracker = 0\<rparr>, s))"

definition check_should_now_autodrop :: "u64 \<Rightarrow> nref \<Rightarrow> lmq_store \<Rightarrow> lmq_store" where
  "check_should_now_autodrop cid cur s =
     (case target_consumers (nodes s cur) of
        None \<Rightarrow> s
      | Some tc \<Rightarrow>
          (let tc = hm_remove cid tc;
               s = s\<lparr>nodes := (nodes s)(cur := (nodes s cur)\<lparr>target_consumers := Some tc\<rparr>)\<rparr>
           in if hm_all (\<lambda>t. \<not> live s t) tc then snd (claim (nodes s cur) s) else s))"

text \<open>
  The pruning loop of \<open>try_next\<close>, with the current node locked throughout. The result is the node
  to move to (whose clone is the value to return) and the store. Locking the current node a second
  time would block forever.
\<close>

partial_function (option) prune_loop ::
  "nref \<Rightarrow> bool \<Rightarrow> nref option \<Rightarrow> lmq_store \<Rightarrow> (nref option \<times> lmq_store) option" where
  "prune_loop cur current_is_claimed next_arc s =
     (case next_arc of
        None \<Rightarrow> Some (None, s)
      | Some n \<Rightarrow>
          if n = cur then None
          else if \<not> is_claimed s (nodes s n) \<or> nxt s n = None then
            (let s = set_next cur (Some n) s
             in Some (if nxt s n \<noteq> None then Some n else None, s))
          else
            (let new_next = nxt s n;
                 s = (case new_next of Some nn \<Rightarrow> set_next cur (Some nn) s | None \<Rightarrow> s);
                 s = (if \<not> current_is_claimed then set_next n (Some cur) s else s)
             in prune_loop cur current_is_claimed new_next s))"

declare prune_loop.simps [code]

definition try_next ::
  "message_consumer \<Rightarrow> lmq_store \<Rightarrow> (next_message option \<times> message_consumer \<times> lmq_store) option" where
  "try_next c s =
     (let cur = mc_current c;
          s = (if autodrop s then check_should_now_autodrop (mc_id c) cur s else s);
          current_is_claimed = is_claimed s (nodes s cur)
      in case prune_loop cur current_is_claimed (nxt s cur) s of
           None \<Rightarrow> None
         | Some (None, s) \<Rightarrow> Some (None, c, s)
         | Some (Some dest, s) \<Rightarrow> Some (Some (nodes s dest), c\<lparr>mc_current := dest\<rparr>, s))"

text \<open>Dropping a consumer: the destructor, then the fields (the last strong count goes).\<close>

definition drop_consumer :: "message_consumer \<Rightarrow> lmq_store \<Rightarrow> lmq_store" where
  "drop_consumer c s =
     (if autodrop s then
        (let s = s\<lparr>active := hm_remove (mc_id c) (active s)\<rparr>;
             s = check_should_now_autodrop (mc_id c) (mc_current c) s
         in s\<lparr>live := (live s)(mc_tracker c := False)\<rparr>)
      else s)"

text \<open>
  \<open>next\<close> as a future. It takes a \<open>Notified\<close> before it looks, and when there is nothing it waits on
  that. A poll of a waiting future asks \<open>tokio\<close> whether the \<open>Notified\<close> taken at count \<open>a\<close> is
  complete at count \<open>b\<close>; that answer is the parameter \<open>ready\<close>. The result of a poll is the message
  (\<open>Poll::Ready\<close>) or the state to be polled again.
\<close>

datatype next_future = NextStart | NextWaiting nat

definition poll_next ::
  "(nat \<Rightarrow> nat \<Rightarrow> bool) \<Rightarrow> next_future \<Rightarrow> message_consumer \<Rightarrow> lmq_store \<Rightarrow>
     ((next_future + next_message) \<times> message_consumer \<times> lmq_store) option" where
  "poll_next ready fut c s =
     (let now = notified s (mc_notify c);
          look = (case try_next c s of
                    None \<Rightarrow> None
                  | Some (Some m, c, s) \<Rightarrow> Some (Inr m, c, s)
                  | Some (None, c, s) \<Rightarrow> Some (Inl (NextWaiting now), c, s))
      in case fut of
           NextStart \<Rightarrow> look
         | NextWaiting a \<Rightarrow> if ready a now then look else Some (Inl (NextWaiting a), c, s))"

text \<open>
  \<open>blocking_next\<close> is \<open>block_on\<close> of that future: polled whenever the thread is woken. \<open>until_woken\<close> is what the
  other threads do to the store meanwhile.
\<close>

partial_function (option) blocking_next ::
  "(nat \<Rightarrow> nat \<Rightarrow> bool) \<Rightarrow> (lmq_store \<Rightarrow> lmq_store) \<Rightarrow> next_future \<Rightarrow> message_consumer \<Rightarrow> lmq_store \<Rightarrow>
     (next_message \<times> message_consumer \<times> lmq_store) option" where
  [code]: "blocking_next ready until_woken fut c s =
     (case poll_next ready fut c s of
        None \<Rightarrow> None
      | Some (Inr m, c1, s1) \<Rightarrow> Some (m, c1, s1)
      | Some (Inl fut1, c1, s1) \<Rightarrow> blocking_next ready until_woken fut1 c1 (until_woken s1))"

lemmas store_defs = alloc_payload_def alloc_node_def set_next_def nxt_def claim_def

end
