(* ===== verification/Lmq_Paths.thy ===== *)
theory Lmq_Paths
  imports Lmq_Queue
begin

text \<open>
  The shape of the queue's pointer graph. Following \<open>next\<close> pointers from any allocated node reaches
  a node without a successor (a tail sentinel), whatever the operations did before: the traversal
  of \<open>push\<close> and the pruning of \<open>try_next\<close> end, and no operation locks a mutex twice. The effect of
  the pruning loop on the graph is one function, \<open>redirect\<close>.
\<close>

section \<open>Paths\<close>

text \<open>\<open>chain f x as y\<close>: the nodes \<open>as\<close>, the first being \<open>x\<close>, lead to \<open>y\<close>, which is not listed.\<close>

primrec chain :: "(nref \<Rightarrow> nref option) \<Rightarrow> nref \<Rightarrow> nref list \<Rightarrow> nref \<Rightarrow> bool" where
  "chain f x [] y \<longleftrightarrow> x = y"
| "chain f x (a # as) y \<longleftrightarrow> x = a \<and> (\<exists>z. f a = Some z \<and> chain f z as y)"

lemma chain_append:
  "chain f x (as @ bs) y \<longleftrightarrow> (\<exists>z. chain f x as z \<and> chain f z bs y)"
  by (induction as arbitrary: x) auto

lemma chain_snoc: "chain f x (as @ [a]) y \<longleftrightarrow> chain f x as a \<and> f a = Some y"
  by (auto simp: chain_append)

lemma chain_cong:
  "(\<And>a. a \<in> set as \<Longrightarrow> f a = g a) \<Longrightarrow> chain f x as y = chain g x as y"
  by (induction as arbitrary: x) auto

lemma chain_upd [simp]: "u \<notin> set as \<Longrightarrow> chain (f(u := v)) x as y = chain f x as y"
  by (rule chain_cong) auto

lemma chain_hd: "chain f x as y \<Longrightarrow> as \<noteq> [] \<Longrightarrow> hd as = x"
  by (cases as) auto

lemma chain_unique:
  "chain f x as t \<Longrightarrow> chain f x bs u \<Longrightarrow> f t = None \<Longrightarrow> f u = None \<Longrightarrow> as = bs \<and> t = u"
proof (induction as arbitrary: x bs)
  case Nil
  then show ?case by (cases bs) auto
next
  case (Cons a as)
  then show ?case by (cases bs) auto
qed

lemma chain_dom: "chain f x as y \<Longrightarrow> a \<in> set as \<Longrightarrow> f a \<noteq> None"
  by (induction as arbitrary: x) auto

lemma chain_end_notin: "chain f x as t \<Longrightarrow> f t = None \<Longrightarrow> t \<notin> set as"
  by (auto dest: chain_dom)

lemma chain_suffix:
  assumes "chain f x as y" and "a \<in> set as"
  obtains bs cs where "as = bs @ a # cs" and "chain f a (a # cs) y"
proof -
  from assms(2) obtain bs cs where as: "as = bs @ a # cs" by (auto simp: in_set_conv_decomp)
  with assms(1) have "chain f a (a # cs) y" by (auto simp: chain_append)
  with as show thesis by (rule that)
qed

lemma chain_distinct: "chain f x as t \<Longrightarrow> f t = None \<Longrightarrow> distinct as"
proof (induction as arbitrary: x)
  case Nil
  show ?case by simp
next
  case (Cons a as)
  then obtain z where z: "f a = Some z" "chain f z as t" and "x = a" by auto
  have "a \<notin> set as"
  proof
    assume "a \<in> set as"
    with z(2) obtain bs cs where as: "as = bs @ a # cs" and "chain f a (a # cs) t"
      by (rule chain_suffix)
    then have "chain f z cs t" using z(1) by simp
    with z(2) Cons.prems(2) have "as = cs" by (blast dest: chain_unique)
    with as show False by simp
  qed
  moreover have "distinct as" using Cons.IH [OF z(2) Cons.prems(2)] .
  ultimately show ?case by simp
qed

section \<open>Reaching a terminal node\<close>

definition ends_at :: "(nref \<Rightarrow> nref option) \<Rightarrow> nref \<Rightarrow> nref \<Rightarrow> bool" where
  "ends_at f x t \<longleftrightarrow> f t = None \<and> (\<exists>as. chain f x as t)"

lemma ends_atI: "chain f x as t \<Longrightarrow> f t = None \<Longrightarrow> ends_at f x t"
  by (auto simp: ends_at_def)

lemma ends_atE:
  assumes "ends_at f x t"
  obtains as where "chain f x as t" and "f t = None"
  using assms by (auto simp: ends_at_def)

lemma ends_at_unique: "ends_at f x t \<Longrightarrow> ends_at f x u \<Longrightarrow> t = u"
  by (auto simp: ends_at_def dest: chain_unique)

lemma ends_at_step: "f x = Some z \<Longrightarrow> ends_at f z t \<Longrightarrow> ends_at f x t"
  by (metis chain.simps(2) ends_at_def)

lemma ends_at_self: "f t = None \<Longrightarrow> ends_at f t t"
  by (auto simp: ends_at_def intro!: exI [of _ "[]"])

lemma ends_at_induct [consumes 1, case_names terminal step]:
  assumes "ends_at f x t"
    and "P t"
    and "\<And>x z. f x = Some z \<Longrightarrow> ends_at f z t \<Longrightarrow> P z \<Longrightarrow> P x"
  shows "P x"
proof -
  from assms(1) obtain as where "chain f x as t" and t: "f t = None" by (rule ends_atE)
  then show ?thesis
  proof (induction as arbitrary: x)
    case Nil
    with assms(2) show ?case by simp
  next
    case (Cons a as)
    then obtain z where "f x = Some z" "chain f z as t" by auto
    with Cons show ?case by (blast intro: assms(3) ends_atI)
  qed
qed

section \<open>The effect of pruning\<close>

text \<open>
  The current node gets the exit \<open>e\<close>; the skipped nodes \<open>ds\<close> point back to the current node, unless
  that one is claimed.
\<close>

definition redirect ::
  "(nref \<Rightarrow> nref option) \<Rightarrow> nref \<Rightarrow> bool \<Rightarrow> nref list \<Rightarrow> nref \<Rightarrow> nref \<Rightarrow> nref option" where
  "redirect f cur cl ds e =
     (\<lambda>x. if x = cur then Some e else if \<not> cl \<and> x \<in> set ds then Some cur else f x)"

lemma redirect_cur [simp]: "redirect f cur cl ds e cur = Some e"
  by (simp add: redirect_def)

lemma redirect_other [simp]:
  "x \<noteq> cur \<Longrightarrow> x \<notin> set ds \<Longrightarrow> redirect f cur cl ds e x = f x"
  by (simp add: redirect_def)

lemma redirect_Nil: "f cur = Some e \<Longrightarrow> redirect f cur cl [] e = f"
  by (auto simp: redirect_def fun_eq_iff)

text \<open>Every node keeps its terminal node: no operation makes a cycle.\<close>

lemma redirect_ends_at:
  assumes path: "chain f cur (cur # ds) e" and e: "ends_at f e u" and x: "ends_at f x t"
  shows "ends_at (redirect f cur cl ds e) x t"
proof -
  let ?g = "redirect f cur cl ds e"
  from e obtain es where es: "chain f e es u" and u: "f u = None" by (rule ends_atE)
  from path es have full: "chain f cur (cur # ds @ es) u"
    by (metis append_Cons chain_append)
  from this u have dist: "distinct (cur # ds @ es)" by (rule chain_distinct)
  from full u have un: "u \<notin> set (cur # ds @ es)" by (rule chain_end_notin)
  have "chain ?g e es u"
  proof (rule chain_cong [THEN iffD2, OF _ es])
    fix a assume "a \<in> set es"
    with dist show "?g a = f a" by (auto simp: redirect_def)
  qed
  moreover have gu: "?g u = None"
    using un u by simp
  ultimately have ge: "ends_at ?g e u" by (rule ends_atI)
  then have gcur: "ends_at ?g cur u" by (rule ends_at_step [rotated]) simp
  show ?thesis
    using x
  proof (induction rule: ends_at_induct)
    case terminal
    from x have t: "f t = None" by (auto elim: ends_atE)
    with full have "t \<notin> set (cur # ds)" by (auto dest: chain_dom)
    with t show ?case by (auto intro: ends_at_self)
  next
    case (step x z)
    show ?case
    proof (cases "x \<in> set (cur # ds)")
      case True
      then have "x \<in> set (cur # ds @ es)" by auto
      with full obtain cs where "chain f x (x # cs) u" by (blast elim: chain_suffix)
      from this u have "ends_at f x u" by (rule ends_atI)
      moreover have "ends_at f x t" using step by (blast intro: ends_at_step)
      ultimately have "t = u" by (blast dest: ends_at_unique)
      moreover have "x = cur \<or> ?g x = Some cur \<or> ?g x = f x"
        by (simp add: redirect_def)
      ultimately show ?thesis
        using step gcur by (auto intro: ends_at_step)
    next
      case False
      with step have "?g x = Some z" by simp
      with step show ?thesis by (blast intro: ends_at_step)
    qed
  qed
qed

definition with_next :: "(nref \<Rightarrow> nref option) \<Rightarrow> lmq_store \<Rightarrow> lmq_store" where
  "with_next f s = s\<lparr>nodes := (\<lambda>x. (nodes s x)\<lparr>next_ref := f x\<rparr>)\<rparr>"

lemma with_next_simps [simp]:
  "nxt (with_next f s) = f"
  "payloads (with_next f s) = payloads s"
  "payload_ref (nodes (with_next f s) x) = payload_ref (nodes s x)"
  "target_consumers (nodes (with_next f s) x) = target_consumers (nodes s x)"
  "node_count (with_next f s) = node_count s"
  "payload_count (with_next f s) = payload_count s"
  "tracker_count (with_next f s) = tracker_count s"
  "notify_count (with_next f s) = notify_count s"
  "active (with_next f s) = active s"
  "live (with_next f s) = live s"
  "notified (with_next f s) = notified s"
  "autodrop (with_next f s) = autodrop s"
  by (simp_all add: with_next_def nxt_def fun_eq_iff)

lemma with_next_nodes [simp]:
  "nodes (with_next f s) x = (nodes s x)\<lparr>next_ref := f x\<rparr>"
  by (simp add: with_next_def)

lemma with_next_twice [simp]: "with_next f (with_next g s) = with_next f s"
  by (simp add: with_next_def)

lemma with_next_self [simp]: "with_next (nxt s) s = s"
  by (simp add: with_next_def nxt_def)

lemma set_next_conv: "set_next n r s = with_next ((nxt s)(n := r)) s"
  by (auto simp: set_next_def with_next_def nxt_def fun_eq_iff intro!: lmq_store.equality)

lemma is_claimed_with_next [simp]:
  "is_claimed (with_next f s) m = is_claimed s m"
  "is_claimed s (m\<lparr>next_ref := r\<rparr>) = is_claimed s m"
  by (simp_all add: is_claimed_def)

text \<open>
  The loop from the first node after the current one: it passes the claimed nodes \<open>ds\<close> and stops at
  \<open>e\<close>, the first node that is unclaimed or has no successor.
\<close>

lemma prune_loop_eq:
  assumes "chain (nxt s) n ds e"
    and "cur \<notin> set ds" and "e \<noteq> cur" and "distinct ds" and "e \<notin> set ds"
    and "\<forall>d \<in> set ds. is_claimed s (nodes s d)"
    and "\<not> is_claimed s (nodes s e) \<or> nxt s e = None"
  shows "prune_loop cur cl (Some n) s =
    Some (if nxt s e \<noteq> None then Some e else None, with_next (redirect (nxt s) cur cl ds e) s)"
  using assms
proof (induction ds arbitrary: n s)
  case Nil
  then have "n = e" by simp
  moreover have "(nxt s)(cur := Some e) = redirect (nxt s) cur cl [] e"
    by (auto simp: redirect_def)
  ultimately show ?case
    using Nil by (subst prune_loop.simps) (auto simp: set_next_conv Let_def)
next
  case (Cons d ds)
  then obtain z where n: "n = d" and z: "nxt s d = Some z" and rest: "chain (nxt s) z ds e"
    by auto
  let ?f = "\<lambda>x. if x = cur then Some z else if \<not> cl \<and> x = d then Some cur else nxt s x"
  let ?s = "with_next ?f s"
  have f: "(if cl then (nxt s)(cur := Some z) else (nxt s)(cur := Some z, d := Some cur)) = ?f"
    using Cons.prems by (auto simp: fun_eq_iff)
  have step: "prune_loop cur cl (Some n) s = prune_loop cur cl (Some z) ?s"
    using Cons.prems n z f
    by (subst prune_loop.simps) (auto simp: set_next_conv Let_def)
  have "chain (nxt ?s) z ds e"
    using rest Cons.prems by (subst chain_cong [of _ _ "nxt s"]) auto
  then have "prune_loop cur cl (Some z) ?s =
      Some (if nxt ?s e \<noteq> None then Some e else None, with_next (redirect (nxt ?s) cur cl ds e) ?s)"
    using Cons.prems by (intro Cons.IH) auto
  moreover have "nxt ?s e = nxt s e"
    using Cons.prems by auto
  moreover have "redirect ?f cur cl ds e = redirect (nxt s) cur cl (d # ds) e"
    by (auto simp: redirect_def fun_eq_iff)
  ultimately show ?case using step by simp
qed

text \<open>On a path to a terminal node such a stopping point exists.\<close>

lemma stop_exists:
  assumes "chain f n as t" and "f t = None"
  shows "\<exists>ds e bs. as = ds @ bs \<and> chain f n ds e \<and> chain f e bs t \<and> (\<forall>d \<in> set ds. P d) \<and>
    (\<not> P e \<or> f e = None)"
  using assms
proof (induction as arbitrary: n)
  case Nil
  then show ?case by auto
next
  case (Cons a as)
  then obtain z where z: "f a = Some z" "chain f z as t" and n: "n = a" by auto
  show ?case
  proof (cases "P a")
    case True
    from Cons.IH [OF z(2) Cons.prems(2)] obtain ds e bs where
      "as = ds @ bs" "chain f z ds e" "chain f e bs t" "\<forall>d \<in> set ds. P d" "\<not> P e \<or> f e = None"
      by blast
    with True z n show ?thesis
      by (intro exI [of _ "a # ds"] exI [of _ e] exI [of _ bs]) auto
  next
    case False
    with n Cons.prems show ?thesis
      by (intro exI [of _ "[]"] exI [of _ a] exI [of _ "a # as"]) auto
  qed
qed

end
