(* ===== verification/Lmq_Invariant.thy ===== *)
theory Lmq_Invariant
  imports Lmq_Paths
begin

text \<open>
  The well-formedness invariant of the queue's store, what each operation does to it, and the
  closed forms of \<open>push\<close> and \<open>try_next\<close> under it. Nothing here restricts how consumers, claims and
  pushes are interleaved.
\<close>

section \<open>The invariant\<close>

definition store_ok :: "lmq_store \<Rightarrow> bool" where
  "store_ok s \<longleftrightarrow>
     (\<forall>x. \<exists>t. ends_at (nxt s) x t) \<and>
     (\<forall>x z. nxt s x = Some z \<longrightarrow> x < node_count s \<and> z < node_count s) \<and>
     (\<forall>x < node_count s. payload_ref (nodes s x) < payload_count s) \<and>
     (\<forall>x < node_count s. \<forall>y < node_count s.
        payload_ref (nodes s x) = payload_ref (nodes s y) \<longrightarrow> x = y) \<and>
     (\<forall>x < node_count s. nxt s x = None \<longrightarrow> is_claimed s (nodes s x))"

definition queue_ok :: "lmq_store \<Rightarrow> link_message_queue \<Rightarrow> bool" where
  "queue_ok s q \<longleftrightarrow>
     q_root q < node_count s \<and> q_last q < node_count s \<and> q_tail q < node_count s \<and>
     ends_at (nxt s) (q_root q) (q_tail q) \<and> ends_at (nxt s) (q_last q) (q_tail q) \<and>
     q_root q \<noteq> q_tail q \<and> q_last q \<noteq> q_tail q \<and> is_claimed s (nodes s (q_root q))"

definition consumer_ok :: "link_message_queue \<Rightarrow> lmq_store \<Rightarrow> message_consumer \<Rightarrow> bool" where
  "consumer_ok q s c \<longleftrightarrow>
     mc_current c < node_count s \<and> ends_at (nxt s) (mc_current c) (q_tail q) \<and>
     mc_current c \<noteq> q_tail q \<and> mc_notify c = q_notify q"

text \<open>A message that a consumer was given.\<close>

definition message_ok :: "lmq_store \<Rightarrow> next_message \<Rightarrow> bool" where
  "message_ok s m \<longleftrightarrow>
     (\<exists>x < node_count s. nxt s x \<noteq> None \<and> payload_ref m = payload_ref (nodes s x))"

lemma store_okD:
  assumes "store_ok s"
  shows "\<exists>t. ends_at (nxt s) x t"
    and "nxt s x = Some z \<Longrightarrow> x < node_count s"
    and "nxt s x = Some z \<Longrightarrow> z < node_count s"
    and "x < node_count s \<Longrightarrow> payload_ref (nodes s x) < payload_count s"
    and "x < node_count s \<Longrightarrow> y < node_count s \<Longrightarrow>
           payload_ref (nodes s x) = payload_ref (nodes s y) \<Longrightarrow> x = y"
    and "x < node_count s \<Longrightarrow> nxt s x = None \<Longrightarrow> is_claimed s (nodes s x)"
  using assms by (auto simp: store_ok_def)

lemma ends_at_None: "ends_at f x t \<Longrightarrow> f t = None"
  by (auto simp: ends_at_def)

lemma queue_ok_tail: "queue_ok s q \<Longrightarrow> nxt s (q_tail q) = None"
  by (auto simp: queue_ok_def dest: ends_at_None)

section \<open>Operations that keep every \<open>next\<close> pointer\<close>

text \<open>\<open>shape s\<close> is what the graph invariants depend on; \<open>claims_grow\<close> relates the payloads.\<close>

definition same_shape :: "lmq_store \<Rightarrow> lmq_store \<Rightarrow> bool" where
  "same_shape s s' \<longleftrightarrow>
     nxt s' = nxt s \<and> node_count s' = node_count s \<and> payload_count s' = payload_count s \<and>
     (\<forall>x. payload_ref (nodes s' x) = payload_ref (nodes s x)) \<and>
     (\<forall>p. payloads s' p = payloads s p \<or> payloads s' p = None) \<and>
     autodrop s' = autodrop s"

lemma same_shape_refl [simp]: "same_shape s s"
  by (simp add: same_shape_def)

lemma same_shape_trans [trans]: "same_shape s s' \<Longrightarrow> same_shape s' s'' \<Longrightarrow> same_shape s s''"
  unfolding same_shape_def by metis

lemma same_shapeD:
  assumes "same_shape s s'"
  shows "nxt s' = nxt s" and "node_count s' = node_count s"
    and "payload_count s' = payload_count s"
    and "payload_ref (nodes s' x) = payload_ref (nodes s x)"
    and "is_claimed s m \<Longrightarrow> is_claimed s' m"
    and "autodrop s' = autodrop s"
proof -
  show "is_claimed s' m" if "is_claimed s m"
    using that assms unfolding same_shape_def is_claimed_def by metis
qed (use assms in \<open>simp_all add: same_shape_def\<close>)

lemma same_shape_claimed:
  "same_shape s s' \<Longrightarrow> is_claimed s (nodes s x) \<Longrightarrow> is_claimed s' (nodes s' x)"
  unfolding same_shape_def is_claimed_def by metis

lemma same_shape_store_ok: "same_shape s s' \<Longrightarrow> store_ok s \<Longrightarrow> store_ok s'"
  by (simp add: store_ok_def same_shapeD(1-4) same_shape_claimed)

lemma same_shape_queue_ok: "same_shape s s' \<Longrightarrow> queue_ok s q \<Longrightarrow> queue_ok s' q"
  by (simp add: queue_ok_def same_shapeD(1,2) same_shape_claimed)

lemma same_shape_consumer_ok: "same_shape s s' \<Longrightarrow> consumer_ok q s c \<Longrightarrow> consumer_ok q s' c"
  by (simp add: consumer_ok_def same_shapeD(1,2))

lemma same_shape_message_ok: "same_shape s s' \<Longrightarrow> message_ok s m \<Longrightarrow> message_ok s' m"
  by (simp add: message_ok_def same_shapeD(1,2,4))

lemma claim_same_shape: "same_shape s (snd (claim m s))"
  by (auto simp: same_shape_def claim_def nxt_def fun_eq_iff)

lemma retarget_same_shape:
  "same_shape s (s\<lparr>nodes := (nodes s)(x := (nodes s x)\<lparr>target_consumers := tc\<rparr>)\<rparr>)"
  by (auto simp: same_shape_def nxt_def fun_eq_iff)

lemma check_same_shape: "same_shape s (check_should_now_autodrop i x s)"
proof (cases "target_consumers (nodes s x)")
  case None
  then show ?thesis by (simp add: check_should_now_autodrop_def)
next
  case (Some tc)
  then show ?thesis
    using retarget_same_shape claim_same_shape same_shape_trans
    by (simp add: check_should_now_autodrop_def Let_def) blast
qed

lemma consumers_same_shape [simp]:
  "same_shape s (s\<lparr>active := a\<rparr>)" "same_shape s (s\<lparr>live := l\<rparr>)"
  "same_shape s (s\<lparr>tracker_count := k\<rparr>)"
  by (auto simp: same_shape_def nxt_def fun_eq_iff)

lemma create_consumer_same_shape: "same_shape s (snd (create_consumer i q s))"
  by (auto simp: create_consumer_def Let_def same_shape_def nxt_def fun_eq_iff)

lemma drop_consumer_same_shape: "same_shape s (drop_consumer c s)"
proof -
  let ?s1 = "s\<lparr>active := hm_remove (mc_id c) (active s)\<rparr>"
  let ?s2 = "check_should_now_autodrop (mc_id c) (mc_current c) ?s1"
  have "same_shape s ?s1" by simp
  also have "same_shape ?s1 ?s2" by (rule check_same_shape)
  also have "same_shape ?s2 (?s2\<lparr>live := (live ?s2)(mc_tracker c := False)\<rparr>)"
    by simp
  finally show ?thesis by (simp add: drop_consumer_def Let_def)
qed

lemma create_consumer_ok:
  "queue_ok s q \<Longrightarrow> consumer_ok q (snd (create_consumer i q s)) (fst (create_consumer i q s))"
  using create_consumer_same_shape [of s i q]
  by (auto simp: create_consumer_def Let_def consumer_ok_def queue_ok_def same_shape_def)

text \<open>The check affects at most the payload of the node it looks at.\<close>

lemma check_payloads_other:
  "p \<noteq> payload_ref (nodes s x) \<Longrightarrow> payloads (check_should_now_autodrop i x s) p = payloads s p"
  by (simp add: check_should_now_autodrop_def claim_def Let_def split: option.split)

lemma check_claimed_other:
  assumes "store_ok s" "x < node_count s" "y < node_count s" "x \<noteq> y"
  shows "is_claimed (check_should_now_autodrop i x s) (nodes (check_should_now_autodrop i x s) y)
    = is_claimed s (nodes s y)"
  using assms store_okD(5) same_shapeD(4) [OF check_same_shape]
  by (metis check_payloads_other is_claimed_def)

section \<open>\<open>push\<close>\<close>

lemma find_last_eq:
  assumes "chain (nxt s) x (as @ [l]) t" and "nxt s t = None"
  shows "find_last t x s = Some l"
  using assms
proof (induction as arbitrary: x)
  case Nil
  then show ?case by (subst find_last.simps) auto
next
  case (Cons a as)
  then obtain z where z: "nxt s a = Some z" "chain (nxt s) z (as @ [l]) t" and "x = a" by auto
  moreover from z(2) have "z \<in> set (as @ [l])"
    by (cases as) auto
  then have "z \<noteq> t" using chain_end_notin [OF z(2) Cons.prems(2)] by blast
  ultimately show ?case using Cons by (subst find_last.simps) auto
qed

definition pushed :: "byte list \<Rightarrow> link_message_queue \<Rightarrow> nref \<Rightarrow> lmq_store \<Rightarrow> lmq_store" where
  "pushed v q l s =
     s\<lparr>nodes := (\<lambda>x.
         if x = l then (nodes s l)\<lparr>next_ref := Some (node_count s)\<rparr>
         else if x = node_count s then
           \<lparr>payload_ref = payload_count s, next_ref = Some (q_tail q),
            target_consumers = (if autodrop s then Some (active s) else None)\<rparr>
         else nodes s x),
       payloads := (payloads s)(payload_count s := Some v),
       node_count := Suc (node_count s), payload_count := Suc (payload_count s),
       notified := (notified s)(q_notify q := Suc (notified s (q_notify q)))\<rparr>"

lemma last_exists:
  assumes "ends_at f x t" and "x \<noteq> t"
  shows "\<exists>as l. chain f x (as @ [l]) t"
proof -
  from assms(1) obtain as where "chain f x as t" by (rule ends_atE)
  moreover from this assms(2) have "as \<noteq> []" by auto
  ultimately show ?thesis by (metis append_butlast_last_id)
qed

lemma lmq_push_eq:
  assumes "store_ok s" and "queue_ok s q"
    and l: "chain (nxt s) (q_last q) (as @ [l]) (q_tail q)"
  shows "lmq_push v q s = Some (q\<lparr>q_last := node_count s\<rparr>, pushed v q l s)"
proof -
  let ?n = "node_count s"
  let ?m = "\<lparr>payload_ref = payload_count s, next_ref = Some (q_tail q),
              target_consumers = (if autodrop s then Some (active s) else None)\<rparr>"
  let ?s = "s\<lparr>payloads := (payloads s)(payload_count s := Some v),
              payload_count := Suc (payload_count s),
              nodes := (nodes s)(?n := ?m), node_count := Suc ?n\<rparr>"
  have fresh: "nxt s ?n = None"
    using assms(1) by (metis not_None_eq order_less_irrefl store_okD(2))
  have nx: "nxt ?s = (nxt s)(?n := Some (q_tail q))"
    by (auto simp: nxt_def fun_eq_iff)
  have notin: "?n \<notin> set (as @ [l])"
    using l fresh chain_dom by blast
  have "chain (nxt ?s) (q_last q) (as @ [l]) (q_tail q)"
    unfolding nx using l notin by simp
  moreover have "nxt ?s (q_tail q) = None"
    using assms(2) queue_ok_tail by (auto simp: nx queue_ok_def)
  ultimately have "find_last (q_tail q) (q_last q) ?s = Some l"
    by (rule find_last_eq)
  moreover have "l \<noteq> ?n" using notin by simp
  ultimately show ?thesis
    by (auto simp: lmq_push_def alloc_payload_def alloc_node_def set_next_def pushed_def Let_def
        fun_eq_iff intro!: lmq_store.equality)
qed

lemma pushed_simps [simp]:
  "node_count (pushed v q l s) = Suc (node_count s)"
  "payload_count (pushed v q l s) = Suc (payload_count s)"
  "payloads (pushed v q l s) = (payloads s)(payload_count s := Some v)"
  "autodrop (pushed v q l s) = autodrop s"
  "active (pushed v q l s) = active s"
  "live (pushed v q l s) = live s"
  "tracker_count (pushed v q l s) = tracker_count s"
  by (simp_all add: pushed_def)

lemma nxt_pushed:
  "nxt (pushed v q l s) = (nxt s)(node_count s := Some (q_tail q), l := Some (node_count s))"
  by (auto simp: nxt_def pushed_def fun_eq_iff)

lemma payload_ref_pushed:
  "l \<noteq> node_count s \<Longrightarrow>
   payload_ref (nodes (pushed v q l s) x) =
     (if x = node_count s then payload_count s else payload_ref (nodes s x))"
  by (auto simp: pushed_def)

lemma extend_ends_at:
  assumes "f l = Some t" and "f t = None" and "f n = None" and "n \<noteq> t"
    and "ends_at f x u" and "u \<noteq> n"
  shows "ends_at (f(n := Some t, l := Some n)) x u"
proof -
  let ?g = "f(n := Some t, l := Some n)"
  have "l \<noteq> n" and "l \<noteq> t" using assms by auto
  then have gt: "ends_at ?g t t" using assms by (auto intro: ends_at_self)
  then have gn: "ends_at ?g n t" using \<open>l \<noteq> n\<close> by (auto intro: ends_at_step)
  then have gl: "ends_at ?g l t" by (auto intro: ends_at_step)
  show ?thesis
    using assms(5)
  proof (induction rule: ends_at_induct)
    case terminal
    from assms(5) have "f u = None" by (rule ends_at_None)
    moreover from this have "u \<noteq> l" using assms(1) by auto
    ultimately show ?case using assms(6) by (auto intro: ends_at_self)
  next
    case (step x z)
    show ?case
    proof (cases "x = l")
      case True
      have "ends_at f l t" using assms(1,2) by (blast intro: ends_at_step ends_at_self)
      with step True have "u = t" by (blast intro: ends_at_step dest: ends_at_unique)
      with gl True show ?thesis by (simp only:)
    next
      case False
      with step assms(3) have "?g x = Some z" by auto
      with step show ?thesis by (blast intro: ends_at_step)
    qed
  qed
qed

lemma ends_at_allocated:
  assumes "store_ok s" and "ends_at (nxt s) x u" and "x < node_count s"
  shows "u < node_count s"
proof -
  from assms(2) obtain as where as: "chain (nxt s) x as u" by (rule ends_atE)
  show ?thesis
  proof (cases as rule: rev_cases)
    case Nil
    with as assms(3) show ?thesis by simp
  next
    case (snoc bs b)
    with as show ?thesis using store_okD(3) [OF assms(1)] by (auto simp: chain_append)
  qed
qed

text \<open>What \<open>push\<close> needs to know about the node it appends to.\<close>

definition push_point :: "lmq_store \<Rightarrow> link_message_queue \<Rightarrow> nref \<Rightarrow> bool" where
  "push_point s q l \<longleftrightarrow> l < node_count s \<and> nxt s l = Some (q_tail q)"

lemma push_point_chain:
  assumes "store_ok s" and "chain (nxt s) x (as @ [l]) (q_tail q)"
  shows "push_point s q l"
  using assms store_okD(2) by (auto simp: push_point_def chain_append)

lemma pushed_ends_at:
  assumes "store_ok s" "queue_ok s q" "push_point s q l"
    and "ends_at (nxt s) x u" and "u < node_count s"
  shows "ends_at (nxt (pushed v q l s)) x u"
  unfolding nxt_pushed
proof (rule extend_ends_at)
  show "nxt s l = Some (q_tail q)" using assms(3) by (simp add: push_point_def)
  show "nxt s (q_tail q) = None" using assms(2) by (rule queue_ok_tail)
  show "nxt s (node_count s) = None"
    using store_okD(2) [OF assms(1)] by (metis not_None_eq order_less_irrefl)
qed (use assms in \<open>auto simp: queue_ok_def\<close>)

lemma pushed_new_ends_at:
  assumes "store_ok s" "queue_ok s q" "push_point s q l"
  shows "ends_at (nxt (pushed v q l s)) (node_count s) (q_tail q)"
proof -
  have "ends_at (nxt (pushed v q l s)) (q_tail q) (q_tail q)"
    using assms queue_ok_tail [OF assms(2)]
    by (intro pushed_ends_at) (auto simp: queue_ok_def intro: ends_at_self)
  then show ?thesis
    using assms(3) by (auto simp: nxt_pushed push_point_def intro: ends_at_step)
qed

lemma pushed_is_claimed:
  assumes "store_ok s" "push_point s q l" "x < node_count s"
  shows "is_claimed (pushed v q l s) (nodes (pushed v q l s) x) = is_claimed s (nodes s x)"
proof -
  have "l \<noteq> node_count s" using assms(2) by (simp add: push_point_def)
  moreover have "payload_ref (nodes s x) < payload_count s" using assms store_okD(4) by blast
  ultimately show ?thesis using assms(3) by (simp add: is_claimed_def payload_ref_pushed)
qed

lemma pushed_store_ok:
  assumes ok: "store_ok s" "queue_ok s q" "push_point s q l"
  shows "store_ok (pushed v q l s)"
proof -
  let ?s = "pushed v q l s" and ?n = "node_count s"
  have l: "l < ?n" "l \<noteq> ?n" using ok by (auto simp: push_point_def)
  have "\<exists>t. ends_at (nxt ?s) x t" for x
  proof (cases "x < ?n")
    case True
    with ok show ?thesis using store_okD(1) ends_at_allocated pushed_ends_at by meson
  next
    case False
    then consider "x = ?n" | "x > ?n" by linarith
    then show ?thesis
    proof cases
      case 1
      with ok show ?thesis using pushed_new_ends_at by blast
    next
      case 2
      then have "nxt ?s x = None"
        using l store_okD(2) [OF ok(1), of x] by (cases "nxt s x") (auto simp: nxt_pushed)
      then show ?thesis by (blast intro: ends_at_self)
    qed
  qed
  moreover have "x < Suc ?n \<and> z < Suc ?n" if "nxt ?s x = Some z" for x z
    using that l ok store_okD(2,3) [OF ok(1)]
    by (auto simp: nxt_pushed queue_ok_def less_Suc_eq split: if_splits)
  moreover have "payload_ref (nodes ?s x) < Suc (payload_count s)" if "x < Suc ?n" for x
    using that l store_okD(4) [OF ok(1)] by (auto simp: payload_ref_pushed less_Suc_eq)
  moreover have "x = y"
    if "x < Suc ?n" "y < Suc ?n" "payload_ref (nodes ?s x) = payload_ref (nodes ?s y)" for x y
    using that l store_okD(4,5) [OF ok(1)]
    by (fastforce simp: payload_ref_pushed less_Suc_eq split: if_splits)
  moreover have "is_claimed ?s (nodes ?s x)" if "x < Suc ?n" "nxt ?s x = None" for x
    using that l ok store_okD(6) [OF ok(1)]
    by (auto simp: nxt_pushed pushed_is_claimed less_Suc_eq split: if_splits)
  ultimately show ?thesis by (simp add: store_ok_def)
qed

lemma pushed_queue_ok:
  assumes ok: "store_ok s" "queue_ok s q" "push_point s q l"
  shows "queue_ok (pushed v q l s) (q\<lparr>q_last := node_count s\<rparr>)"
  using assms pushed_ends_at [OF ok] pushed_new_ends_at [OF ok] pushed_is_claimed [OF ok(1,3)]
  by (auto simp: queue_ok_def)

lemma pushed_consumer_ok:
  assumes ok: "store_ok s" "queue_ok s q" "push_point s q l" and c: "consumer_ok q s c"
  shows "consumer_ok (q\<lparr>q_last := node_count s\<rparr>) (pushed v q l s) c"
  using assms pushed_ends_at [OF ok] by (auto simp: consumer_ok_def queue_ok_def)

lemma pushed_message_ok:
  assumes ok: "store_ok s" "push_point s q l" and m: "message_ok s m"
  shows "message_ok (pushed v q l s) m"
proof -
  from m obtain x where x: "x < node_count s" "nxt s x \<noteq> None" "payload_ref m = payload_ref (nodes s x)"
    by (auto simp: message_ok_def)
  moreover have "l \<noteq> node_count s" using ok by (simp add: push_point_def)
  ultimately show ?thesis
    unfolding message_ok_def
    by (intro exI [of _ x]) (auto simp: nxt_pushed payload_ref_pushed)
qed

text \<open>\<open>push\<close> returns in every well-formed state, and keeps the invariant.\<close>

lemma lmq_push_total:
  assumes "store_ok s" "queue_ok s q"
  obtains l where "push_point s q l"
    and "\<And>v. lmq_push v q s = Some (q\<lparr>q_last := node_count s\<rparr>, pushed v q l s)"
proof -
  from assms(2) obtain as l where l: "chain (nxt s) (q_last q) (as @ [l]) (q_tail q)"
    using last_exists unfolding queue_ok_def by blast
  show thesis
    by (rule that [OF push_point_chain [OF assms(1) l] lmq_push_eq [OF assms l]])
qed

section \<open>\<open>new\<close>\<close>

lemma fresh_nxt: "store_ok s \<Longrightarrow> \<not> x < node_count s \<Longrightarrow> nxt s x = None"
  using store_okD(2) by (metis not_None_eq)

lemma lmq_new_fields:
  assumes "store_ok s"
  shows "nxt (snd (lmq_new s)) = (nxt s)(Suc (node_count s) := Some (node_count s))"
    and "payload_ref (nodes (snd (lmq_new s)) x) =
      (if x = node_count s then payload_count s else if x = Suc (node_count s) then Suc (payload_count s)
       else payload_ref (nodes s x))"
    and "payloads (snd (lmq_new s)) =
      (payloads s)(payload_count s := None, Suc (payload_count s) := None)"
    and "node_count (snd (lmq_new s)) = Suc (Suc (node_count s))"
    and "payload_count (snd (lmq_new s)) = Suc (Suc (payload_count s))"
    and "q_root (fst (lmq_new s)) = Suc (node_count s)" and "q_last (fst (lmq_new s)) = Suc (node_count s)"
    and "q_tail (fst (lmq_new s)) = node_count s"
proof -
  show "nxt (snd (lmq_new s)) = (nxt s)(Suc (node_count s) := Some (node_count s))"
    using fresh_nxt [OF assms, of "node_count s"]
    by (auto simp: lmq_new_def alloc_payload_def alloc_node_def Let_def nxt_def fun_eq_iff)
qed (auto simp: lmq_new_def alloc_payload_def alloc_node_def Let_def)

lemma lmq_new_ends_at:
  assumes "store_ok s" and "ends_at (nxt s) x t" and "x < node_count s"
  shows "ends_at (nxt (snd (lmq_new s))) x t"
  using assms(2,3)
proof (induction rule: ends_at_induct)
  case terminal
  have "t < node_count s" using ends_at_allocated [OF assms] .
  moreover have "nxt s t = None" using assms(2) by (rule ends_at_None)
  ultimately have "nxt (snd (lmq_new s)) t = None" by (simp add: lmq_new_fields(1) [OF assms(1)])
  then show ?case by (rule ends_at_self)
next
  case (step x z)
  then show ?case
    using store_okD(3) [OF assms(1), of x z]
    by (auto simp: lmq_new_fields(1) [OF assms(1)] intro: ends_at_step)
qed

lemma lmq_new_ok:
  assumes "store_ok s"
  shows "store_ok (snd (lmq_new s))" and "queue_ok (snd (lmq_new s)) (fst (lmq_new s))"
proof -
  let ?s = "snd (lmq_new s)" and ?q = "fst (lmq_new s)" and ?n = "node_count s"
  note nx = lmq_new_fields(1) [OF assms] and pr = lmq_new_fields(2) [OF assms]
  note pl = lmq_new_fields(3) [OF assms] and cnt = lmq_new_fields(4,5) [OF assms]
  note q = lmq_new_fields(6-8) [OF assms] and fresh = fresh_nxt [OF assms]
  have tail: "ends_at (nxt ?s) ?n ?n" using fresh by (auto simp: nx intro: ends_at_self)
  then have root: "ends_at (nxt ?s) (Suc ?n) ?n" by (rule ends_at_step [rotated]) (simp add: nx)
  have "\<exists>t. ends_at (nxt ?s) x t" for x
  proof -
    consider "x < ?n" | "x = ?n" | "x = Suc ?n" | "x > Suc ?n" by linarith
    then show ?thesis
    proof cases
      case 1
      with lmq_new_ends_at [OF assms] show ?thesis using store_okD(1) [OF assms] by blast
    next
      case 4
      then have "nxt ?s x = None" using fresh by (simp add: nx)
      then show ?thesis by (blast intro: ends_at_self)
    qed (use tail root in blast)+
  qed
  moreover have "x < Suc (Suc ?n) \<and> z < Suc (Suc ?n)" if "nxt ?s x = Some z" for x z
    using that store_okD(2,3) [OF assms] by (auto simp: nx less_Suc_eq split: if_splits)
  moreover have "payload_ref (nodes ?s x) < Suc (Suc (payload_count s))" if "x < Suc (Suc ?n)" for x
    using that store_okD(4) [OF assms] by (auto simp: pr less_Suc_eq)
  moreover have "x = y" if "x < Suc (Suc ?n)" "y < Suc (Suc ?n)"
    "payload_ref (nodes ?s x) = payload_ref (nodes ?s y)" for x y
    using that store_okD(4,5) [OF assms] by (force simp: pr less_Suc_eq split: if_splits)
  moreover have "is_claimed ?s (nodes ?s x)" if "x < Suc (Suc ?n)" "nxt ?s x = None" for x
    using that store_okD(6) [OF assms]
    by (auto simp: is_claimed_def pr pl nx less_Suc_eq split: if_splits)
  ultimately show "store_ok ?s" by (simp add: store_ok_def cnt)
  show "queue_ok ?s ?q"
    using root by (simp add: queue_ok_def q cnt is_claimed_def pr pl)
qed

end
