(* ===== verification/Lmq_Next.thy ===== *)
theory Lmq_Next
  imports Lmq_Invariant
begin

text \<open>
  \<open>try_next\<close> in closed form: on every well-formed state it returns, it delivers the first unclaimed
  message on the path ahead of the consumer and moves the consumer there, or reports that there is
  none; and it keeps the invariant.
\<close>

section \<open>Rewriting the pointers keeps the invariant\<close>

definition keeps_ends :: "(nref \<Rightarrow> nref option) \<Rightarrow> lmq_store \<Rightarrow> bool" where
  "keeps_ends g s \<longleftrightarrow>
     (\<forall>x t. ends_at (nxt s) x t \<longrightarrow> ends_at g x t) \<and>
     (\<forall>x z. g x = Some z \<longrightarrow> x < node_count s \<and> z < node_count s) \<and>
     (\<forall>x. g x = None \<longleftrightarrow> nxt s x = None)"

lemma with_next_store_ok: "keeps_ends g s \<Longrightarrow> store_ok s \<Longrightarrow> store_ok (with_next g s)"
  unfolding keeps_ends_def store_ok_def by simp metis

lemma with_next_queue_ok: "keeps_ends g s \<Longrightarrow> queue_ok s q \<Longrightarrow> queue_ok (with_next g s) q"
  by (simp add: keeps_ends_def queue_ok_def)

lemma with_next_consumer_ok: "keeps_ends g s \<Longrightarrow> consumer_ok q s c \<Longrightarrow> consumer_ok q (with_next g s) c"
  by (simp add: keeps_ends_def consumer_ok_def)

lemma with_next_message_ok: "keeps_ends g s \<Longrightarrow> message_ok s m \<Longrightarrow> message_ok (with_next g s) m"
  by (simp add: keeps_ends_def message_ok_def)

lemma redirect_keeps_ends:
  assumes "store_ok s" and "chain (nxt s) cur (cur # ds) e"
  shows "keeps_ends (redirect (nxt s) cur cl ds e) s"
proof -
  have cur: "cur < node_count s" and ds: "\<forall>d \<in> set ds. d < node_count s" and e: "e < node_count s"
  proof -
    show "cur < node_count s" using assms store_okD(2) by auto
    show "\<forall>d \<in> set ds. d < node_count s"
      using assms chain_dom store_okD(2) by (metis list.set_intros(2) not_None_eq)
    show "e < node_count s"
      using assms(2) store_okD(3) [OF assms(1)]
      by (cases ds rule: rev_cases) (auto simp: chain_append)
  qed
  obtain u where "ends_at (nxt s) e u" using store_okD(1) [OF assms(1)] by blast
  then have "\<forall>x t. ends_at (nxt s) x t \<longrightarrow> ends_at (redirect (nxt s) cur cl ds e) x t"
    using assms(2) redirect_ends_at by blast
  moreover have "x < node_count s \<and> z < node_count s"
    if "redirect (nxt s) cur cl ds e x = Some z" for x z
    using that cur ds e store_okD(2,3) [OF assms(1)]
    by (auto simp: redirect_def split: if_splits)
  moreover have "redirect (nxt s) cur cl ds e x = None \<longleftrightarrow> nxt s x = None" for x
    using assms(2) chain_dom [OF assms(2), of x] by (auto simp: redirect_def)
  ultimately show ?thesis by (simp add: keeps_ends_def)
qed

section \<open>The closed form of \<open>try_next\<close>\<close>

text \<open>The store after the automatic drop check at the current node.\<close>

definition passed :: "message_consumer \<Rightarrow> lmq_store \<Rightarrow> lmq_store" where
  "passed c s =
     (if autodrop s then check_should_now_autodrop (mc_id c) (mc_current c) s else s)"

lemma passed_same_shape: "same_shape s (passed c s)"
  by (simp add: passed_def check_same_shape)

lemma passed_nxt [simp]: "nxt (passed c s) = nxt s"
  by (rule same_shapeD(1) [OF passed_same_shape])

lemma passed_node_count [simp]: "node_count (passed c s) = node_count s"
  by (rule same_shapeD(2) [OF passed_same_shape])

lemma passed_payload_ref [simp]: "payload_ref (nodes (passed c s) x) = payload_ref (nodes s x)"
  by (rule same_shapeD(4) [OF passed_same_shape])

lemma passed_payloads:
  "p \<noteq> payload_ref (nodes s (mc_current c)) \<Longrightarrow> payloads (passed c s) p = payloads s p"
  by (simp add: passed_def check_payloads_other)

lemma passed_claimed:
  assumes "store_ok s" "consumer_ok q s c" "x < node_count s" "x \<noteq> mc_current c"
  shows "is_claimed (passed c s) (nodes (passed c s) x) = is_claimed s (nodes s x)"
  using assms by (auto simp: passed_def consumer_ok_def check_claimed_other)

text \<open>\<open>ahead\<close>: the claimed nodes \<open>ds\<close> between the consumer and its exit \<open>e\<close>.\<close>

definition ahead ::
  "lmq_store \<Rightarrow> link_message_queue \<Rightarrow> nref \<Rightarrow> nref list \<Rightarrow> nref \<Rightarrow> bool" where
  "ahead s q cur ds e \<longleftrightarrow>
     chain (nxt s) cur (cur # ds) e \<and> ends_at (nxt s) e (q_tail q) \<and>
     (\<forall>d \<in> set ds. is_claimed s (nodes s d)) \<and>
     (e = q_tail q \<or> \<not> is_claimed s (nodes s e))"

lemma ahead_exists:
  assumes "ends_at (nxt s) cur (q_tail q)" and "cur \<noteq> q_tail q"
  shows "\<exists>ds e. ahead s q cur ds e"
proof -
  from assms(1) obtain as where as: "chain (nxt s) cur as (q_tail q)" and t: "nxt s (q_tail q) = None"
    by (rule ends_atE)
  with assms(2) obtain bs n where bs: "as = cur # bs" and n: "nxt s cur = Some n"
    and path: "chain (nxt s) n bs (q_tail q)"
    by (cases as) auto
  obtain ds e cs where "bs = ds @ cs" and ds: "chain (nxt s) n ds e" and cs: "chain (nxt s) e cs (q_tail q)"
    and cl: "\<forall>d \<in> set ds. is_claimed s (nodes s d)" and e: "\<not> is_claimed s (nodes s e) \<or> nxt s e = None"
    using stop_exists [OF path t, of "\<lambda>d. is_claimed s (nodes s d)"] by metis
  from cs t have end_e: "ends_at (nxt s) e (q_tail q)" by (rule ends_atI)
  moreover have "e = q_tail q" if "nxt s e = None"
    using end_e ends_at_self [of "nxt s" e] that ends_at_unique by blast
  ultimately show ?thesis
    using n ds cl e unfolding ahead_def by (metis chain.simps(2))
qed

lemma ahead_facts:
  assumes "ahead s q cur ds e"
  shows "distinct (cur # ds)" and "e \<notin> set (cur # ds)" and "nxt s e = None \<longleftrightarrow> e = q_tail q"
proof -
  from assms obtain es where full: "chain (nxt s) cur ((cur # ds) @ es) (q_tail q)"
    and es: "chain (nxt s) e es (q_tail q)" and t: "nxt s (q_tail q) = None"
    unfolding ahead_def by (metis chain_append ends_atE)
  from full t have dist: "distinct ((cur # ds) @ es)" by (rule chain_distinct)
  then show "distinct (cur # ds)" by simp
  have "q_tail q \<notin> set ((cur # ds) @ es)" using full t by (rule chain_end_notin)
  moreover have "e = q_tail q \<or> e \<in> set es" using es by (cases es) auto
  ultimately show "e \<notin> set (cur # ds)" using dist by auto
  show "nxt s e = None \<longleftrightarrow> e = q_tail q"
    using es t by (cases es) auto
qed

text \<open>The store \<open>try_next\<close> leaves behind.\<close>

definition moved :: "message_consumer \<Rightarrow> nref list \<Rightarrow> nref \<Rightarrow> lmq_store \<Rightarrow> lmq_store" where
  "moved c ds e s =
     (let s1 = passed c s; cur = mc_current c
      in with_next (redirect (nxt s) cur (is_claimed s1 (nodes s1 cur)) ds e) s1)"

theorem try_next_eq:
  assumes ok: "store_ok s" "consumer_ok q s c" and a: "ahead s q (mc_current c) ds e"
  shows "try_next c s = Some
    (if e = q_tail q then (None, c, moved c ds e s)
     else (Some (nodes (moved c ds e s) e), c\<lparr>mc_current := e\<rparr>, moved c ds e s))"
proof -
  let ?cur = "mc_current c" and ?s1 = "passed c s"
  obtain n where n: "nxt s ?cur = Some n" and path: "chain (nxt s) n ds e"
    using a by (auto simp: ahead_def)
  have lt: "x < node_count s" if "x \<in> set ds" for x
    using path that chain_dom store_okD(2) [OF ok(1)] by (metis not_None_eq)
  have elt: "e < node_count s"
    using path n store_okD(3) [OF ok(1)] by (cases ds rule: rev_cases) (auto simp: chain_append)
  note f = ahead_facts [OF a]
  have "\<forall>d \<in> set ds. is_claimed ?s1 (nodes ?s1 d)"
    using a f lt passed_claimed [OF ok] by (fastforce simp: ahead_def)
  moreover have "\<not> is_claimed ?s1 (nodes ?s1 e) \<or> nxt ?s1 e = None"
    using a f elt passed_claimed [OF ok, of e] by (auto simp: ahead_def)
  ultimately have "prune_loop ?cur (is_claimed ?s1 (nodes ?s1 ?cur)) (Some n) ?s1 =
      Some (if nxt s e \<noteq> None then Some e else None, moved c ds e s)"
    using path f by (subst prune_loop_eq [of ?s1 n ds e]) (auto simp: moved_def Let_def)
  then show ?thesis
    using f n by (auto simp: try_next_def Let_def passed_def [symmetric])
qed

lemma moved_simps [simp]:
  "node_count (moved c ds e s) = node_count s"
  "payload_count (moved c ds e s) = payload_count s"
  "payload_ref (nodes (moved c ds e s) x) = payload_ref (nodes s x)"
  "payloads (moved c ds e s) = payloads (passed c s)"
  "target_consumers (nodes (moved c ds e s) x) = target_consumers (nodes (passed c s) x)"
  "autodrop (moved c ds e s) = autodrop s"
  using same_shapeD [OF passed_same_shape] by (simp_all add: moved_def Let_def)

lemma nxt_moved:
  "nxt (moved c ds e s) =
     redirect (nxt s) (mc_current c) (is_claimed (passed c s) (nodes (passed c s) (mc_current c))) ds e"
  by (simp add: moved_def Let_def)

lemma moved_claimed:
  "is_claimed (moved c ds e s) (nodes (moved c ds e s) x) = is_claimed (passed c s) (nodes (passed c s) x)"
  by (simp add: is_claimed_def)

section \<open>\<open>try_next\<close> keeps the invariant\<close>

lemma moved_keeps_ends:
  assumes "store_ok s" and "ahead s q (mc_current c) ds e"
  shows "keeps_ends (redirect (nxt s) (mc_current c) cl ds e) (passed c s)"
  using redirect_keeps_ends [of s "mc_current c" ds e cl] assms
  by (simp add: ahead_def keeps_ends_def)

lemma moved_store_ok:
  "store_ok s \<Longrightarrow> ahead s q (mc_current c) ds e \<Longrightarrow> store_ok (moved c ds e s)"
  unfolding moved_def Let_def
  by (intro with_next_store_ok moved_keeps_ends same_shape_store_ok [OF passed_same_shape])

lemma moved_queue_ok:
  "store_ok s \<Longrightarrow> queue_ok s q \<Longrightarrow> ahead s q (mc_current c) ds e \<Longrightarrow> queue_ok (moved c ds e s) q"
  unfolding moved_def Let_def
  by (intro with_next_queue_ok moved_keeps_ends same_shape_queue_ok [OF passed_same_shape])

lemma moved_consumer_ok:
  "store_ok s \<Longrightarrow> consumer_ok q s c' \<Longrightarrow> ahead s q (mc_current c) ds e \<Longrightarrow>
     consumer_ok q (moved c ds e s) c'"
  unfolding moved_def Let_def
  by (intro with_next_consumer_ok moved_keeps_ends same_shape_consumer_ok [OF passed_same_shape])

lemma moved_message_ok:
  "store_ok s \<Longrightarrow> message_ok s m \<Longrightarrow> ahead s q (mc_current c) ds e \<Longrightarrow> message_ok (moved c ds e s) m"
  unfolding moved_def Let_def
  by (intro with_next_message_ok moved_keeps_ends same_shape_message_ok [OF passed_same_shape])

lemma moved_mover_ok:
  assumes "store_ok s" "consumer_ok q s c" "ahead s q (mc_current c) ds e" "e \<noteq> q_tail q"
  shows "consumer_ok q (moved c ds e s) (c\<lparr>mc_current := e\<rparr>)"
proof -
  have "ends_at (nxt s) e (q_tail q)" and "e < node_count s"
  proof -
    show *: "ends_at (nxt s) e (q_tail q)" using assms(3) by (simp add: ahead_def)
    have "nxt s e \<noteq> None" using ahead_facts(3) [OF assms(3)] assms(4) by simp
    then show "e < node_count s" using store_okD(2) [OF assms(1)] by auto
  qed
  with assms have "consumer_ok q s (c\<lparr>mc_current := e\<rparr>)" by (simp add: consumer_ok_def)
  with assms show ?thesis by (intro moved_consumer_ok)
qed

lemma delivered_message_ok:
  assumes "store_ok s" "ahead s q (mc_current c) ds e" "e \<noteq> q_tail q"
  shows "message_ok (moved c ds e s) (nodes (moved c ds e s) e)"
proof -
  have "nxt s e \<noteq> None" using ahead_facts(3) [OF assms(2)] assms(3) by simp
  moreover from this have "e < node_count s" using store_okD(2) [OF assms(1)] by auto
  moreover have "e \<noteq> mc_current c" "e \<notin> set ds" using ahead_facts(2) [OF assms(2)] by auto
  ultimately show ?thesis
    unfolding message_ok_def by (intro exI [of _ e]) (simp add: nxt_moved)
qed

lemma delivered_unclaimed:
  assumes ok: "store_ok s" "consumer_ok q s c" and a: "ahead s q (mc_current c) ds e"
    and e: "e \<noteq> q_tail q"
  shows "read_message (moved c ds e s) (nodes (moved c ds e s) e) = payloads s (payload_ref (nodes s e))"
    and "payloads s (payload_ref (nodes s e)) \<noteq> None"
proof -
  have "nxt s e \<noteq> None" using ahead_facts(3) [OF a] e by simp
  then have lt: "e < node_count s" using store_okD(2) [OF ok(1)] by auto
  have "e \<noteq> mc_current c" using ahead_facts(2) [OF a] by auto
  then have "payload_ref (nodes s e) \<noteq> payload_ref (nodes s (mc_current c))"
    using ok lt store_okD(5) by (auto simp: consumer_ok_def)
  then show "read_message (moved c ds e s) (nodes (moved c ds e s) e) = payloads s (payload_ref (nodes s e))"
    by (simp add: read_message_def passed_payloads split: option.split)
  show "payloads s (payload_ref (nodes s e)) \<noteq> None"
    using a e by (auto simp: ahead_def is_claimed_def)
qed

end
