(* ===== verification/Lmq_System.thy ===== *)
theory Lmq_System
  imports Lmq_Next Event_Machine
begin

text \<open>
  A queue with its clients: any number of consumers, the messages they hold, and every operation of
  \<^verbatim>\<open>lmq/src/lib.rs\<close> in any order. A step is one call; its event is what the caller sees. Whatever
  the order, every call returns, and what is delivered is an unclaimed payload.
\<close>

section \<open>Clients and their calls\<close>

record lmq_system =
  sy_queue :: link_message_queue
  sy_store :: lmq_store
  sy_consumers :: "message_consumer option list"
  sy_held :: "next_message list"

datatype lmq_op = Push "byte list" | NewConsumer u64 | TryNext nat | Claim nat | DropConsumer nat

datatype lmq_event =
    Pushed "byte list"
  | Created
  | Delivered nat "byte list option"
  | Nothing nat
  | Claimed nat "byte list option"
  | Dropped nat
  | Ignored

definition consumer_at :: "lmq_system \<Rightarrow> nat \<Rightarrow> message_consumer option" where
  "consumer_at y i = (if i < length (sy_consumers y) then sy_consumers y ! i else None)"

fun sys_step :: "lmq_op \<Rightarrow> lmq_system \<Rightarrow> (lmq_event \<times> lmq_system) option" where
  "sys_step (Push v) y =
     (case lmq_push v (sy_queue y) (sy_store y) of
        None \<Rightarrow> None
      | Some (q, s) \<Rightarrow> Some (Pushed v, y\<lparr>sy_queue := q, sy_store := s\<rparr>))"
| "sys_step (NewConsumer cid) y =
     (let (c, s) = create_consumer cid (sy_queue y) (sy_store y)
      in Some (Created, y\<lparr>sy_store := s, sy_consumers := sy_consumers y @ [Some c]\<rparr>))"
| "sys_step (TryNext i) y =
     (case consumer_at y i of
        None \<Rightarrow> Some (Ignored, y)
      | Some c \<Rightarrow>
          (case try_next c (sy_store y) of
             None \<Rightarrow> None
           | Some (None, c, s) \<Rightarrow>
               Some (Nothing i, y\<lparr>sy_store := s, sy_consumers := (sy_consumers y)[i := Some c]\<rparr>)
           | Some (Some m, c, s) \<Rightarrow>
               Some (Delivered i (read_message s m),
                 y\<lparr>sy_store := s, sy_consumers := (sy_consumers y)[i := Some c],
                   sy_held := sy_held y @ [m]\<rparr>)))"
| "sys_step (Claim k) y =
     (if k < length (sy_held y) then
        (let (v, s) = claim (sy_held y ! k) (sy_store y)
         in Some (Claimed k v, y\<lparr>sy_store := s\<rparr>))
      else Some (Ignored, y))"
| "sys_step (DropConsumer i) y =
     (case consumer_at y i of
        None \<Rightarrow> Some (Ignored, y)
      | Some c \<Rightarrow>
          Some (Dropped i, y\<lparr>sy_store := drop_consumer c (sy_store y),
                             sy_consumers := (sy_consumers y)[i := None]\<rparr>))"

definition sys_init :: "bool \<Rightarrow> lmq_system" where
  "sys_init ad =
     (let (q, s) = lmq_new (empty_store ad)
      in \<lparr>sy_queue = q, sy_store = s, sy_consumers = [], sy_held = []\<rparr>)"

section \<open>The invariant of the system\<close>

definition sys_ok :: "lmq_system \<Rightarrow> bool" where
  "sys_ok y \<longleftrightarrow>
     store_ok (sy_store y) \<and> queue_ok (sy_store y) (sy_queue y) \<and>
     (\<forall>c. Some c \<in> set (sy_consumers y) \<longrightarrow> consumer_ok (sy_queue y) (sy_store y) c) \<and>
     (\<forall>m \<in> set (sy_held y). message_ok (sy_store y) m)"

text \<open>A delivered message is readable.\<close>

definition readable :: "lmq_event \<Rightarrow> bool" where
  "readable ev \<longleftrightarrow> (case ev of Delivered i v \<Rightarrow> v \<noteq> None | _ \<Rightarrow> True)"

lemma store_ok_empty: "store_ok (empty_store ad)"
proof -
  have "nxt (empty_store ad) = (\<lambda>_. None)"
    by (simp add: empty_store_def nxt_def fun_eq_iff)
  then show ?thesis
    by (auto simp: store_ok_def empty_store_def intro: ends_at_self)
qed

lemma sys_ok_init: "sys_ok (sys_init ad)"
  using lmq_new_ok [OF store_ok_empty, of ad]
  by (simp add: sys_init_def sys_ok_def Let_def split_def)

lemma consumer_at_ok:
  "sys_ok y \<Longrightarrow> consumer_at y i = Some c \<Longrightarrow> consumer_ok (sy_queue y) (sy_store y) c"
  by (auto simp: sys_ok_def consumer_at_def split: if_splits) (metis nth_mem)

lemma in_set_update: "x \<in> set (xs[i := a]) \<Longrightarrow> x = a \<or> x \<in> set xs"
  using set_update_subset_insert by fastforce

lemma same_shape_sys_ok:
  assumes "sys_ok y" and "same_shape (sy_store y) s"
    and "\<And>c. Some c \<in> set cs \<Longrightarrow> Some c \<in> set (sy_consumers y) \<or> consumer_ok (sy_queue y) s c"
  shows "sys_ok (y\<lparr>sy_store := s, sy_consumers := cs\<rparr>)"
  using assms same_shape_store_ok same_shape_queue_ok same_shape_consumer_ok same_shape_message_ok
  by (fastforce simp: sys_ok_def)

lemma sys_step_push:
  assumes "sys_ok y"
  shows "\<exists>ev y'. sys_step (Push v) y = Some (ev, y') \<and> sys_ok y' \<and> readable ev"
proof -
  from assms have ok: "store_ok (sy_store y)" "queue_ok (sy_store y) (sy_queue y)"
    by (simp_all add: sys_ok_def)
  obtain l where l: "push_point (sy_store y) (sy_queue y) l"
    and p: "\<And>v. lmq_push v (sy_queue y) (sy_store y) =
      Some (sy_queue y\<lparr>q_last := node_count (sy_store y)\<rparr>, pushed v (sy_queue y) l (sy_store y))"
    using lmq_push_total [OF ok] by metis
  show ?thesis
    using assms l ok pushed_store_ok pushed_queue_ok pushed_consumer_ok pushed_message_ok
    by (simp add: p sys_ok_def readable_def)
qed

lemma sys_step_try_next:
  assumes y: "sys_ok y"
  shows "\<exists>ev y'. sys_step (TryNext i) y = Some (ev, y') \<and> sys_ok y' \<and> readable ev"
proof (cases "consumer_at y i")
  case None
  with y show ?thesis by (simp add: readable_def)
next
  case (Some c)
  let ?s = "sy_store y" and ?q = "sy_queue y"
  from y have ok: "store_ok ?s" "queue_ok ?s ?q" by (simp_all add: sys_ok_def)
  from consumer_at_ok [OF y Some] have c: "consumer_ok ?q ?s c" .
  then obtain ds e where a: "ahead ?s ?q (mc_current c) ds e"
    using ahead_exists unfolding consumer_ok_def by blast
  let ?s' = "moved c ds e ?s"
  have cs: "consumer_ok ?q ?s' c'" if "Some c' \<in> set ((sy_consumers y)[i := Some c''])"
    "consumer_ok ?q ?s' c''" for c' c''
    using in_set_update [OF that(1)] that(2) y moved_consumer_ok [OF ok(1) _ a]
    by (auto simp: sys_ok_def)
  have held: "message_ok ?s' m" if "m \<in> set (sy_held y)" for m
    using that y moved_message_ok [OF ok(1) _ a] by (auto simp: sys_ok_def)
  note eq = try_next_eq [OF ok(1) c a]
  show ?thesis
  proof (cases "e = q_tail ?q")
    case True
    have "sys_ok (y\<lparr>sy_store := ?s', sy_consumers := (sy_consumers y)[i := Some c]\<rparr>)"
      using ok moved_store_ok [OF ok(1) a] moved_queue_ok [OF ok a] held
        cs [OF _ moved_consumer_ok [OF ok(1) c a]]
      by (auto simp: sys_ok_def)
    with True Some eq show ?thesis by (simp add: readable_def)
  next
    case False
    let ?c = "c\<lparr>mc_current := e\<rparr>" and ?m = "nodes ?s' e"
    have "sys_ok (y\<lparr>sy_store := ?s', sy_consumers := (sy_consumers y)[i := Some ?c],
        sy_held := sy_held y @ [?m]\<rparr>)"
      using ok moved_store_ok [OF ok(1) a] moved_queue_ok [OF ok a] held
        cs [OF _ moved_mover_ok [OF ok(1) c a False]] delivered_message_ok [OF ok(1) a False]
      by (auto simp: sys_ok_def)
    moreover have "read_message ?s' ?m \<noteq> None"
      using delivered_unclaimed [OF ok(1) c a False] by simp
    ultimately show ?thesis using False Some eq by (simp add: readable_def)
  qed
qed

lemma sys_step_claim:
  assumes "sys_ok y"
  shows "\<exists>ev y'. sys_step (Claim k) y = Some (ev, y') \<and> sys_ok y' \<and> readable ev"
proof -
  have "sys_ok (y\<lparr>sy_store := snd (claim m (sy_store y)), sy_consumers := sy_consumers y\<rparr>)" for m
    using assms claim_same_shape by (intro same_shape_sys_ok) auto
  then have "sys_ok (y\<lparr>sy_store := snd (claim m (sy_store y))\<rparr>)" for m by simp
  then show ?thesis using assms by (simp add: readable_def Let_def split_def)
qed

lemma sys_step_new_consumer:
  assumes "sys_ok y"
  shows "\<exists>ev y'. sys_step (NewConsumer i) y = Some (ev, y') \<and> sys_ok y' \<and> readable ev"
proof -
  let ?c = "fst (create_consumer i (sy_queue y) (sy_store y))"
  let ?s = "snd (create_consumer i (sy_queue y) (sy_store y))"
  have "sys_ok (y\<lparr>sy_store := ?s, sy_consumers := sy_consumers y @ [Some ?c]\<rparr>)"
    using assms create_consumer_same_shape create_consumer_ok
    by (intro same_shape_sys_ok) (auto simp: sys_ok_def)
  then show ?thesis by (simp add: readable_def Let_def split_def)
qed

lemma sys_step_drop_consumer:
  assumes "sys_ok y"
  shows "\<exists>ev y'. sys_step (DropConsumer i) y = Some (ev, y') \<and> sys_ok y' \<and> readable ev"
proof (cases "consumer_at y i")
  case None
  with assms show ?thesis by (simp add: readable_def)
next
  case (Some c)
  have "sys_ok (y\<lparr>sy_store := drop_consumer c (sy_store y),
      sy_consumers := (sy_consumers y)[i := None]\<rparr>)"
    using assms drop_consumer_same_shape
    by (intro same_shape_sys_ok) (auto dest: in_set_update)
  with Some show ?thesis by (simp add: readable_def)
qed

interpretation lmq: invariant_machine sys_step sys_ok readable
proof
  show "\<exists>ev y'. sys_step x y = Some (ev, y') \<and> sys_ok y' \<and> readable ev" if "sys_ok y" for y x
    using that
    by (cases x) (blast intro: sys_step_push sys_step_new_consumer sys_step_try_next sys_step_claim
        sys_step_drop_consumer)+
qed

end
