(* ===== verification/Lmq_Fifo.thy ===== *)
theory Lmq_Fifo
  imports Lmq_System
begin

text \<open>
  One consumer, created before the first message: the queue is a FIFO. Its whole behaviour (what
  \<open>push\<close>, \<open>try_next\<close>, \<open>claim\<close> and dropping the consumer return, with the automatic drop of a message
  the consumer has moved past) is that of a small abstract machine over lists, event by event.
\<close>

section \<open>The list regime\<close>

text \<open>While no claimed node lies ahead of a consumer, the graph is a list from the root.\<close>

definition lin :: "lmq_store \<Rightarrow> link_message_queue \<Rightarrow> nref list \<Rightarrow> bool" where
  "lin s q ms \<longleftrightarrow>
     chain (nxt s) (q_root q) (q_root q # ms) (q_tail q) \<and>
     q_last q = last (q_root q # ms) \<and> nxt s (q_tail q) = None"

definition cell :: "lmq_store \<Rightarrow> nref \<Rightarrow> pref" where
  "cell s n = payload_ref (nodes s n)"

definition contents :: "lmq_store \<Rightarrow> nref list \<Rightarrow> byte list option list" where
  "contents s ms = map (\<lambda>n. payloads s (cell s n)) ms"

lemma length_contents [simp]: "length (contents s ms) = length ms"
  by (simp add: contents_def)

lemma lin_distinct: "lin s q ms \<Longrightarrow> distinct (q_root q # ms)"
  unfolding lin_def by (blast intro: chain_distinct)

lemma lin_allocated: "store_ok s \<Longrightarrow> lin s q ms \<Longrightarrow> n \<in> set (q_root q # ms) \<Longrightarrow> n < node_count s"
  unfolding lin_def using chain_dom store_okD(2) by (metis not_None_eq)

lemma lin_suffix:
  assumes "lin s q ms" and "p \<le> length ms"
  shows "nxt s ((q_root q # ms) ! p) = Some (if p < length ms then ms ! p else q_tail q)"
    and "ends_at (nxt s) (if p < length ms then ms ! p else q_tail q) (q_tail q)"
proof -
  let ?as = "q_root q # ms"
  have "?as = take p ?as @ ?as ! p # drop p ms"
    using assms(2) by (metis Cons_nth_drop_Suc drop_Suc_Cons id_take_nth_drop le_imp_less_Suc length_Cons)
  with assms(1) have "chain (nxt s) (?as ! p) (?as ! p # drop p ms) (q_tail q)"
    unfolding lin_def by (metis chain_append chain.simps(2))
  then obtain z where z: "nxt s (?as ! p) = Some z" "chain (nxt s) z (drop p ms) (q_tail q)"
    by auto
  moreover have "z = (if p < length ms then ms ! p else q_tail q)"
  proof (cases "p < length ms")
    case True
    with z(2) show ?thesis by (auto simp: Cons_nth_drop_Suc [symmetric])
  next
    case False
    with z(2) show ?thesis by simp
  qed
  moreover have "nxt s (q_tail q) = None" using assms(1) by (simp add: lin_def)
  ultimately show "nxt s (?as ! p) = Some (if p < length ms then ms ! p else q_tail q)"
    and "ends_at (nxt s) (if p < length ms then ms ! p else q_tail q) (q_tail q)"
    by (auto intro: ends_atI ends_at_self)
qed

lemma lin_ahead:
  assumes "lin s q ms" and "p \<le> length ms"
    and "p < length ms \<Longrightarrow> contents s ms ! p \<noteq> None"
  shows "ahead s q ((q_root q # ms) ! p) [] (if p < length ms then ms ! p else q_tail q)"
  using lin_suffix [OF assms(1,2)] assms(3)
  by (auto simp: ahead_def contents_def cell_def is_claimed_def)

lemma moved_Nil: "nxt s (mc_current c) = Some e \<Longrightarrow> moved c [] e s = passed c s"
  using with_next_self [of "passed c s"] by (simp add: moved_def Let_def redirect_Nil)

lemma lin_same_shape: "same_shape s s' \<Longrightarrow> lin s q ms \<Longrightarrow> lin s' q ms"
  by (simp add: lin_def same_shapeD(1))

lemma lin_push_point:
  assumes "store_ok s" and "lin s q ms"
  shows "push_point s q (q_last q)"
    and "chain (nxt s) (q_last q) ([] @ [q_last q]) (q_tail q)"
proof -
  have "nxt s (q_last q) = Some (q_tail q)"
  proof -
    have "(q_root q # ms) ! length ms = last (q_root q # ms)"
      by (metis diff_Suc_1 last_conv_nth length_Cons list.distinct(1))
    moreover have "q_last q = last (q_root q # ms)" using assms(2) by (simp add: lin_def)
    ultimately show ?thesis using lin_suffix(1) [OF assms(2) order_refl] by simp
  qed
  with store_okD(2) [OF assms(1)]
  show "push_point s q (q_last q)" "chain (nxt s) (q_last q) ([] @ [q_last q]) (q_tail q)"
    by (auto simp: push_point_def)
qed

lemma lin_push:
  assumes ok: "store_ok s" and q: "queue_ok s q" and l: "lin s q ms"
  shows "lmq_push v q s = Some (q\<lparr>q_last := node_count s\<rparr>, pushed v q (q_last q) s)"
    and "lin (pushed v q (q_last q) s) (q\<lparr>q_last := node_count s\<rparr>) (ms @ [node_count s])"
    and "contents (pushed v q (q_last q) s) (ms @ [node_count s]) = contents s ms @ [Some v]"
proof -
  let ?n = "node_count s" and ?s = "pushed v q (q_last q) s"
  note pp = lin_push_point [OF ok l]
  show "lmq_push v q s = Some (q\<lparr>q_last := ?n\<rparr>, ?s)"
    by (rule lmq_push_eq [OF ok q pp(2)])
  let ?as = "butlast (q_root q # ms)"
  have as: "q_root q # ms = ?as @ [q_last q]"
    using l unfolding lin_def by (metis append_butlast_last_id list.distinct(1))
  have lt: "x < ?n" if "x \<in> set (q_root q # ms)" for x
    using lin_allocated [OF ok l that] .
  have dist: "distinct (?as @ [q_last q])"
    using lin_distinct [OF l] by (simp only: as [symmetric])
  have "chain (nxt s) (q_root q) (q_root q # ms) (q_tail q)"
    using l unfolding lin_def by blast
  then have "chain (nxt s) (q_root q) (?as @ [q_last q]) (q_tail q)" by (metis as)
  then have "chain (nxt s) (q_root q) ?as (q_last q)" by (simp only: chain_snoc)
  moreover have "nxt ?s x = nxt s x" if "x \<in> set ?as" for x
  proof -
    have "x \<in> set (q_root q # ms)" using that by (subst as) simp
    then show ?thesis using lt [of x] dist that by (auto simp: nxt_pushed)
  qed
  ultimately have "chain (nxt ?s) (q_root q) ?as (q_last q)"
    by (subst chain_cong [of _ _ "nxt s"]) auto
  moreover have "nxt ?s (q_last q) = Some ?n" "nxt ?s ?n = Some (q_tail q)"
    using pp(1) by (auto simp: nxt_pushed push_point_def)
  ultimately have c: "chain (nxt ?s) (q_root q) (?as @ [q_last q, ?n]) (q_tail q)"
    by (auto simp: chain_append)
  have eq: "?as @ [q_last q, ?n] = q_root q # ms @ [?n]"
    by (metis append_Cons append_assoc as append_Nil)
  have "chain (nxt ?s) (q_root q) (q_root q # ms @ [?n]) (q_tail q)"
    using c unfolding eq .
  moreover have "nxt ?s (q_tail q) = None"
    using queue_ok_tail [OF q] q pp(1) by (auto simp: nxt_pushed queue_ok_def push_point_def)
  ultimately show "lin ?s (q\<lparr>q_last := ?n\<rparr>) (ms @ [?n])"
    by (simp add: lin_def)
  have "q_last q \<noteq> ?n" using pp(1) by (simp add: push_point_def)
  then show "contents ?s (ms @ [?n]) = contents s ms @ [Some v]"
    using lt store_okD(4) [OF ok]
    by (fastforce simp: contents_def cell_def payload_ref_pushed)
qed

lemma map_upd_distinct:
  assumes "distinct (map g xs)" and "k < length xs"
  shows "map (\<lambda>n. (f(g (xs ! k) := v)) (g n)) xs = (map (\<lambda>n. f (g n)) xs)[k := v]"
proof (rule nth_equalityI)
  fix i assume "i < length (map (\<lambda>n. (f(g (xs ! k) := v)) (g n)) xs)"
  with assms show "map (\<lambda>n. (f(g (xs ! k) := v)) (g n)) xs ! i = (map (\<lambda>n. f (g n)) xs)[k := v] ! i"
    using nth_eq_iff_index_eq [OF assms(1), of i k] by (simp add: nth_list_update)
qed simp

lemma lin_cells_distinct:
  assumes "store_ok s" and "lin s q ms"
  shows "distinct (map (cell s) ms)"
proof -
  have "inj_on (cell s) (set ms)"
  proof (rule inj_onI)
    fix x y assume "x \<in> set ms" "y \<in> set ms" "cell s x = cell s y"
    with assms show "x = y"
      using lin_allocated store_okD(5) by (simp add: cell_def)
  qed
  with lin_distinct [OF assms(2)] show ?thesis by (simp add: distinct_map)
qed

text \<open>Clearing one payload cell of the list.\<close>

lemma contents_clear:
  assumes "store_ok s" "lin s q ms" "k < length ms"
    and "payloads s' = (payloads s)(cell s (ms ! k) := None)"
    and "\<And>x. payload_ref (nodes s' x) = payload_ref (nodes s x)"
  shows "contents s' ms = (contents s ms)[k := None]"
  using map_upd_distinct [OF lin_cells_distinct [OF assms(1,2)] assms(3)] assms(4,5)
  by (simp add: contents_def cell_def)

section \<open>The abstract FIFO\<close>

record fifo =
  f_pending :: "byte list list"
  f_held :: "byte list option list"
  f_open :: bool
  f_autodrop :: bool

text \<open>With the feature, moving on from a message drops it.\<close>

definition pass_last :: "fifo \<Rightarrow> fifo" where
  "pass_last a =
     (if f_autodrop a \<and> f_held a \<noteq> []
      then a\<lparr>f_held := (f_held a)[length (f_held a) - 1 := None]\<rparr> else a)"

fun fifo_step :: "lmq_op \<Rightarrow> fifo \<Rightarrow> lmq_event \<times> fifo" where
  "fifo_step (Push v) a = (Pushed v, a\<lparr>f_pending := f_pending a @ [v]\<rparr>)"
| "fifo_step (NewConsumer cid) a = (Created, a)"
| "fifo_step (TryNext i) a =
     (if i = 0 \<and> f_open a then
        (case f_pending a of
           [] \<Rightarrow> (Nothing i, pass_last a)
         | v # vs \<Rightarrow>
             (let a = pass_last a
              in (Delivered i (Some v), a\<lparr>f_pending := vs, f_held := f_held a @ [Some v]\<rparr>)))
      else (Ignored, a))"
| "fifo_step (Claim k) a =
     (if k < length (f_held a)
      then (Claimed k (f_held a ! k), a\<lparr>f_held := (f_held a)[k := None]\<rparr>)
      else (Ignored, a))"
| "fifo_step (DropConsumer i) a =
     (if i = 0 \<and> f_open a then (Dropped i, (pass_last a)\<lparr>f_open := False\<rparr>) else (Ignored, a))"

section \<open>The simulation\<close>

definition targets_only :: "u64 \<Rightarrow> lmq_store \<Rightarrow> nref \<Rightarrow> bool" where
  "targets_only i s n \<longleftrightarrow>
     (if autodrop s then \<exists>tc. target_consumers (nodes s n) = Some tc \<and> hm_remove i tc = []
      else target_consumers (nodes s n) = None)"

lemma passed_root:
  "target_consumers (nodes s (mc_current c)) = None \<Longrightarrow> passed c s = s"
  by (simp add: passed_def check_should_now_autodrop_def)

text \<open>What the drop check does to the list when the consumer is the only target.\<close>

lemma passed_contents:
  assumes ok: "store_ok s" and l: "lin s q ms"
    and t: "\<forall>n \<in> set ms. targets_only i s n" and root: "target_consumers (nodes s (q_root q)) = None"
    and c: "mc_id c = i" "mc_current c = (q_root q # ms) ! p" "p \<le> length ms"
  shows "contents (passed c s) ms =
      (if autodrop s \<and> 0 < p then (contents s ms)[p - 1 := None] else contents s ms)"
    and "\<forall>n \<in> set ms. targets_only i (passed c s) n"
    and "target_consumers (nodes (passed c s) (q_root q)) = None"
    and "active (passed c s) = active s"
    and "live (passed c s) = live s"
proof -
  consider "\<not> autodrop s \<or> p = 0" | "autodrop s" "0 < p" by auto
  then have "contents (passed c s) ms =
      (if autodrop s \<and> 0 < p then (contents s ms)[p - 1 := None] else contents s ms) \<and>
    (\<forall>n \<in> set ms. targets_only i (passed c s) n) \<and>
    target_consumers (nodes (passed c s) (q_root q)) = None \<and> active (passed c s) = active s \<and>
    live (passed c s) = live s"
  proof cases
    case 1
    then have "passed c s = s"
    proof
      assume "p = 0"
      with root c(2) show ?thesis by (intro passed_root) simp
    qed (simp add: passed_def)
    with 1 t root show ?thesis by auto
  next
    case 2
    let ?n = "ms ! (p - 1)"
    have cur: "mc_current c = ?n" "?n \<in> set ms" using 2 c by (auto simp: nth_Cons')
    with t 2 obtain tc where tc: "target_consumers (nodes s ?n) = Some tc" "hm_remove i tc = []"
      by (auto simp: targets_only_def)
    have p: "passed c s =
      s\<lparr>nodes := (nodes s)(?n := (nodes s ?n)\<lparr>target_consumers := Some []\<rparr>),
        payloads := (payloads s)(cell s ?n := None)\<rparr>"
      using 2 c tc cur
      by (simp add: passed_def check_should_now_autodrop_def claim_def hm_all_def cell_def Let_def)
    have "?n \<noteq> q_root q" using lin_distinct [OF l] cur(2) by auto
    then have "target_consumers (nodes (passed c s) (q_root q)) = None" using root by (simp add: p)
    moreover have "contents (passed c s) ms = (contents s ms)[p - 1 := None]"
      using 2 c by (intro contents_clear [OF ok l]) (auto simp: p)
    moreover have "\<forall>n \<in> set ms. targets_only i (passed c s) n"
      using t 2 by (auto simp: targets_only_def p hm_remove_def)
    ultimately show ?thesis using 2 by (simp add: p)
  qed
  then show "contents (passed c s) ms =
      (if autodrop s \<and> 0 < p then (contents s ms)[p - 1 := None] else contents s ms)"
    and "\<forall>n \<in> set ms. targets_only i (passed c s) n"
    and "target_consumers (nodes (passed c s) (q_root q)) = None"
    and "active (passed c s) = active s" and "live (passed c s) = live s"
    by auto
qed

lemma pass_last_simps [simp]:
  "f_pending (pass_last a) = f_pending a" "f_open (pass_last a) = f_open a"
  "f_autodrop (pass_last a) = f_autodrop a" "length (f_held (pass_last a)) = length (f_held a)"
  by (auto simp: pass_last_def)

lemma pass_last_held:
  "f_held (pass_last a) @ xs =
     (if f_autodrop a \<and> 0 < length (f_held a)
      then (f_held a @ xs)[length (f_held a) - 1 := None] else f_held a @ xs)"
  by (auto simp: pass_last_def list_update_append)

lemma targets_only_pushed:
  assumes "l \<noteq> node_count s" and "hm_remove i (active s) = []"
    and "n = node_count s \<or> targets_only i s n"
  shows "targets_only i (pushed v q l s) n"
  using assms by (auto simp: targets_only_def pushed_def)

text \<open>The parts of the relation, under names.\<close>

definition fifo_list ::
  "link_message_queue \<Rightarrow> lmq_store \<Rightarrow> next_message list \<Rightarrow> fifo \<Rightarrow> nref list \<Rightarrow> u64 \<Rightarrow> bool" where
  "fifo_list q s held a ms i \<longleftrightarrow>
     autodrop s = f_autodrop a \<and> lin s q ms \<and>
     contents s ms = f_held a @ map Some (f_pending a) \<and>
     map payload_ref held = map (cell s) (take (length (f_held a)) ms) \<and>
     target_consumers (nodes s (q_root q)) = None \<and>
     (\<forall>n \<in> set ms. targets_only i s n) \<and> hm_remove i (active s) = []"

definition fifo_consumer ::
  "link_message_queue \<Rightarrow> message_consumer option list \<Rightarrow> fifo \<Rightarrow> nref list \<Rightarrow> u64 \<Rightarrow> bool" where
  "fifo_consumer q cs a ms i \<longleftrightarrow>
     (if f_open a
      then \<exists>c. cs = [Some c] \<and> mc_id c = i \<and> mc_current c = (q_root q # ms) ! length (f_held a)
      else cs = [None])"

definition fifo_rel :: "lmq_system \<Rightarrow> fifo \<Rightarrow> bool" where
  "fifo_rel y a \<longleftrightarrow>
     sys_ok y \<and>
     (\<exists>ms i. fifo_list (sy_queue y) (sy_store y) (sy_held y) a ms i \<and>
             fifo_consumer (sy_queue y) (sy_consumers y) a ms i)"

lemma fifo_length:
  "fifo_list q s held a ms i \<Longrightarrow> length ms = length (f_held a) + length (f_pending a)"
  using length_contents [of s ms] by (simp add: fifo_list_def)

lemma fifo_held_length:
  "fifo_list q s held a ms i \<Longrightarrow> length held = length (f_held a)"
  using fifo_length [of q s held a ms i] by (auto simp: fifo_list_def dest!: arg_cong [where f = length])

lemma fifo_push:
  assumes r: "fifo_rel y a"
  shows "\<exists>y'. sys_step (Push v) y = Some (fst (fifo_step (Push v) a), y') \<and>
    fifo_rel y' (snd (fifo_step (Push v) a))"
proof -
  let ?s = "sy_store y" and ?q = "sy_queue y" and ?p = "length (f_held a)"
  from r obtain ms i where ok: "sys_ok y" and fl: "fifo_list ?q ?s (sy_held y) a ms i"
    and fc: "fifo_consumer ?q (sy_consumers y) a ms i"
    by (auto simp: fifo_rel_def)
  from ok have so: "store_ok ?s" and qo: "queue_ok ?s ?q" by (simp_all add: sys_ok_def)
  have l: "lin ?s ?q ms" using fl by (simp add: fifo_list_def)
  note push = lin_push [OF so qo l]
  let ?n = "node_count ?s" and ?s' = "pushed v ?q (q_last ?q) ?s"
  let ?q' = "?q\<lparr>q_last := ?n\<rparr>" and ?a' = "a\<lparr>f_pending := f_pending a @ [v]\<rparr>"
  let ?y = "y\<lparr>sy_queue := ?q', sy_store := ?s'\<rparr>"
  have step: "sys_step (Push v) y = Some (Pushed v, ?y)" by (simp add: push(1))
  with sys_step_push [OF ok, of v] have "sys_ok ?y" by simp
  have len: "length ms = ?p + length (f_pending a)" using fl by (rule fifo_length)
  have ln: "q_last ?q \<noteq> ?n"
    using lin_push_point(1) [OF so l] by (simp add: push_point_def)
  have lt: "x \<noteq> ?n" if "x \<in> set (q_root ?q # ms)" for x
    using lin_allocated [OF so l that] by simp
  have "cell ?s' x = cell ?s x" if "x \<in> set ms" for x
    using lt that ln by (simp add: cell_def payload_ref_pushed)
  then have "map payload_ref (sy_held y) = map (cell ?s') (take ?p (ms @ [?n]))"
    using fl len by (auto simp: fifo_list_def dest: in_set_takeD)
  moreover have "target_consumers (nodes ?s' (q_root ?q)) = None"
    using fl lt [of "q_root ?q"] by (auto simp: pushed_def fifo_list_def)
  moreover have "\<forall>n \<in> set (ms @ [?n]). targets_only i ?s' n"
    using fl ln by (auto simp: fifo_list_def intro: targets_only_pushed)
  ultimately have "fifo_list ?q' ?s' (sy_held y) ?a' (ms @ [?n]) i"
    using fl push(2,3) by (simp add: fifo_list_def)
  moreover have "fifo_consumer ?q' (sy_consumers y) ?a' (ms @ [?n]) i"
    using fc len nth_append [of "q_root ?q # ms" "[?n]" ?p] by (simp add: fifo_consumer_def)
  ultimately have "fifo_rel ?y ?a'"
    using \<open>sys_ok ?y\<close> unfolding fifo_rel_def by fastforce
  with step show ?thesis by simp
qed

text \<open>The list after the consumer's drop check.\<close>

lemma fifo_passed:
  assumes so: "store_ok s" and fl: "fifo_list q s held a ms i"
    and c: "mc_id c = i" "mc_current c = (q_root q # ms) ! length (f_held a)"
  shows "fifo_list q (passed c s) held (pass_last a) ms i"
proof -
  let ?p = "length (f_held a)"
  have l: "lin s q ms" and len: "?p \<le> length ms"
    using fl fifo_length [OF fl] by (simp_all add: fifo_list_def)
  note pc = passed_contents [OF so l _ _ c len]
  have "lin (passed c s) q ms" using passed_same_shape l by (rule lin_same_shape)
  moreover have "contents (passed c s) ms = f_held (pass_last a) @ map Some (f_pending a)"
    using fl pc(1) by (auto simp: fifo_list_def pass_last_held)
  moreover have "map (cell (passed c s)) xs = map (cell s) xs" for xs
    by (simp add: cell_def)
  ultimately show ?thesis
    using fl pc(2-4) same_shapeD(6) [OF passed_same_shape, of c s] by (simp add: fifo_list_def)
qed

lemma fifo_try_next:
  assumes r: "fifo_rel y a"
  shows "\<exists>y'. sys_step (TryNext k) y = Some (fst (fifo_step (TryNext k) a), y') \<and>
    fifo_rel y' (snd (fifo_step (TryNext k) a))"
proof (cases "k = 0 \<and> f_open a")
  case False
  with r have "consumer_at y k = None"
    by (auto simp: fifo_rel_def fifo_consumer_def consumer_at_def split: if_splits)
  with False r show ?thesis by auto
next
  case True
  let ?s = "sy_store y" and ?q = "sy_queue y" and ?p = "length (f_held a)"
  from r True obtain ms i c where ok: "sys_ok y" and fl: "fifo_list ?q ?s (sy_held y) a ms i"
    and cs: "sy_consumers y = [Some c]" and i: "mc_id c = i" and cur: "mc_current c = (q_root ?q # ms) ! ?p"
    by (auto simp: fifo_rel_def fifo_consumer_def)
  from ok have so: "store_ok ?s" by (simp add: sys_ok_def)
  from cs have at: "consumer_at y 0 = Some c" by (simp add: consumer_at_def)
  from consumer_at_ok [OF ok at] have co: "consumer_ok ?q ?s c" .
  have l: "lin ?s ?q ms" using fl by (simp add: fifo_list_def)
  have len: "length ms = ?p + length (f_pending a)" using fl by (rule fifo_length)
  let ?e = "if ?p < length ms then ms ! ?p else q_tail ?q"
  have "contents ?s ms ! ?p \<noteq> None" if "?p < length ms"
    using fl len that by (simp add: fifo_list_def nth_append)
  then have a: "ahead ?s ?q (mc_current c) [] ?e"
    unfolding cur using len by (intro lin_ahead [OF l]) simp_all
  have mv: "moved c [] ?e ?s = passed c ?s"
    using lin_suffix(1) [OF l] len by (intro moved_Nil) (simp add: cur)
  note eq = try_next_eq [OF so co a, unfolded mv]
  note fp = fifo_passed [OF so fl i cur]
  from sys_step_try_next [OF ok, of 0] obtain ev y' where
    st: "sys_step (TryNext 0) y = Some (ev, y')" and y': "sys_ok y'" by blast
  have tail: "?e = q_tail ?q \<longleftrightarrow> f_pending a = []"
  proof -
    have "q_tail ?q \<notin> set ms"
      using l unfolding lin_def by (auto dest: chain_end_notin)
    moreover have "?p < length ms \<longleftrightarrow> f_pending a \<noteq> []" using len by simp
    ultimately show ?thesis by (metis nth_mem)
  qed
  show ?thesis
  proof (cases "f_pending a")
    case Nil
    with st eq at tail cs have y'_eq: "ev = Nothing 0" "y' = y\<lparr>sy_store := passed c ?s\<rparr>"
      by auto
    have "fifo_consumer ?q (sy_consumers y) (pass_last a) ms i"
      using cs i cur True by (simp add: fifo_consumer_def)
    with fp y' have "fifo_rel y' (pass_last a)"
      by (auto simp: fifo_rel_def y'_eq)
    with st Nil True show ?thesis by (simp add: y'_eq)
  next
    case (Cons v vs)
    then have p: "?p < length ms" and e: "?e = ms ! ?p" using len by simp_all
    let ?n = "ms ! ?p" and ?s' = "passed c ?s" and ?c = "c\<lparr>mc_current := ms ! ?p\<rparr>"
    let ?a = "pass_last a"
    let ?a' = "?a\<lparr>f_pending := vs, f_held := f_held ?a @ [Some v]\<rparr>"
    have con: "contents ?s' ms = f_held ?a @ Some v # map Some vs"
      using fp Cons by (simp add: fifo_list_def)
    have "payloads ?s' (cell ?s' ?n) = contents ?s' ms ! ?p"
      using p by (simp add: contents_def)
    also have "\<dots> = Some v"
      unfolding con by (metis nth_append_length pass_last_simps(4))
    finally have val: "read_message ?s' (nodes ?s' ?n) = Some v"
      by (simp add: read_message_def cell_def)
    from st eq at tail Cons e val have y'_eq: "ev = Delivered 0 (Some v)"
      "y' = y\<lparr>sy_store := ?s', sy_consumers := [Some ?c], sy_held := sy_held y @ [nodes ?s' ?n]\<rparr>"
      by (auto simp: cs)
    have hl: "length (sy_held y) = ?p" using fl by (rule fifo_held_length)
    have "map payload_ref (sy_held y @ [nodes ?s' ?n]) = map (cell ?s') (take (Suc ?p) ms)"
      using fp p by (simp add: fifo_list_def take_Suc_conv_app_nth cell_def)
    then have "fifo_list ?q ?s' (sy_held y @ [nodes ?s' ?n]) ?a' ms i"
      using fp con by (simp add: fifo_list_def)
    moreover have "fifo_consumer ?q [Some ?c] ?a' ms i"
      using i True p by (simp add: fifo_consumer_def)
    ultimately have "fifo_rel y' ?a'"
      using y' by (auto simp: fifo_rel_def y'_eq)
    with st Cons True show ?thesis by (simp add: y'_eq Let_def)
  qed
qed

lemma fifo_claim:
  assumes r: "fifo_rel y a"
  shows "\<exists>y'. sys_step (Claim k) y = Some (fst (fifo_step (Claim k) a), y') \<and>
    fifo_rel y' (snd (fifo_step (Claim k) a))"
proof -
  let ?s = "sy_store y" and ?q = "sy_queue y" and ?p = "length (f_held a)"
  from r obtain ms i where ok: "sys_ok y" and fl: "fifo_list ?q ?s (sy_held y) a ms i"
    and fc: "fifo_consumer ?q (sy_consumers y) a ms i"
    by (auto simp: fifo_rel_def)
  from ok have so: "store_ok ?s" by (simp add: sys_ok_def)
  have l: "lin ?s ?q ms" using fl by (simp add: fifo_list_def)
  have len: "length ms = ?p + length (f_pending a)" using fl by (rule fifo_length)
  have hl: "length (sy_held y) = ?p" using fl by (rule fifo_held_length)
  show ?thesis
  proof (cases "k < ?p")
    case False
    with hl r show ?thesis by simp
  next
    case True
    let ?m = "sy_held y ! k" and ?a' = "a\<lparr>f_held := (f_held a)[k := None]\<rparr>"
    let ?s' = "snd (claim ?m ?s)"
    have "map payload_ref (sy_held y) ! k = map (cell ?s) (take ?p ms) ! k"
      using fl by (simp add: fifo_list_def)
    then have ref: "payload_ref ?m = cell ?s (ms ! k)" using True hl len by simp
    have "contents ?s ms ! k = f_held a ! k"
      using fl True by (simp add: fifo_list_def nth_append)
    then have val: "payloads ?s (payload_ref ?m) = f_held a ! k"
      using True len by (simp add: contents_def ref)
    have nodes: "nodes ?s' = nodes ?s" "active ?s' = active ?s" "autodrop ?s' = autodrop ?s"
      by (simp_all add: claim_def)
    have "contents ?s' ms = (contents ?s ms)[k := None]"
      using True len by (intro contents_clear [OF so l]) (auto simp: claim_def ref)
    then have "fifo_list ?q ?s' (sy_held y) ?a' ms i"
      using fl True lin_same_shape [OF claim_same_shape l]
      by (simp add: fifo_list_def nodes cell_def targets_only_def list_update_append)
    moreover have "fifo_consumer ?q (sy_consumers y) ?a' ms i"
      using fc by (simp add: fifo_consumer_def)
    moreover have step: "sys_step (Claim k) y = Some (Claimed k (f_held a ! k), y\<lparr>sy_store := ?s'\<rparr>)"
      using True hl val by (simp add: claim_def)
    moreover have "sys_ok (y\<lparr>sy_store := ?s'\<rparr>)"
      using sys_step_claim [OF ok, of k] step by simp
    ultimately have "fifo_rel (y\<lparr>sy_store := ?s'\<rparr>) ?a'"
      unfolding fifo_rel_def by fastforce
    with step True show ?thesis by simp
  qed
qed

lemma drop_consumer_passed:
  "autodrop s \<Longrightarrow> drop_consumer c s =
     (let s1 = passed c (s\<lparr>active := hm_remove (mc_id c) (active s)\<rparr>)
      in s1\<lparr>live := (live s1)(mc_tracker c := False)\<rparr>)"
  by (simp add: drop_consumer_def passed_def Let_def)

lemma shape_upd [simp]:
  "nxt (s\<lparr>active := m\<rparr>) = nxt s" "nxt (s\<lparr>live := v\<rparr>) = nxt s"
  "cell (s\<lparr>active := m\<rparr>) = cell s" "cell (s\<lparr>live := v\<rparr>) = cell s"
  by (simp_all add: nxt_def cell_def fun_eq_iff)

lemma fifo_list_live: "fifo_list q (s\<lparr>live := v\<rparr>) = fifo_list q s"
  by (simp add: fifo_list_def fun_eq_iff lin_def contents_def targets_only_def)

lemma fifo_list_active:
  "fifo_list q s held a ms i \<Longrightarrow> fifo_list q (s\<lparr>active := hm_remove i (active s)\<rparr>) held a ms i"
  by (simp add: fifo_list_def lin_def contents_def targets_only_def)

lemma fifo_drop:
  assumes r: "fifo_rel y a"
  shows "\<exists>y'. sys_step (DropConsumer k) y = Some (fst (fifo_step (DropConsumer k) a), y') \<and>
    fifo_rel y' (snd (fifo_step (DropConsumer k) a))"
proof (cases "k = 0 \<and> f_open a")
  case False
  with r have "consumer_at y k = None"
    by (auto simp: fifo_rel_def fifo_consumer_def consumer_at_def split: if_splits)
  with False r show ?thesis by auto
next
  case True
  let ?s = "sy_store y" and ?q = "sy_queue y" and ?p = "length (f_held a)"
  from r True obtain ms i c where ok: "sys_ok y" and fl: "fifo_list ?q ?s (sy_held y) a ms i"
    and cs: "sy_consumers y = [Some c]" and i: "mc_id c = i" and cur: "mc_current c = (q_root ?q # ms) ! ?p"
    by (auto simp: fifo_rel_def fifo_consumer_def)
  let ?s' = "drop_consumer c ?s" and ?a' = "(pass_last a)\<lparr>f_open := False\<rparr>"
  have at: "consumer_at y 0 = Some c" using cs by (simp add: consumer_at_def)
  have "fifo_list ?q ?s' (sy_held y) (pass_last a) ms i"
  proof (cases "autodrop ?s")
    case True
    have so: "store_ok (?s\<lparr>active := hm_remove i (active ?s)\<rparr>)"
      using ok unfolding sys_ok_def by (blast intro: same_shape_store_ok [OF consumers_same_shape(1)])
    from fifo_passed [OF so fifo_list_active [OF fl] i cur] show ?thesis
      unfolding drop_consumer_passed [OF True] Let_def fifo_list_live i .
  next
    case False
    then have "?s' = ?s" "pass_last a = a"
      using fl by (auto simp: drop_consumer_def pass_last_def fifo_list_def)
    with fl show ?thesis by simp
  qed
  then have "fifo_list ?q ?s' (sy_held y) ?a' ms i" by (simp add: fifo_list_def)
  moreover have "fifo_consumer ?q [None] ?a' ms i" by (simp add: fifo_consumer_def)
  moreover have step: "sys_step (DropConsumer 0) y =
      Some (Dropped 0, y\<lparr>sy_store := ?s', sy_consumers := [None]\<rparr>)"
    using at cs by simp
  moreover have "sys_ok (y\<lparr>sy_store := ?s', sy_consumers := [None]\<rparr>)"
    using sys_step_drop_consumer [OF ok, of 0] step by simp
  ultimately have "fifo_rel (y\<lparr>sy_store := ?s', sy_consumers := [None]\<rparr>) ?a'"
    unfolding fifo_rel_def by fastforce
  with step True show ?thesis by simp
qed

definition not_new :: "lmq_op \<Rightarrow> bool" where
  "not_new x \<longleftrightarrow> (case x of NewConsumer i \<Rightarrow> False | _ \<Rightarrow> True)"

interpretation lmq_fifo: event_simulation sys_step fifo_step fifo_rel not_new
proof
  show "\<exists>y'. sys_step x y = Some (fst (fifo_step x a), y') \<and> fifo_rel y' (snd (fifo_step x a))"
    if "fifo_rel y a" "not_new x" for y a x
    using that fifo_push fifo_try_next fifo_claim fifo_drop
    by (cases x) (auto simp: not_new_def simp del: sys_step.simps fifo_step.simps)
qed

text \<open>The start: a fresh queue and its consumer.\<close>

definition one_consumer :: "bool \<Rightarrow> u64 \<Rightarrow> lmq_system" where
  "one_consumer ad i =
     (let y = sys_init ad; (c, s) = create_consumer i (sy_queue y) (sy_store y)
      in y\<lparr>sy_store := s, sy_consumers := [Some c]\<rparr>)"

definition fifo_init :: "bool \<Rightarrow> fifo" where
  "fifo_init ad = \<lparr>f_pending = [], f_held = [], f_open = True, f_autodrop = ad\<rparr>"

lemma one_consumer_step: "sys_step (NewConsumer i) (sys_init ad) = Some (Created, one_consumer ad i)"
  by (simp add: one_consumer_def sys_init_def Let_def split_def)

lemma fifo_rel_init: "fifo_rel (one_consumer ad i) (fifo_init ad)"
proof -
  have "sys_ok (one_consumer ad i)"
    using sys_step_new_consumer [OF sys_ok_init [of ad], of i]
    by (simp only: one_consumer_step) auto
  moreover have "fifo_list (sy_queue (one_consumer ad i)) (sy_store (one_consumer ad i))
      (sy_held (one_consumer ad i)) (fifo_init ad) [] i"
    by (simp add: fifo_list_def one_consumer_def sys_init_def lmq_new_def alloc_payload_def
        alloc_node_def empty_store_def create_consumer_def Let_def fifo_init_def lin_def nxt_def
        contents_def hm_remove_def hm_insert_def hm_retain_def)
  moreover have "fifo_consumer (sy_queue (one_consumer ad i)) (sy_consumers (one_consumer ad i))
      (fifo_init ad) [] i"
    by (simp add: fifo_consumer_def one_consumer_def sys_init_def lmq_new_def alloc_payload_def
        alloc_node_def empty_store_def create_consumer_def Let_def fifo_init_def)
  ultimately show ?thesis by (auto simp: fifo_rel_def)
qed

end
