(* ===== verification/Tokio_Layer.thy ===== *)
theory Tokio_Layer
  imports Combined Lmq_Fifo
begin

text \<open>
  The tokio layer (\<^verbatim>\<open>skycurrent/src/tokio.rs\<close>): which errors of initialisation, sending and receiving
  are retried and which panic, the retry loops, the task that fills the global message queue, and
  \<open>iter_stream\<close>.
\<close>

section \<open>Initialisation\<close>

text \<open>Errors \<open>init\<close> retries after three seconds; it panics on the others.\<close>

definition common_init_retried :: "common_init_error \<Rightarrow> bool" where
  "common_init_retried e =
     (case e of
        NotAFolder _ \<Rightarrow> False
      | FailedToCanonicalizeProjectPath _ _ \<Rightarrow> False
      | CreateDirError _ _ \<Rightarrow> False
      | TcpListenerBindError _ \<Rightarrow> True)"

definition iox2_init_retried :: "iox2_init_error \<Rightarrow> bool" where
  "iox2_init_retried e =
     (case e of
        CommonInitError e \<Rightarrow> common_init_retried e
      | CreateIox2RootError _ _ \<Rightarrow> False
      | Iox2WriteIpcConfigError _ _ \<Rightarrow> False
      | Iox2NodeCreationFailure _ \<Rightarrow> False
      | Iox2EventOpenOrCreateError _ \<Rightarrow> True
      | Iox2NotifierCreateError _ \<Rightarrow> True
      | Iox2ListenerCreateError _ \<Rightarrow> True
      | Iox2PublishSubscribeOpenOrCreateError _ \<Rightarrow> True
      | Iox2PublisherCreateError _ \<Rightarrow> True
      | Iox2SubscriberCreateError _ \<Rightarrow> True
      | Iox2InvalidConfigFilePathError _ _ \<Rightarrow> False
      | Iox2ConfigCreationError _ \<Rightarrow> False)"

definition init_retried :: "combined_init_error \<Rightarrow> bool" where
  "init_retried e =
     (case e of
        MissingGlobalProjectDirectory _ \<Rightarrow> False
      | CCommonInitError e \<Rightarrow> common_init_retried e
      | BackingCrashed _ \<Rightarrow> True
      | Iox2InitError e \<Rightarrow> iox2_init_retried e
      | WsGatewayInitError (WsCommonInitError e) \<Rightarrow> common_init_retried e)"

definition ALL_BACKINGS :: init_flags where
  "ALL_BACKINGS = or (or INIT_IOX2_RECV INIT_IOX2_SEND) INIT_WS_GATEWAY"

text \<open>\<open>None\<close> when every attempt ends in an error that is retried.\<close>

partial_function (option) tokio_init ::
  "('w, 'h) build \<Rightarrow> ('w, 'h) combined \<Rightarrow> ('w, 'h) combined outcome option" where
  [code]: "tokio_init b g =
     (case combined_init b ALL_BACKINGS g of
        (Inr _, g1) \<Rightarrow> Some (Returns g1)
      | (Inl e, g1) \<Rightarrow>
          if init_retried e then tokio_init b (with_world g1 (sleep_ms b 3000 (world g1)))
          else Some Panics)"

section \<open>Sending\<close>

partial_function (option) tokio_send_stream ::
  "('w, 'h) build \<Rightarrow> byte list \<Rightarrow> nat \<Rightarrow> ('w, 'h) combined \<Rightarrow> ('w, 'h) combined outcome option" where
  [code]: "tokio_send_stream b payload header_size g =
     (case combined_send_stream b payload header_size g of
        None \<Rightarrow> None
      | Some Panics \<Rightarrow> Some Panics
      | Some (Returns (r, g1)) \<Rightarrow>
          (case r of
             Inr _ \<Rightarrow> Some (Returns g1)
           | Inl e \<Rightarrow>
               (case e of
                  Iox2IpcError (Iox2NotifierNotifyError _) \<Rightarrow>
                    tokio_send_stream b payload header_size (with_world g1 (sleep_ms b 100 (world g1)))
                | Iox2IpcError (Iox2PublisherLoanError _) \<Rightarrow>
                    tokio_send_stream b payload header_size (with_world g1 (sleep_ms b 100 (world g1)))
                | Iox2IpcError (Iox2PublisherSendError _) \<Rightarrow>
                    tokio_send_stream b payload header_size (with_world g1 (sleep_ms b 100 (world g1)))
                | _ \<Rightarrow> Some Panics)))"

section \<open>The receiver task\<close>

definition recv_retried :: "combined_ipc_error \<Rightarrow> bool" where
  "recv_retried e =
     (case e of
        Iox2IpcError (Iox2ListenerWaitError _) \<Rightarrow> True
      | Iox2IpcError (Iox2SubscriberReceiveError _) \<Rightarrow> True
      | _ \<Rightarrow> False)"

text \<open>
  The task over the results \<open>recv_stream\<close> gives it, in order. \<open>None\<close> is a \<open>push\<close> that does not return;
  the pauses after retried errors do not show in the queue.
\<close>

fun receiver_task ::
  "(combined_ipc_error + byte list) list \<Rightarrow> link_message_queue \<times> lmq_store \<Rightarrow>
     (link_message_queue \<times> lmq_store) outcome option" where
  "receiver_task [] qs = Some (Returns qs)"
| "receiver_task (Inr payload # rs) qs =
     (case lmq_push payload (fst qs) (snd qs) of
        None \<Rightarrow> None
      | Some qs1 \<Rightarrow> receiver_task rs qs1)"
| "receiver_task (Inl e # rs) qs = (if recv_retried e then receiver_task rs qs else Some Panics)"

definition iter_stream ::
  "u64 \<Rightarrow> link_message_queue \<times> lmq_store \<Rightarrow> message_consumer \<times> link_message_queue \<times> lmq_store" where
  "iter_stream cid qs =
     (case create_consumer cid (fst qs) (snd qs) of (c, s) \<Rightarrow> (c, fst qs, s))"

section \<open>Lemmas\<close>

text \<open>The loop of the layer and the one that forwards websocket messages repeat the same errors.\<close>

lemma tokio_send_step:
  "tokio_send_stream b payload header_size g =
     (case combined_send_stream b payload header_size g of
        None \<Rightarrow> None
      | Some Panics \<Rightarrow> Some Panics
      | Some (Returns (r, g1)) \<Rightarrow>
          (case r of
             Inr _ \<Rightarrow> Some (Returns g1)
           | Inl e \<Rightarrow>
               if transient e
               then tokio_send_stream b payload header_size (with_world g1 (sleep_ms b 100 (world g1)))
               else Some Panics))"
  by (subst tokio_send_stream.simps)
    (auto simp: transient_def split: option.split outcome.split sum.split combined_ipc_error.split
      iox2_ipc_error.split)

definition received_payloads :: "(combined_ipc_error + byte list) list \<Rightarrow> byte list list" where
  "received_payloads rs = concat (map (\<lambda>r. case r of Inr p \<Rightarrow> [p] | Inl _ \<Rightarrow> []) rs)"

definition receivable :: "combined_ipc_error + byte list \<Rightarrow> bool" where
  "receivable r = (case r of Inr _ \<Rightarrow> True | Inl e \<Rightarrow> recv_retried e)"

text \<open>The task is a run of pushes.\<close>

lemma receiver_task_pushes:
  assumes "list_all receivable rs"
    and "run_events sys_step (map Push (received_payloads rs)) y = Some (evs, y1)"
  shows "receiver_task rs (sy_queue y, sy_store y) = Some (Returns (sy_queue y1, sy_store y1)) \<and>
    sy_consumers y1 = sy_consumers y \<and> sy_held y1 = sy_held y"
  using assms
proof (induction rs arbitrary: y evs)
  case Nil
  then show ?case by (simp add: received_payloads_def)
next
  case (Cons r rs)
  show ?case
  proof (cases r)
    case (Inl e)
    with Cons show ?thesis by (simp add: received_payloads_def receivable_def)
  next
    case (Inr p)
    with Cons.prems obtain q s es where push: "lmq_push p (sy_queue y) (sy_store y) = Some (q, s)"
      and rest: "run_events sys_step (map Push (received_payloads rs)) (y\<lparr>sy_queue := q, sy_store := s\<rparr>) =
        Some (es, y1)"
      by (auto simp: received_payloads_def split: option.splits)
    from Cons.IH [OF _ rest] Cons.prems(1) Inr push show ?thesis by simp
  qed
qed

end
