(* ===== verification/Combined_Runtime.thy ===== *)
theory Combined_Runtime
  imports Combined Event_Machine
begin

text \<open>
  The combined runtime as a machine: the calls of the receiving thread, the end of the actor's wait
  and changes of the world, in any order. The invariant ties the lock bits to what the actor does; a
  second one describes a runtime that will not hear the mesh again.
\<close>

section \<open>Steps\<close>

datatype 'w c_op =
    CTryRecv
  | CWaitRegister
  | CWaitPoll bool bool
  | CWaitEnds "iox2_ipc_error + unit"
  | CWorld "'w \<Rightarrow> 'w"

datatype c_event =
    Received "combined_ipc_error + try_recv_stream_result"
  | Panicked
  | Registered "combined_ipc_error + unit"
  | Polled "(combined_ipc_error + unit) poll"
  | Environment

definition c_step ::
  "('w, 'h) build \<Rightarrow> 'w c_op \<Rightarrow> ('w, 'h) combined \<Rightarrow> (c_event \<times> ('w, 'h) combined) option" where
  "c_step b x g =
     (case x of
        CTryRecv \<Rightarrow>
          (case combined_try_recv_stream b False g of
             None \<Rightarrow> None
           | Some Panics \<Rightarrow> Some (Panicked, g)
           | Some (Returns (r, g1)) \<Rightarrow> Some (Received r, g1))
      | CWaitRegister \<Rightarrow> (case wait_register b g of (r, g1) \<Rightarrow> Some (Registered r, g1))
      | CWaitPoll f r \<Rightarrow> (case wait_poll b f r g of (p, g1) \<Rightarrow> Some (Polled p, g1))
      | CWaitEnds r \<Rightarrow> Some (Environment, wait_ends r g)
      | CWorld f \<Rightarrow> Some (Environment, with_world g (f (world g))))"

section \<open>The lock bits\<close>

text \<open>
  While the actor waits its bit is set, and nothing is queued for it; at most one result is
  outstanding, and the bit is set until it is taken.
\<close>

definition waits_locked :: "('w, 'h) combined \<Rightarrow> bool" where
  "waits_locked g \<longleftrightarrow>
     length (wait_stream_locks g) = 2 \<and>
     (case recv_actor g of
        WaitingEvent cells q \<Rightarrow> wait_stream_locks g ! 0 \<and> q = [] \<and> (\<forall>rs. wait_rx g = Some rs \<longrightarrow> rs = [])
      | _ \<Rightarrow> (\<forall>rs. wait_rx g = Some rs \<longrightarrow> length rs \<le> 1 \<and> (rs \<noteq> [] \<longrightarrow> wait_stream_locks g ! 0)))"

text \<open>What the lock bits and the actor's channel depend on.\<close>

definition same_waits :: "('w, 'h) combined \<Rightarrow> ('w, 'h) combined \<Rightarrow> bool" where
  "same_waits g g1 \<longleftrightarrow>
     wait_stream_locks g1 = wait_stream_locks g \<and> wait_rx g1 = wait_rx g \<and>
     ((\<exists>cells q. recv_actor g = WaitingEvent cells q) \<longrightarrow> recv_actor g1 = recv_actor g) \<and>
     ((\<exists>cells q. recv_actor g1 = WaitingEvent cells q) \<longrightarrow> recv_actor g1 = recv_actor g)"

lemma same_waits_refl [simp]: "same_waits g g"
  by (simp add: same_waits_def)

lemma same_waits_trans: "same_waits g g1 \<Longrightarrow> same_waits g1 g2 \<Longrightarrow> same_waits g g2"
  unfolding same_waits_def by metis

lemma same_waits_locked: "same_waits g g1 \<Longrightarrow> waits_locked g \<Longrightarrow> waits_locked g1"
  unfolding same_waits_def waits_locked_def
  by (cases "recv_actor g"; cases "recv_actor g1") auto

lemma same_waits_fields:
  "same_waits g (g\<lparr>world := w\<rparr>)" "same_waits g (g\<lparr>current_backing := c\<rparr>)"
  "same_waits g (g\<lparr>send_actor := a, world := w\<rparr>)" "same_waits g (with_world g w)"
  "same_waits g (enter_backing b bk g)"
  by (simp_all add: same_waits_def with_world_def enter_backing_def)

lemma send_stream_waits:
  "combined_send_stream b p h g = Some (Returns (r, g1)) \<Longrightarrow> same_waits g g1"
  by (auto simp: combined_send_stream_def same_waits_def split: if_splits option.splits outcome.splits)

lemma forward_waits:
  assumes "forward_to_mesh b p h g = Some (Returns g1)"
  shows "same_waits g g1"
proof -
  have "case x of Panics \<Rightarrow> True | Returns g1 \<Rightarrow> same_waits g g1" if "forward_to_mesh b p h g = Some x" for x
  proof (rule forward_to_mesh.raw_induct [where P = "\<lambda>b p h g x.
        case x of Panics \<Rightarrow> True | Returns g1 \<Rightarrow> same_waits g g1", OF _ that], goal_cases)
    case (1 f b p h g x)
    show ?case
    proof (cases x)
      case (Returns g2)
      with 1(2) obtain r g1 where sent: "combined_send_stream b p h g = Some (Returns (r, g1))"
        by (auto split: option.splits outcome.splits)
      note g1 = send_stream_waits [OF sent]
      show ?thesis
      proof (cases r)
        case (Inl e)
        with 1(2) sent Returns have "f b p h (with_world g1 (sleep_ms b 100 (world g1))) = Some (Returns g2)"
          by (simp split: if_splits)
        from 1(1) [OF this] have "same_waits (with_world g1 (sleep_ms b 100 (world g1))) g2" by simp
        then have "same_waits g g2"
          by (rule same_waits_trans [OF same_waits_trans [OF g1 same_waits_fields(4)]])
        with Returns show ?thesis by simp
      next
        case (Inr u)
        with 1(2) sent Returns g1 show ?thesis by simp
      qed
    qed simp
  qed
  with assms show ?thesis by fastforce
qed

lemma actor_call_waits:
  assumes "actor_call name t (recv_actor g) h wrap w = Some (r, a, w1)"
  shows "same_waits g (g\<lparr>recv_actor := a, world := w1\<rparr>)"
  using assms
  by (auto simp: actor_call_def same_waits_def split: if_splits actor.splits option.splits outcome.splits)

lemma query_waits:
  "query_backing b sc bk g = Some (Returns (r, g1)) \<Longrightarrow> same_waits g g1"
  by (auto simp: query_backing_def same_waits_fields split: backing.splits if_splits option.splits
      outcome.splits sum.splits try_recv_copy_result.splits dest: actor_call_waits)

lemma deliver_waits:
  "deliver b bk p h g = Some (Returns (r, g1)) \<Longrightarrow> same_waits g g1"
  by (auto simp: deliver_def same_waits_fields split: backing.splits if_splits option.splits
      outcome.splits dest: forward_waits)

lemma try_backings_waits:
  "try_backings b sc n g = Some (Returns (r, g1)) \<Longrightarrow> same_waits g g1"
proof (induction n arbitrary: g)
  case 0
  then show ?case by simp
next
  case (Suc n)
  from Suc.prems show ?case
    by (auto simp: Let_def split: if_splits option.splits outcome.splits sum.splits
        try_recv_stream_result.splits dest!: Suc.IH query_waits deliver_waits
        intro: same_waits_trans same_waits_trans [OF _ same_waits_trans [OF same_waits_fields(5)]])
qed

lemma drain_locked:
  "waits_locked g \<Longrightarrow> wait_rx g = Some rs \<Longrightarrow> waits_locked (snd (drain_results rs g))"
  by (cases rs) (auto simp: waits_locked_def handle_wait_stream_return_def
      split: sum.splits actor.splits)

lemma choose_waits: "choose_backing b g = Some g1 \<Longrightarrow> same_waits g g1"
  by (auto simp: choose_backing_def same_waits_fields split: prod.splits if_splits)

lemma drain_call_locked:
  assumes "waits_locked g"
  shows "waits_locked (snd (wait_stream_drain held g))"
  using assms drain_locked [OF assms] by (simp add: wait_stream_drain_def split: option.split)

lemma try_recv_locked:
  assumes "waits_locked g" and "combined_try_recv_stream b held g = Some (Returns (r, g1))"
  shows "waits_locked g1"
proof -
  obtain ga where ga: "choose_backing b g = Some ga"
    using assms(2) by (auto simp: combined_try_recv_stream_def split: option.splits)
  have la: "waits_locked ga" by (rule same_waits_locked [OF choose_waits [OF ga] assms(1)])
  obtain x gb where gb: "wait_stream_drain held ga = (x, gb)" by fastforce
  have lb: "waits_locked gb" using drain_call_locked [OF la, of held] gb by simp
  show ?thesis
  proof (cases x)
    case (Inl e)
    with assms(2) ga gb lb show ?thesis by (simp add: combined_try_recv_stream_def)
  next
    case (Inr u)
    with assms(2) ga gb have "try_backings b (global_should_collect g) 2 gb = Some (Returns (r, g1))"
      by (simp add: combined_try_recv_stream_def)
    from same_waits_locked [OF try_backings_waits [OF this] lb] show ?thesis .
  qed
qed

lemma register_locked:
  "waits_locked g \<Longrightarrow> waits_locked (snd (wait_register b g))"
  by (auto simp: wait_register_def send_wait_stream_def start_wait_def post_result_def waits_locked_def
      backing_index_def split: actor.splits)

lemma receive_locked: "waits_locked g \<Longrightarrow> waits_locked (snd (receive_results g))"
  using drain_locked [of g]
  by (simp add: receive_results_def split_def del: drain_results.simps split: option.split list.split)

lemma poll_locked: "waits_locked g \<Longrightarrow> waits_locked (snd (wait_poll b f r g))"
  using receive_locked [of g]
  by (cases "receive_results g") (simp add: wait_poll_def Let_def split: poll.split)

lemma wait_ends_locked: "waits_locked g \<Longrightarrow> waits_locked (wait_ends r g)"
  by (auto simp: wait_ends_def waits_locked_def post_result_def split: actor.splits)

lemma step_locked:
  assumes "waits_locked g" and "c_step b x g = Some (ev, g1)"
  shows "waits_locked g1"
proof (cases x)
  case CTryRecv
  with assms show ?thesis
    by (auto simp: c_step_def split: option.splits outcome.splits dest: try_recv_locked)
next
  case CWaitRegister
  with assms(2) register_locked [OF assms(1), of b] show ?thesis
    by (cases "wait_register b g") (simp add: c_step_def)
next
  case (CWaitPoll f r)
  with assms(2) poll_locked [OF assms(1), of b f r] show ?thesis
    by (cases "wait_poll b f r g") (simp add: c_step_def)
next
  case (CWaitEnds r)
  with assms wait_ends_locked show ?thesis by (auto simp: c_step_def)
next
  case (CWorld f)
  with assms same_waits_locked [OF same_waits_fields(4)] show ?thesis by (auto simp: c_step_def)
qed

section \<open>Builds without the gateway never block\<close>

lemma query_iox2_returns:
  assumes "waits_locked g" and "\<not> wait_stream_locks g ! 0"
  shows "query_backing b sc Iox2 g \<noteq> None"
  using assms
  by (auto simp: query_backing_def actor_call_def waits_locked_def
      split: option.splits actor.splits outcome.splits)

lemma try_backings_returns:
  "waits_locked g \<Longrightarrow> \<not> has_ws b \<Longrightarrow> try_backings b sc n g \<noteq> None"
proof (induction n arbitrary: g)
  case 0
  then show ?case by simp
next
  case (Suc n)
  note IH = Suc.IH
  show ?case
  proof (cases "fst (current_backing g)")
    case Iox2
    show ?thesis
    proof (cases "wait_stream_locks g ! 0 \<or> \<not> has_iox2 b")
      case True
      with Iox2 Suc show ?thesis by (auto simp: bit_at_def waits_locked_def backing_index_def)
    next
      case False
      then obtain x where q: "query_backing b sc Iox2 g = Some x"
        using query_iox2_returns [OF Suc.prems(1)] by auto
      have "waits_locked (enter_backing b nb g1)" if "x = Returns (r, g1)" for r g1 nb
        using q that Suc.prems(1) query_waits same_waits_fields(5) same_waits_locked by metis
      then show ?thesis
        using False Iox2 Suc.prems q IH
        by (auto simp: bit_at_def waits_locked_def backing_index_def next_backing_def backing_from_def
            deliver_def split: outcome.split prod.split sum.split try_recv_stream_result.split)
    qed
  next
    case WsGateway
    with Suc show ?thesis by (auto simp: bit_at_def split: option.split)
  next
    case Count
    with Suc.prems show ?thesis by (simp add: bit_at_def backing_index_def waits_locked_def)
  qed
qed

lemma runtime_step:
  assumes inv: "waits_locked g" "\<not> has_ws b"
  shows "\<exists>ev g1. c_step b x g = Some (ev, g1) \<and> waits_locked g1"
proof -
  have "combined_try_recv_stream b False g \<noteq> None"
  proof (cases "choose_backing b g")
    case None
    then show ?thesis by (simp add: combined_try_recv_stream_def)
  next
    case (Some ga)
    have "waits_locked ga" using same_waits_locked [OF choose_waits [OF Some]] inv by blast
    then have "waits_locked (snd (wait_stream_drain False ga))" by (rule drain_call_locked)
    then have "try_backings b sc 2 (snd (wait_stream_drain False ga)) \<noteq> None" for sc
      using inv by (intro try_backings_returns) auto
    with Some show ?thesis
      by (cases "wait_stream_drain False ga") (auto simp: combined_try_recv_stream_def split: sum.split)
  qed
  then have "c_step b x g \<noteq> None"
    by (auto simp: c_step_def split: c_op.split option.split outcome.split prod.split)
  then obtain ev g1 where "c_step b x g = Some (ev, g1)" by auto
  with inv step_locked show ?thesis by blast
qed

interpretation runtime: invariant_machine "c_step b" "\<lambda>g. waits_locked g \<and> \<not> has_ws b" "\<lambda>_. True" for b
  using runtime_step by unfold_locales blast

section \<open>A runtime that does not hear the mesh any more\<close>

definition deaf :: "('w, 'h) combined \<Rightarrow> bool" where
  "deaf g \<longleftrightarrow>
     length (wait_stream_locks g) = 2 \<and> wait_stream_locks g ! 0 \<and> wait_rx g = Some [] \<and>
     (\<forall>cells q. recv_actor g \<noteq> WaitingEvent cells q)"

definition unchanged_actor :: "('w, 'h) combined \<Rightarrow> ('w, 'h) combined \<Rightarrow> bool" where
  "unchanged_actor g g1 \<longleftrightarrow>
     wait_stream_locks g1 = wait_stream_locks g \<and> wait_rx g1 = wait_rx g \<and> recv_actor g1 = recv_actor g"

lemma unchanged_deaf: "unchanged_actor g g1 \<Longrightarrow> deaf g \<Longrightarrow> deaf g1"
  by (simp add: unchanged_actor_def deaf_def)

lemma unchanged_trans: "unchanged_actor g g1 \<Longrightarrow> unchanged_actor g1 g2 \<Longrightarrow> unchanged_actor g g2"
  by (simp add: unchanged_actor_def)

lemma send_stream_actor:
  "combined_send_stream b p h g = Some (Returns (r, g1)) \<Longrightarrow> unchanged_actor g g1"
  by (auto simp: combined_send_stream_def unchanged_actor_def split: if_splits option.splits outcome.splits)

lemma forward_actor:
  assumes "forward_to_mesh b p h g = Some (Returns g1)"
  shows "unchanged_actor g g1"
proof -
  have "case x of Panics \<Rightarrow> True | Returns g1 \<Rightarrow> unchanged_actor g g1" if "forward_to_mesh b p h g = Some x" for x
  proof (rule forward_to_mesh.raw_induct [where P = "\<lambda>b p h g x.
        case x of Panics \<Rightarrow> True | Returns g1 \<Rightarrow> unchanged_actor g g1", OF _ that], goal_cases)
    case (1 f b p h g x)
    show ?case
    proof (cases x)
      case (Returns g2)
      with 1(2) obtain r g1 where sent: "combined_send_stream b p h g = Some (Returns (r, g1))"
        by (auto split: option.splits outcome.splits)
      note g1 = send_stream_actor [OF sent]
      show ?thesis
      proof (cases r)
        case (Inl e)
        with 1(2) sent Returns have "f b p h (with_world g1 (sleep_ms b 100 (world g1))) = Some (Returns g2)"
          by (simp split: if_splits)
        from 1(1) [OF this] g1 Returns show ?thesis by (simp add: unchanged_actor_def with_world_def)
      next
        case (Inr u)
        with 1(2) sent Returns g1 show ?thesis by simp
      qed
    qed simp
  qed
  with assms show ?thesis by fastforce
qed

lemma try_backings_deaf:
  "deaf g \<Longrightarrow> try_backings b sc n g = Some (Returns (r, g1)) \<Longrightarrow> unchanged_actor g g1"
proof (induction n arbitrary: g)
  case 0
  then show ?case by (simp add: unchanged_actor_def)
next
  case (Suc n)
  show ?case
  proof (cases "fst (current_backing g)")
    case WsGateway
    have q: "unchanged_actor g g2" if "query_backing b sc WsGateway g = Some (Returns (x, g2))" for x g2
      using that
      by (auto simp: query_backing_def unchanged_actor_def split: if_splits outcome.splits sum.splits
          try_recv_copy_result.splits)
    have d: "unchanged_actor g2 g3" if "deliver b WsGateway p h g2 = Some (Returns (x, g3))" for p h x g2 g3
      using that by (auto simp: deliver_def unchanged_actor_def [of g2 "g2\<lparr>world := w\<rparr>" for w]
          split: if_splits option.splits outcome.splits dest: forward_actor)
    have e: "unchanged_actor g (enter_backing b nb g2)" if "unchanged_actor g g2" for nb g2
      using that by (simp add: enter_backing_def unchanged_actor_def)
    from Suc.prems WsGateway show ?thesis
      by (auto simp: bit_at_def split: if_splits option.splits outcome.splits sum.splits
          try_recv_stream_result.splits dest: q d Suc.IH
          intro: unchanged_trans [OF q d] unchanged_trans [OF e [OF q] Suc.IH [OF unchanged_deaf [OF e [OF q]]]])
  next
    case Iox2
    with Suc show ?thesis by (auto simp: bit_at_def deaf_def backing_index_def)
  next
    case Count
    with Suc.prems show ?thesis by (simp add: bit_at_def deaf_def backing_index_def)
  qed
qed

lemma deaf_try_recv:
  assumes "deaf g" and "combined_try_recv_stream b held g = Some (Returns (r, g1))"
  shows "unchanged_actor g g1"
proof -
  obtain ga where ga: "choose_backing b g = Some ga"
    using assms(2) by (auto simp: combined_try_recv_stream_def split: option.splits)
  then have u: "unchanged_actor g ga"
    by (auto simp: choose_backing_def enter_backing_def unchanged_actor_def split: prod.splits if_splits)
  then have "deaf ga" using assms(1) by (rule unchanged_deaf)
  then have "wait_stream_drain held ga = (Inr (), ga)" by (simp add: wait_stream_drain_def deaf_def)
  with assms(2) ga have "try_backings b (global_should_collect g) 2 ga = Some (Returns (r, g1))"
    by (simp add: combined_try_recv_stream_def)
  from unchanged_trans [OF u try_backings_deaf [OF \<open>deaf ga\<close> this]] show ?thesis .
qed

lemma deaf_register: "deaf g \<Longrightarrow> wait_register b g = (Inr (), g)"
  by (simp add: wait_register_def deaf_def backing_index_def)

lemma deaf_poll: "deaf g \<Longrightarrow> snd (wait_poll b f r g) = g"
  by (simp add: wait_poll_def receive_results_def Let_def deaf_def split: actor.split)

lemma deaf_wait_ends: "deaf g \<Longrightarrow> wait_ends r g = g"
  by (simp add: wait_ends_def deaf_def split: actor.splits)

lemma deaf_step:
  assumes d: "deaf g" and step: "c_step b x g = Some (ev, g1)"
  shows "unchanged_actor g g1"
proof (cases x)
  case CTryRecv
  with step deaf_try_recv [OF d] show ?thesis
    by (auto simp: c_step_def unchanged_actor_def split: option.splits outcome.splits)
next
  case (CWaitPoll f r)
  with step deaf_poll [OF d, of b f r] show ?thesis
    by (cases "wait_poll b f r g") (simp add: c_step_def unchanged_actor_def)
qed (use step d in \<open>auto simp: c_step_def deaf_register deaf_wait_ends unchanged_actor_def with_world_def\<close>)

lemma deaf_run:
  "deaf g \<Longrightarrow> run_events (c_step b) ops g = Some (evs, g1) \<Longrightarrow> unchanged_actor g g1"
proof (induction ops arbitrary: g evs)
  case Nil
  then show ?case by (simp add: unchanged_actor_def)
next
  case (Cons x ops)
  then obtain ev g2 es where step: "c_step b x g = Some (ev, g2)"
    and rest: "run_events (c_step b) ops g2 = Some (es, g1)"
    by (auto split: option.splits)
  from deaf_step [OF Cons.prems(1) step] Cons.IH [OF _ rest] Cons.prems(1) show ?case
    by (blast intro: unchanged_deaf unchanged_trans)
qed

section \<open>Closing\<close>

lemma shutdown_keeps:
  "combined_shutdown_signal b g = Some (r, g1) \<Longrightarrow> \<exists>a w. g1 = g\<lparr>send_actor := a, world := w\<rparr>"
  by (auto simp: combined_shutdown_signal_def split: if_splits option.splits)
    (metis combined.surjective combined.update_convs(6,11))

lemma signal_keeps:
  assumes "signal_until_sent b g = Some (Returns g1)"
  shows "recv_tx g1 = recv_tx g \<and> recv_actor g1 = recv_actor g \<and>
    wait_stream_locks g1 = wait_stream_locks g"
proof -
  have "case x of Panics \<Rightarrow> True | Returns g1 \<Rightarrow> recv_tx g1 = recv_tx g \<and> recv_actor g1 = recv_actor g \<and>
      wait_stream_locks g1 = wait_stream_locks g" if "signal_until_sent b g = Some x" for x
  proof (rule signal_until_sent.raw_induct [where P = "\<lambda>b g x. case x of Panics \<Rightarrow> True | Returns g1 \<Rightarrow>
        recv_tx g1 = recv_tx g \<and> recv_actor g1 = recv_actor g \<and>
        wait_stream_locks g1 = wait_stream_locks g", OF _ that], goal_cases)
    case (1 f b g x)
    from 1(2) obtain r a w where sig: "combined_shutdown_signal b g = Some (r, g\<lparr>send_actor := a, world := w\<rparr>)"
      using shutdown_keeps by (fastforce split: option.splits)
    from 1(2) 1(1) [of b "with_world (g\<lparr>send_actor := a, world := w\<rparr>) (sleep_ms b 100 w)" x] show ?case
      by (auto simp: sig with_world_def split: sum.splits combined_ipc_error.splits
          iox2_ipc_error.splits outcome.splits)
  qed
  with assms show ?thesis by fastforce
qed

end
