(* ===== verification/Iox2_Reassembly.thy ===== *)
theory Iox2_Reassembly
  imports Iox2_Merge
begin

text \<open>
  The receiver as a whole. Fragments of any number of messages arrive in any order; the concrete
  receiver (\<open>handle_page\<close> on the real pages) refines a machine whose state is, for every message, the
  set of fragments seen so far.
\<close>

text \<open>
  \<open>msgs\<close> gives the payload and header size of the message sent under an identification; an operation
  is the arrival of one of its fragments.
\<close>

type_synonym msg_table = "u64 \<Rightarrow> byte list \<times> nat"
type_synonym arrival = "u64 \<times> nat"

definition header_of :: "msg_table \<Rightarrow> u64 \<Rightarrow> byte list" where
  "header_of msgs ident = take (snd (msgs ident)) (fst (msgs ident))"

definition fragment_count :: "msg_table \<Rightarrow> u64 \<Rightarrow> nat" where
  "fragment_count msgs ident = length (body_chunks (fst (msgs ident)) (snd (msgs ident)))"

definition receive_fragment ::
  "msg_table \<Rightarrow> bool \<Rightarrow> (byte list \<Rightarrow> bool option) \<Rightarrow> arrival \<Rightarrow> merge_allocs \<Rightarrow>
     ((byte list \<times> nat) option \<times> merge_allocs) option" where
  "receive_fragment msgs ov should_collect a allocs =
     Option.bind (nth_fragment (fst (msgs (fst a))) (snd (msgs (fst a))) (fst a) (snd a))
       (\<lambda>page. handle_page ov should_collect page allocs)"

text \<open>The specification: only the set of fragments seen matters.\<close>

definition collect_fragment ::
  "msg_table \<Rightarrow> (byte list \<Rightarrow> bool option) \<Rightarrow> arrival \<Rightarrow> (u64 \<Rightarrow> nat set) \<Rightarrow>
     (byte list \<times> nat) option \<times> (u64 \<Rightarrow> nat set)" where
  "collect_fragment msgs should_collect a seen =
     (let ident = fst a; i = snd a; S = seen ident in
      if should_collect (header_of msgs ident) \<noteq> Some True then (None, seen)
      else if i \<notin> S \<and> insert i S = {..<fragment_count msgs ident}
      then (Some (msgs ident), seen(ident := {}))
      else (None, seen(ident := insert i S)))"

definition reassembly_rel :: "msg_table \<Rightarrow> merge_allocs \<Rightarrow> (u64 \<Rightarrow> nat set) \<Rightarrow> bool" where
  "reassembly_rel msgs allocs seen \<longleftrightarrow>
     (\<forall>ident. merging (fst (msgs ident)) (snd (msgs ident)) (seen ident) (allocs ident))"

definition arrival_ok :: "msg_table \<Rightarrow> (byte list \<Rightarrow> bool option) \<Rightarrow> arrival \<Rightarrow> bool" where
  "arrival_ok msgs should_collect a \<longleftrightarrow>
     fragmentable (fst (msgs (fst a))) (snd (msgs (fst a))) \<and>
     snd a < fragment_count msgs (fst a) \<and> should_collect (header_of msgs (fst a)) \<noteq> None"

interpretation reassembly: event_simulation "receive_fragment msgs ov sc" "collect_fragment msgs sc"
  "reassembly_rel msgs" "arrival_ok msgs sc" for msgs ov sc
proof
  fix allocs seen and a :: arrival
  assume rel: "reassembly_rel msgs allocs seen" and ok: "arrival_ok msgs sc a"
  obtain ident i where a: "a = (ident, i)" by (cases a)
  obtain payload hs where m: "msgs ident = (payload, hs)" by (cases "msgs ident")
  have f: "fragmentable payload hs" and i: "i < num_chunks_of payload hs"
    and sc: "sc (take hs payload) \<noteq> None"
    using ok by (simp_all add: arrival_ok_def a m header_of_def fragment_count_def)
  obtain page where page: "nth_fragment payload hs ident i = Some page"
    using nth_fragment_eq [OF f i] by auto
  have merging: "merging payload hs (seen ident) (allocs ident)"
    using rel by (simp add: reassembly_rel_def m split: prod.splits) (metis fst_conv m snd_conv)
  show "\<exists>allocs'. receive_fragment msgs ov sc a allocs = Some (fst (collect_fragment msgs sc a seen), allocs') \<and>
      reassembly_rel msgs allocs' (snd (collect_fragment msgs sc a seen))"
  proof (cases "sc (take hs payload) = Some True")
    case True
    from handle_fragment [where sc = sc and ov = ov and allocs = allocs, OF f i page True merging]
    show ?thesis
      using rel True
      by (auto simp: receive_fragment_def collect_fragment_def a m page header_of_def
          fragment_count_def completes_def reassembly_rel_def Let_def split: if_splits)
  next
    case False
    with sc have "sc (take hs payload) = Some False" by auto
    from handle_unwanted [where sc = sc and ov = ov and allocs = allocs, OF f i page this]
    show ?thesis
      using rel False
      by (simp add: receive_fragment_def collect_fragment_def a m page header_of_def)
  qed
qed

lemma reassembly_start: "reassembly_rel msgs Map.empty (\<lambda>_. {})"
  by (simp add: reassembly_rel_def merging_def)

text \<open>In the specification a message depends on its own fragments only.\<close>

definition own_events :: "u64 \<Rightarrow> arrival list \<Rightarrow> 'e list \<Rightarrow> 'e list" where
  "own_events ident as es = map snd (filter (\<lambda>p. fst (fst p) = ident) (zip as es))"

lemma collect_other:
  "fst a \<noteq> ident \<Longrightarrow> snd (collect_fragment msgs sc a seen) ident = seen ident"
  by (simp add: collect_fragment_def Let_def)

lemma collect_untouched:
  "\<forall>a \<in> set as. fst a \<noteq> ident \<Longrightarrow> snd (run_total (collect_fragment msgs sc) as s) ident = s ident"
  by (induction as arbitrary: s)
    (auto simp: run_total_Cons collect_other simp del: run_total.simps(2))

lemma own_events_collect:
  assumes "sc (header_of msgs ident) = Some True"
    and "finite (seen ident)"
    and "distinct (map snd (filter (\<lambda>a. fst a = ident) as))"
    and "set (map snd (filter (\<lambda>a. fst a = ident) as)) \<inter> seen ident = {}"
    and "set (map snd (filter (\<lambda>a. fst a = ident) as)) \<union> seen ident = {..<fragment_count msgs ident}"
    and "filter (\<lambda>a. fst a = ident) as \<noteq> []"
  shows "own_events ident as (fst (run_total (collect_fragment msgs sc) as seen)) =
      replicate (length (filter (\<lambda>a. fst a = ident) as) - 1) None @ [Some (msgs ident)] \<and>
    snd (run_total (collect_fragment msgs sc) as seen) ident = {}"
  using assms
proof (induction as arbitrary: seen)
  case Nil
  then show ?case by simp
next
  case (Cons a as)
  let ?own = "\<lambda>a. fst a = ident"
  obtain e seen1 where step: "collect_fragment msgs sc a seen = (e, seen1)" by fastforce
  show ?case
  proof (cases "fst a = ident")
    case False
    with step have "seen1 ident = seen ident" by (metis collect_other snd_conv)
    with Cons.IH [of seen1] Cons.prems False show ?thesis
      by (simp add: step own_events_def run_total_Cons del: run_total.simps(2))
  next
    case True
    let ?i = "snd a"
    have new: "?i \<notin> seen ident" using Cons.prems(4) True by auto
    show ?thesis
    proof (cases "filter ?own as = []")
      case last: True
      have full: "insert ?i (seen ident) = {..<fragment_count msgs ident}"
        using Cons.prems(5) True last by simp
      have none: "own_events ident as es = []" for es :: "'x list"
      proof -
        have "\<forall>p \<in> set (zip as es). fst (fst p) \<noteq> ident"
          using last by (force simp: filter_empty_conv dest: set_zip_leftD)
        then show ?thesis by (simp add: own_events_def filter_empty_conv)
      qed
      have keep: "snd (run_total (collect_fragment msgs sc) as s) ident = s ident" for s
        using last by (intro collect_untouched) (auto simp: filter_empty_conv)
      have "e = Some (msgs ident)" "seen1 = seen(ident := {})"
        using step new full True Cons.prems(1) by (auto simp: collect_fragment_def Let_def)
      then show ?thesis
        using step True last none [of "fst (run_total (collect_fragment msgs sc) as seen1)"]
        by (simp add: own_events_def run_total_Cons keep del: run_total.simps(2))
    next
      case False
      have more: "insert ?i (seen ident) \<noteq> {..<fragment_count msgs ident}"
      proof -
        obtain b where "b \<in> set as" "fst b = ident" using False by (auto simp: filter_empty_conv)
        then have b: "snd b \<in> set (map snd (filter ?own as))" by simp
        have "snd b \<noteq> ?i" using b Cons.prems(3) True by auto
        moreover have "snd b \<notin> seen ident" using b Cons.prems(4) True by auto
        moreover have "snd b \<in> {..<fragment_count msgs ident}" using b Cons.prems(5) True by auto
        ultimately show ?thesis by blast
      qed
      then have e: "e = None" "seen1 = seen(ident := insert ?i (seen ident))"
        using step new True Cons.prems(1) by (auto simp: collect_fragment_def Let_def)
      have "own_events ident as (fst (run_total (collect_fragment msgs sc) as seen1)) =
            replicate (length (filter ?own as) - 1) None @ [Some (msgs ident)] \<and>
          snd (run_total (collect_fragment msgs sc) as seen1) ident = {}"
        using Cons.prems True False by (intro Cons.IH) (auto simp: e)
      moreover obtain k where "length (filter ?own as) = Suc k" using False by (cases "filter ?own as") auto
      ultimately show ?thesis
        using True step e(1)
        by (simp add: own_events_def run_total_Cons del: run_total.simps(2))
    qed
  qed
qed

end
