(* ===== verification/Iox2_Send.thy ===== *)
theory Iox2_Send
  imports Iox2_Port Iox2_Reassembly "HOL-Library.Multiset"
begin

text \<open>
  Lemmas on the sending side: pages never overflow, what is published and in which order, how the
  retry loop ends; and the receiver's run over the pages of one payload.
\<close>

section \<open>Pages always fit\<close>

lemma single_page_fits: "length payload \<le> PRESET_N - 8 - 8 - 8 \<Longrightarrow> single_page payload hs \<noteq> None"
  using single_page_eq [of payload hs] by (simp add: PRESET_N_def)

lemma sized_page_fits: "length payload \<le> PRESET_N - 8 \<Longrightarrow> sized_page payload \<noteq> None"
  using sized_page_eq [of payload] by (simp add: PRESET_N_def)

lemma send_chunks_no_panic:
  assumes "length header = hs" and "\<forall>ch \<in> set chs. hs + length ch + 32 \<le> PRESET_N"
  shows "send_chunks api cells r n ident hs header i chs w \<noteq> Some Panics"
  using assms(2)
proof (induction chs arbitrary: i w)
  case Nil
  then show ?case by simp
next
  case (Cons ch chs)
  then show ?case
    using fragment_page_eq [OF assms(1), of ch r n ident i]
    by (auto split: option.split prod.split sum.split)
qed

lemma length_body_chunk:
  assumes "hs < 992" and "ch \<in> set (body_chunks payload hs)"
  shows "hs + length ch + 32 \<le> PRESET_N"
proof -
  obtain i where "i < length (body_chunks payload hs)" "ch = body_chunks payload hs ! i"
    using assms(2) by (metis in_set_conv_nth)
  then have "length ch \<le> chunk_size_of hs"
    by (simp add: body_chunks_def chunks_nth)
  with assms(1) show ?thesis by (simp add: chunk_size_of_def PRESET_N_def)
qed

section \<open>Retrying\<close>

lemma send_page_retry_step:
  "send_page_retry api cells page backoff w =
     (case send_page api cells page w of
        (Inr _, w1) \<Rightarrow> Some (Inr (), w1)
      | (Inl _, w1) \<Rightarrow>
          (case node_pause api cells backoff w1 of
             (Inl e, w2) \<Rightarrow> Some (Inl e, w2)
           | (Inr _, w2) \<Rightarrow> send_page_retry api cells page (min 8000 (backoff * 2)) w2))"
  by (rule send_page_retry.simps)

text \<open>The \<open>j\<close>-th wait of the loop.\<close>

definition backoff_at :: "nat \<Rightarrow> nat" where
  "backoff_at j = min 8000 (100 * 2 ^ j)"

lemma backoff_step: "min 8000 (backoff_at j * 2) = backoff_at (Suc j)"
  by (simp add: backoff_at_def)

lemma send_page_retry_attempts:
  assumes "\<And>j. j < k \<Longrightarrow> \<exists>e u. send_page api cells page (ws j) = (Inl e, u) \<and>
      node_pause api cells (backoff_at (m + j)) u = (Inr (), ws (Suc j))"
    and "send_page api cells page (ws k) = (Inr (), w')"
  shows "send_page_retry api cells page (backoff_at m) (ws 0) = Some (Inr (), w')"
  using assms
proof (induction k arbitrary: m ws)
  case 0
  then show ?case by (simp add: send_page_retry_step)
next
  case (Suc k)
  from Suc.prems(1) [of 0] obtain e u where first:
    "send_page api cells page (ws 0) = (Inl e, u)"
    "node_pause api cells (backoff_at m) u = (Inr (), ws 1)" by auto
  have "send_page_retry api cells page (backoff_at (Suc m)) ((\<lambda>j. ws (Suc j)) 0) = Some (Inr (), w')"
  proof (rule Suc.IH)
    fix j assume "j < k"
    then show "\<exists>e u. send_page api cells page (ws (Suc j)) = (Inl e, u) \<and>
        node_pause api cells (backoff_at (Suc m + j)) u = (Inr (), ws (Suc (Suc j)))"
      using Suc.prems(1) [of "Suc j"] by simp
  qed (rule Suc.prems(2))
  then show ?case
    by (simp add: send_page_retry_step [of _ _ _ _ "ws 0"] first backoff_step)
qed

text \<open>On a thread with a node but no publisher the loop never ends.\<close>

definition waits_quietly :: "('w, 'h) iox2_api \<Rightarrow> 'h iox2_tls \<Rightarrow> bool" where
  "waits_quietly api cells \<longleftrightarrow> (\<forall>t w. fst (node_pause api cells t w) = Inr ())"

lemma waits_quietlyD: "node_pause api cells t w = (Inl e, w1) \<Longrightarrow> \<not> waits_quietly api cells"
  unfolding waits_quietly_def by (metis fst_conv sum.distinct(1))

lemma send_page_retry_diverges:
  assumes "iox2_pub cells = None" and "waits_quietly api cells"
  shows "send_page_retry api cells page backoff w = None"
proof -
  have "\<not> (iox2_pub cells = None \<and> waits_quietly api cells)"
    if "send_page_retry api cells page backoff w = Some r" for r
    using that
    by (rule send_page_retry.raw_induct [where P = "\<lambda>api cells page backoff w r.
          \<not> (iox2_pub cells = None \<and> waits_quietly api cells)", rotated])
      (auto simp: send_page_def split: prod.splits sum.splits dest: waits_quietlyD)
  with assms show ?thesis by (metis option.exhaust)
qed

section \<open>What is published\<close>

text \<open>
  A world in which sending works out: \<open>log\<close> is what was published, and \<open>trouble\<close> bounds the failures
  still to come. An attempt publishes its page or fails and publishes nothing; pausing, notifying and
  drawing random numbers publish nothing and do not fail.
\<close>

definition lossless ::
  "('w, 'h) iox2_api \<Rightarrow> 'h iox2_tls \<Rightarrow> ('w \<Rightarrow> blob list) \<Rightarrow> ('w \<Rightarrow> nat) \<Rightarrow> bool" where
  "lossless api cells log trouble \<longleftrightarrow>
     (\<forall>w page. case send_page api cells page w of
        (Inr _, w1) \<Rightarrow> log w1 = log w @ [page]
      | (Inl _, w1) \<Rightarrow> log w1 = log w \<and> trouble w1 < trouble w) \<and>
     (\<forall>w t. case node_pause api cells t w of
        (Inr _, w1) \<Rightarrow> log w1 = log w \<and> trouble w1 \<le> trouble w | (Inl _, _) \<Rightarrow> False) \<and>
     (\<forall>w. case notify api cells 0 w of (Inr _, w1) \<Rightarrow> log w1 = log w | (Inl _, _) \<Rightarrow> False) \<and>
     (\<forall>w. log (snd (random_u64 api w)) = log w)"

lemma lossless_send:
  assumes "lossless api cells log trouble"
  obtains (published) w1 where "send_page api cells page w = (Inr (), w1)" "log w1 = log w @ [page]"
  | (failed) e w1 where "send_page api cells page w = (Inl e, w1)" "log w1 = log w" "trouble w1 < trouble w"
proof -
  obtain r w1 where eq: "send_page api cells page w = (r, w1)" by (cases "send_page api cells page w")
  moreover have "case send_page api cells page w of
      (Inr _, w1) \<Rightarrow> log w1 = log w @ [page]
    | (Inl _, w1) \<Rightarrow> log w1 = log w \<and> trouble w1 < trouble w"
    using assms by (simp add: lossless_def)
  ultimately show ?thesis using that by (cases r) auto
qed

lemma lossless_pause:
  assumes "lossless api cells log trouble"
  obtains w1 where "node_pause api cells t w = (Inr (), w1)" "log w1 = log w" "trouble w1 \<le> trouble w"
proof -
  obtain r w1 where eq: "node_pause api cells t w = (r, w1)" by (cases "node_pause api cells t w")
  moreover have "case node_pause api cells t w of
      (Inr _, w1) \<Rightarrow> log w1 = log w \<and> trouble w1 \<le> trouble w | (Inl _, _) \<Rightarrow> False"
    using assms by (simp add: lossless_def)
  ultimately show ?thesis using that by (cases r) auto
qed

lemma lossless_notify:
  assumes "lossless api cells log trouble"
  obtains n w1 where "notify api cells 0 w = (Inr n, w1)" "log w1 = log w"
proof -
  obtain r w1 where eq: "notify api cells 0 w = (r, w1)" by (cases "notify api cells 0 w")
  moreover have "case notify api cells 0 w of (Inr _, w1) \<Rightarrow> log w1 = log w | (Inl _, _) \<Rightarrow> False"
    using assms by (simp add: lossless_def)
  ultimately show ?thesis using that by (cases r) auto
qed

lemma lossless_random: "random_u64 api w = (x, w1) \<Longrightarrow> lossless api cells log trouble \<Longrightarrow> log w1 = log w"
  unfolding lossless_def by (metis snd_conv)

lemma retry_publishes:
  assumes l: "lossless api cells log trouble"
  shows "\<exists>w1. send_page_retry api cells page backoff w = Some (Inr (), w1) \<and> log w1 = log w @ [page]"
proof (induction "trouble w" arbitrary: w backoff rule: less_induct)
  case less
  from l show ?case
  proof (cases rule: lossless_send [where page = page and w = w])
    case (published w1)
    then show ?thesis by (simp add: send_page_retry_step)
  next
    case (failed e w1)
    obtain w2 where w2: "node_pause api cells backoff w1 = (Inr (), w2)" "log w2 = log w1"
      "trouble w2 \<le> trouble w1" by (rule lossless_pause [OF l])
    from less [of w2 "min 8000 (backoff * 2)"] failed w2 show ?thesis
      by (simp add: send_page_retry_step [of _ _ _ _ w])
  qed
qed

lemma chunks_publish:
  assumes l: "lossless api cells log trouble"
    and "list_all2 (\<lambda>(k, ch) page. fragment_page r n ident hs header k ch = Some page)
      (enumerate i chs) pages"
  shows "\<exists>w1. send_chunks api cells r n ident hs header i chs w = Some (Returns (Inr (), w1)) \<and>
    log w1 = log w @ pages"
  using assms(2)
proof (induction chs arbitrary: i pages w)
  case Nil
  then show ?case by simp
next
  case (Cons ch chs)
  then obtain page ps where pages: "pages = page # ps"
    and page: "fragment_page r n ident hs header i ch = Some page"
    and rest: "list_all2 (\<lambda>(k, ch) page. fragment_page r n ident hs header k ch = Some page)
      (enumerate (Suc i) chs) ps"
    by (auto simp: list_all2_Cons1)
  from retry_publishes [OF l, of page 100 w] obtain w1 where
    w1: "send_page_retry api cells page 100 w = Some (Inr (), w1)" "log w1 = log w @ [page]" by blast
  obtain m w2 where w2: "notify api cells 0 w1 = (Inr m, w2)" "log w2 = log w1"
    by (rule lossless_notify [OF l])
  from Cons.IH [OF rest, of w2] w1 w2 page pages show ?case by auto
qed

lemma draw_identification_log:
  assumes "draw_identification api w = Some (ident, w1)" and l: "lossless api cells log trouble"
  shows "ident \<noteq> 0 \<and> log w1 = log w"
proof -
  have "lossless api cells log trouble \<longrightarrow> fst (ident, w1) \<noteq> 0 \<and> log (snd (ident, w1)) = log w"
    using assms(1)
    by (rule draw_identification.raw_induct [where P = "\<lambda>api w r.
          lossless api cells log trouble \<longrightarrow> fst r \<noteq> 0 \<and> log (snd r) = log w", rotated])
      (auto split: prod.splits if_splits dest: lossless_random)
  with l show ?thesis by simp
qed

lemma send_stream_fragments:
  assumes l: "lossless api cells log trouble" and f: "fragmentable payload hs"
    and long: "PRESET_N - 8 - 8 - 8 < length payload"
    and draw: "draw_identification api w = Some (ident, w0)"
  obtains w' pages where
    "iox2_send_stream api cells payload hs w = Some (Returns (Inr (), w'))"
    "log w' = log w @ pages"
    "map Some pages = map (nth_fragment payload hs ident) [0..<num_chunks_of payload hs]"
proof -
  let ?n = "num_chunks_of payload hs"
  define page where "page = (\<lambda>i. the (nth_fragment payload hs ident i))"
  have page: "nth_fragment payload hs ident i = Some (page i)" if "i < ?n" for i
    using nth_fragment_eq [OF f that] by (simp add: page_def)
  have "list_all2 (\<lambda>(k, ch) p. fragment_page (body_remainder payload hs) ?n ident hs (take hs payload) k ch
      = Some p) (enumerate 0 (body_chunks payload hs)) (map page [0..<?n])"
    using page by (auto simp: list_all2_conv_all_nth nth_enumerate_eq nth_fragment_def)
  from chunks_publish [OF l this, of w0] obtain w' where
    w': "send_chunks api cells (body_remainder payload hs) ?n ident hs (take hs payload) 0
        (body_chunks payload hs) w0 = Some (Returns (Inr (), w'))"
      "log w' = log w0 @ map page [0..<?n]" by blast
  have "iox2_send_stream api cells payload hs w = Some (Returns (Inr (), w'))"
    using f long draw w'(1) by (simp add: iox2_send_stream_def fragmentable_def)
  moreover have "log w' = log w @ map page [0..<?n]"
    using w'(2) draw_identification_log [OF draw l] by simp
  moreover have "map Some (map page [0..<?n]) = map (nth_fragment payload hs ident) [0..<?n]"
    using page by simp
  ultimately show ?thesis by (rule that)
qed

section \<open>One payload, in any order\<close>

lemma mset_map_preimage:
  "mset ps = mset (map f xs) \<Longrightarrow> \<exists>ys. mset ys = mset xs \<and> ps = map f ys"
proof (induction ps arbitrary: xs)
  case Nil
  then show ?case by simp
next
  case (Cons p ps)
  then have "p \<in> set (map f xs)" by (metis list.set_intros(1) set_mset_mset)
  then obtain x where x: "x \<in> set xs" "p = f x" by auto
  then have "mset ps = mset (map f (remove1 x xs))"
    using Cons.prems [symmetric] by (simp add: image_mset_Diff)
  from Cons.IH [OF this] obtain ys where "mset ys = mset (remove1 x xs)" "ps = map f ys" by blast
  with x show ?case by (intro exI [of _ "x # ys"]) simp
qed

lemma fragments_any_order:
  assumes f: "fragmentable payload hs" and sc: "sc (take hs payload) = Some True"
    and pages: "map Some pages = map (nth_fragment payload hs ident) [0..<num_chunks_of payload hs]"
    and perm: "mset ps = mset pages"
  shows "run_events (handle_page ov sc) ps Map.empty =
    Some (replicate (length ps - 1) None @ [Some (payload, hs)], Map.empty)"
proof -
  let ?n = "num_chunks_of payload hs"
  define msgs :: msg_table where "msgs = (\<lambda>_. (payload, hs))"
  define page where "page = (\<lambda>a :: arrival. the (nth_fragment payload hs ident (snd a)))"
  have "pages = map the (map Some pages)" by (simp add: comp_def)
  also have "\<dots> = map page (map (Pair ident) [0..<?n])"
    unfolding pages by (simp add: page_def comp_def)
  finally have "mset ps = mset (map page (map (Pair ident) [0..<?n]))" using perm by simp
  then obtain as where as: "mset as = mset (map (Pair ident) [0..<?n])" "ps = map page as"
    using mset_map_preimage by blast
  have set_as: "set as = Pair ident ` {..<?n}"
    using mset_eq_setD [OF as(1)] by (simp add: lessThan_atLeast0)
  have dist: "distinct as"
    using as(1) by (metis distinct_map distinct_upt inj_on_def mset_eq_imp_distinct_iff prod.inject)
  have own: "filter (\<lambda>a. fst a = ident) as = as" using set_as by (auto simp: filter_id_conv)
  have snds: "set (map snd as) = {..<?n}" using set_as by (auto simp: image_iff)
  have dist_snd: "distinct (map snd as)"
    using dist set_as by (auto simp: distinct_map inj_on_def)
  have same: "run_events (handle_page ov sc) ps Map.empty = run_events (receive_fragment msgs ov sc) as Map.empty"
    unfolding as(2) run_events_map
  proof (rule run_events_cong)
    fix a s assume "a \<in> set as"
    then have "fst a = ident" "snd a < ?n" using set_as by auto
    then show "handle_page ov sc (page a) s = receive_fragment msgs ov sc a s"
      using nth_fragment_eq [OF f, of "snd a" ident]
      by (simp add: receive_fragment_def page_def msgs_def)
  qed
  have "list_all (arrival_ok msgs sc) as"
    using f sc set_as
    by (auto simp: list_all_iff arrival_ok_def msgs_def header_of_def fragment_count_def)
  from reassembly.run_agrees [OF reassembly_start this, of ov] obtain allocs where
    run: "run_events (receive_fragment msgs ov sc) as Map.empty =
        Some (fst (run_total (collect_fragment msgs sc) as (\<lambda>_. {})), allocs)"
      and rel: "reassembly_rel msgs allocs (snd (run_total (collect_fragment msgs sc) as (\<lambda>_. {})))"
    by blast
  have len: "length (fst (run_total (collect_fragment msgs sc) as s)) = length as" for s
    by (induction as arbitrary: s) (simp_all add: run_total_Cons del: run_total.simps(2))
  have ne: "as \<noteq> []" using num_chunks_pos [OF f] snds by auto
  have "own_events ident as (fst (run_total (collect_fragment msgs sc) as (\<lambda>_. {}))) =
        replicate (length as - 1) None @ [Some (payload, hs)] \<and>
      snd (run_total (collect_fragment msgs sc) as (\<lambda>_. {})) ident = {}"
    using own_events_collect [of sc msgs ident "\<lambda>_. {}" as] sc own snds dist_snd ne
    by (simp add: msgs_def header_of_def fragment_count_def)
  moreover have "own_events ident as es = es" if "length es = length as" for es :: "(byte list \<times> nat) option list"
  proof -
    have "filter (\<lambda>p. fst (fst p) = ident) (zip as es) = zip as es"
      using set_as by (auto simp: filter_id_conv dest!: set_zip_leftD)
    with that show ?thesis by (simp add: own_events_def)
  qed
  ultimately have events: "fst (run_total (collect_fragment msgs sc) as (\<lambda>_. {})) =
      replicate (length as - 1) None @ [Some (payload, hs)]"
    and seen: "snd (run_total (collect_fragment msgs sc) as (\<lambda>_. {})) ident = {}"
    using len by simp_all
  have "snd (run_total (collect_fragment msgs sc) as (\<lambda>_. {})) k = {}" for k
    using seen collect_untouched [of as k msgs sc "\<lambda>_. {}"] set_as by (cases "k = ident") auto
  then have "merging (fst (msgs k)) (snd (msgs k)) {} (allocs k)" for k
    using rel unfolding reassembly_rel_def by metis
  then have "allocs k = None" for k
    by (rule merging_empty)
  then have "allocs = Map.empty" by (rule ext)
  with same run events as(2) show ?thesis by simp
qed

end
