(* ===== verification/Iox2_Lifecycle.thy ===== *)
theory Iox2_Lifecycle
  imports Iox2_Port
begin

text \<open>
  Lemmas on initialisation (which thread-local cells it fills) and on the receiving loop.
\<close>

section \<open>The \<open>?\<close> operator\<close>

lemma try_bind_Inr:
  "try_bind m f s = (Inr b, s2) \<longleftrightarrow> (\<exists>a s1. m s = (Inr a, s1) \<and> f a s1 = (Inr b, s2))"
  by (auto simp: try_bind_def split: prod.splits sum.splits)

lemma try_bind_Inl:
  "try_bind m f s = (Inl e, s2) \<longleftrightarrow>
     m s = (Inl e, s2) \<or> (\<exists>a s1. m s = (Inr a, s1) \<and> f a s1 = (Inl e, s2))"
  by (auto simp: try_bind_def split: prod.splits sum.splits)

lemma on_world_Inr: "on_world wrap f (c, w) = (Inr a, c1, w1) \<longleftrightarrow> f w = (Inr a, w1) \<and> c1 = c"
  by (auto simp: on_world_def split: prod.splits sum.splits)

lemma on_world_Inl:
  "on_world wrap f (c, w) = (Inl e, c1, w1) \<longleftrightarrow> (\<exists>x. f w = (Inl x, w1) \<and> e = wrap x) \<and> c1 = c"
  by (auto simp: on_world_def split: prod.splits sum.splits)

section \<open>Steps that respect the cells\<close>

text \<open>
  A step moves along a preorder on the cells if whatever it returns, an error included, the cells after
  it are related to those before.
\<close>

definition moves_along :: "('t \<Rightarrow> 't \<Rightarrow> bool) \<Rightarrow> ('t \<times> 'w \<Rightarrow> 'r \<times> 't \<times> 'w) \<Rightarrow> bool" where
  "moves_along R f \<longleftrightarrow> (\<forall>s r s1. f s = (r, s1) \<longrightarrow> R (fst s) (fst s1))"

locale cell_order =
  fixes R :: "'t \<Rightarrow> 't \<Rightarrow> bool"
  assumes refl: "R c c" and trans: "R a b \<Longrightarrow> R b c \<Longrightarrow> R a c"
begin

lemma bind: "moves_along R m \<Longrightarrow> (\<And>a. moves_along R (f a)) \<Longrightarrow> moves_along R (try_bind m f)"
  unfolding moves_along_def try_bind_def
  by (fastforce split: prod.splits sum.splits intro: trans)

lemma world: "moves_along R (on_world wrap f)"
  by (auto simp: moves_along_def on_world_def refl split: prod.splits)

lemma cells: "(\<And>c. R c (g c)) \<Longrightarrow> moves_along R (on_cells g)"
  by (auto simp: moves_along_def on_cells_def split: prod.splits)

lemma ok: "moves_along R (try_ok a)"
  by (simp add: moves_along_def try_ok_def refl)

end

lemma create_port_along:
  assumes R: "cell_order R" and "\<And>p c. R c (cell (get_or_init p) c)"
  shows "moves_along R (create_port wanted wrap create cell)"
proof (cases wanted)
  case True
  have "moves_along R (try_bind (on_world wrap create) (\<lambda>p. on_cells (cell (get_or_init p))))"
    by (intro cell_order.bind [OF R] cell_order.world [OF R] cell_order.cells [OF R] assms(2))
  with True show ?thesis by (simp add: create_port_def)
qed (simp add: create_port_def cell_order.ok [OF R])

lemma write_config_along:
  assumes R: "cell_order R"
  shows "moves_along R (write_config_if_missing api config_path root)"
  using cell_order.ok [OF R] cell_order.world [OF R]
  unfolding moves_along_def write_config_if_missing_def by metis

text \<open>Cells that are set stay as they are.\<close>

definition keeps :: "'a option \<Rightarrow> 'a option \<Rightarrow> bool" where
  "keeps x y \<longleftrightarrow> (x = None \<or> y = x)"

definition cells_kept :: "'h iox2_tls \<Rightarrow> 'h iox2_tls \<Rightarrow> bool" where
  "cells_kept a b \<longleftrightarrow>
     keeps (project_root_path a) (project_root_path b) \<and>
     keeps (iox2_custom_config a) (iox2_custom_config b) \<and>
     keeps (iox2_node a) (iox2_node b) \<and>
     keeps (iox2_service_events a) (iox2_service_events b) \<and>
     keeps (iox2_notif a) (iox2_notif b) \<and> keeps (iox2_liste a) (iox2_liste b) \<and>
     keeps (iox2_service_pub_sub a) (iox2_service_pub_sub b) \<and>
     keeps (iox2_pub a) (iox2_pub b) \<and> keeps (iox2_sub a) (iox2_sub b) \<and>
     merge_allocs a = merge_allocs b"

lemma keeps_get_or_init [simp]: "keeps c (get_or_init v c)" "keeps c c"
  by (auto simp: keeps_def get_or_init_def split: option.split)

lemma keeps_trans: "keeps x y \<Longrightarrow> keeps y z \<Longrightarrow> keeps x z"
  by (auto simp: keeps_def)

interpretation kept: cell_order cells_kept
proof
  show "cells_kept c c" for c :: "'h iox2_tls" by (simp add: cells_kept_def)
  show "cells_kept a c" if "cells_kept a b" "cells_kept b c" for a b c :: "'h iox2_tls"
    using that unfolding cells_kept_def by (elim conjE, intro conjI) (erule (1) keeps_trans | simp)+
qed

lemmas kept_port = create_port_along [OF kept.cell_order_axioms]
lemmas kept_config = write_config_along [OF kept.cell_order_axioms]

lemma init_keeps: "moves_along cells_kept (iox2_init api path flags)"
  unfolding iox2_init_def Let_def
  by (intro kept.bind kept.world kept_port kept_config kept.cells) (simp_all add: cells_kept_def)


text \<open>Until the last step, the node cell is not touched.\<close>

definition same_node :: "'h iox2_tls \<Rightarrow> 'h iox2_tls \<Rightarrow> bool" where
  "same_node a b \<longleftrightarrow> iox2_node a = iox2_node b"

interpretation node: cell_order same_node
  by unfold_locales (auto simp: same_node_def)

lemmas node_port = create_port_along [OF node.cell_order_axioms]
lemmas node_config = write_config_along [OF node.cell_order_axioms]

definition errs_along ::
  "('t \<Rightarrow> 't \<Rightarrow> bool) \<Rightarrow> ('t \<times> 'w \<Rightarrow> ('e + 'a) \<times> 't \<times> 'w) \<Rightarrow> bool" where
  "errs_along R f \<longleftrightarrow> (\<forall>s e s1. f s = (Inl e, s1) \<longrightarrow> R (fst s) (fst s1))"

context cell_order begin

lemma err_bind:
  "moves_along R m \<Longrightarrow> (\<And>a. errs_along R (f a)) \<Longrightarrow> errs_along R (try_bind m f)"
  unfolding moves_along_def errs_along_def try_bind_def
  by (fastforce split: prod.splits sum.splits intro: trans)

lemma err_cells: "errs_along R (on_cells g)"
  by (simp add: errs_along_def on_cells_def split: prod.splits)

end


lemma init_error_node: "errs_along same_node (iox2_init api path flags)"
  unfolding iox2_init_def Let_def
  by (intro node.err_bind node.err_cells node.world node_port node_config) (simp_all add: same_node_def)

text \<open>A successful \<open>init\<close> sets the node and the ports its flags ask for.\<close>

lemma try_bind_InrE:
  assumes "try_bind m f s = (Inr b, c2, w2)"
  obtains a c1 w1 where "m s = (Inr a, c1, w1)" "f a (c1, w1) = (Inr b, c2, w2)"
  using assms by (auto simp: try_bind_Inr)

lemma on_world_cells: "on_world wrap f (c, w) = (Inr a, c1, w1) \<Longrightarrow> c1 = c"
  by (simp add: on_world_Inr)

lemma on_cells_cells: "on_cells g (c, w) = (r, c1, w1) \<Longrightarrow> c1 = g c"
  by (simp add: on_cells_def)

lemma create_port_cells:
  assumes "create_port wanted wrap create cell (c, w) = (Inr u, c1, w1)"
  obtains p where "c1 = (if wanted then cell (get_or_init p) c else c)"
  using assms
  by (auto simp: create_port_def try_bind_Inr on_world_Inr on_cells_def try_ok_def split: if_splits)

lemma write_config_cells:
  "write_config_if_missing api config_path root (c, w) = (Inr u, c1, w1) \<Longrightarrow> c1 = c"
  by (auto simp: write_config_if_missing_def on_world_Inr try_ok_def split: if_splits)

lemma get_or_init_set [simp]: "get_or_init v c \<noteq> None"
  by (simp add: get_or_init_def split: option.split)

lemma init_ports:
  assumes "iox2_init api path flags (c, w) = (Inr u, c', w')"
  shows "iox2_node c' \<noteq> None \<and>
    (iox2_sub c' \<noteq> None \<longleftrightarrow> iox2_sub c \<noteq> None \<or> intersects flags IOX2_CREAT_SUBSCRIBER) \<and>
    (iox2_pub c' \<noteq> None \<longleftrightarrow> iox2_pub c \<noteq> None \<or> intersects flags IOX2_CREAT_PUBLISHER) \<and>
    (iox2_liste c' \<noteq> None \<longleftrightarrow> iox2_liste c \<noteq> None \<or> intersects flags IOX2_CREAT_LISTENER) \<and>
    (iox2_notif c' \<noteq> None \<longleftrightarrow> iox2_notif c \<noteq> None \<or> intersects flags IOX2_CREAT_NOTIFIER)"
  using assms unfolding iox2_init_def Let_def
  apply (elim try_bind_InrE)
  apply (drule on_cells_cells)
  apply (drule on_world_cells)+
  apply (drule write_config_cells)
  apply (elim create_port_cells)
  apply (simp del: not_None_eq)
  done

section \<open>The receiving loop\<close>

text \<open>A subscriber whose buffer is \<open>q\<close>: receiving takes the oldest page.\<close>

definition buffered :: "('w, 'h) iox2_api \<Rightarrow> 'h \<Rightarrow> ('w \<Rightarrow> blob list) \<Rightarrow> bool" where
  "buffered api sub q \<longleftrightarrow>
     (\<forall>w. case q w of
        [] \<Rightarrow> True
      | page # pages \<Rightarrow> \<exists>w1. sub_receive api sub w = (Inr (Some page), w1) \<and> q w1 = pages)"

lemma buffered_receive:
  assumes "buffered api sub q" and "q w = page # pages"
  obtains w1 where "sub_receive api sub w = (Inr (Some page), w1)" "q w1 = pages"
proof -
  have "case q w of [] \<Rightarrow> True
      | page # pages \<Rightarrow> \<exists>w1. sub_receive api sub w = (Inr (Some page), w1) \<and> q w1 = pages"
    using assms(1) by (simp add: buffered_def)
  with assms(2) that show ?thesis by auto
qed

lemma try_recv_page:
  assumes "iox2_sub cells = Some sub" and "sub_receive api sub w = (Inr (Some page), w1)"
    and "handle_page ov sc page (merge_allocs cells) = Some (r, allocs)"
  shows "iox2_try_recv_stream ov api sc (cells, w) =
    Returns (Inr (case r of None \<Rightarrow> PotentiallyAvailable | Some (msg, hs) \<Rightarrow> NewCompleted msg hs),
      cells\<lparr>merge_allocs := allocs\<rparr>, w1)"
  using assms by (simp add: iox2_try_recv_stream_def recv_page_def split: option.splits prod.splits)

text \<open>The loop takes pages until one completes a message.\<close>

lemma recv_stream_run:
  assumes buf: "buffered api sub q" and sub: "iox2_sub cells = Some sub"
    and "q w = pages @ later"
    and "run_events (handle_page ov sc) pages (merge_allocs cells) =
      Some (replicate k None @ [Some (msg, hs)], allocs)"
  obtains w' where
    "iox2_recv_stream ov api sc (cells, w) = Some (Returns (Inr msg, cells\<lparr>merge_allocs := allocs\<rparr>, w'))"
    "q w' = later"
proof -
  have "\<exists>w'. iox2_recv_stream ov api sc (cells, w) =
      Some (Returns (Inr msg, cells\<lparr>merge_allocs := allocs\<rparr>, w')) \<and> q w' = later"
    using assms(2-4)
  proof (induction k arbitrary: pages cells w)
    case 0
    then obtain page where pages: "pages = [page]"
      and h: "handle_page ov sc page (merge_allocs cells) = Some (Some (msg, hs), allocs)"
      by (cases pages) (auto split: option.splits prod.splits elim: run_events.elims)
    obtain w1 where "sub_receive api sub w = (Inr (Some page), w1)" "q w1 = later"
      by (rule buffered_receive [OF buf, of w page later]) (use "0.prems"(2) pages in auto)
    with try_recv_page [where ov = ov and sc = sc, OF "0.prems"(1) this(1) h] show ?case
      by (simp add: iox2_recv_stream.simps)
  next
    case (Suc k)
    then obtain page rest allocs1 where pages: "pages = page # rest"
      and h: "handle_page ov sc page (merge_allocs cells) = Some (None, allocs1)"
      and run: "run_events (handle_page ov sc) rest allocs1 = Some (replicate k None @ [Some (msg, hs)], allocs)"
      by (cases pages) (auto split: option.splits prod.splits)
    obtain w1 where w1: "sub_receive api sub w = (Inr (Some page), w1)" "q w1 = rest @ later"
      by (rule buffered_receive [OF buf, of w page "rest @ later"]) (use Suc.prems(2) pages in auto)
    have "\<exists>w'. iox2_recv_stream ov api sc (cells\<lparr>merge_allocs := allocs1\<rparr>, w1) =
        Some (Returns (Inr msg, (cells\<lparr>merge_allocs := allocs1\<rparr>)\<lparr>merge_allocs := allocs\<rparr>, w')) \<and> q w' = later"
      using Suc.prems(1) w1(2) run by (intro Suc.IH) auto
    with try_recv_page [where ov = ov and sc = sc, OF Suc.prems(1) w1(1) h] show ?case
      by (simp add: iox2_recv_stream.simps [of _ _ _ "(cells, w)"])
  qed
  with that show ?thesis by blast
qed

end
