(* ===== verification/Iox2_Props.thy ===== *)
theory Iox2_Props
  imports Iox2_Send Iox2_Lifecycle
begin

text \<open>
  The properties of the iceoryx2 backing, and a small instance of the library interface (\<open>bus_api\<close>)
  on which the properties with hypotheses are applied.
\<close>

section \<open>An instance of the interface\<close>

text \<open>
  One thread, one buffer: the bus keeps the published pages, and a number of loans that still fail.
\<close>

record bus =
  published :: "blob list"
  failures :: nat

definition plain_fs :: "'a bus_scheme fs_api" where
  "plain_fs = \<lparr>fs_is_dir = (\<lambda>_ _. True), fs_exists = (\<lambda>_ _. True), fs_canonicalize = (\<lambda>p _. Inr p),
     fs_create_dir_all = (\<lambda>_ w. (Inr (), w)), fs_write = (\<lambda>_ _ w. (Inr (), w))\<rparr>"

definition bus_api :: "('a bus_scheme, nat) iox2_api" where
  "bus_api = \<lparr>api_fs = plain_fs, path_text = concat, on_unix = True, on_windows = False,
     file_path_new = (\<lambda>_. Inr ()),
     config_from_file = (\<lambda>_ w. (Inr 0, w)), node_create = (\<lambda>_ w. (Inr 1, w)),
     event_open_or_create = (\<lambda>_ _ w. (Inr 2, w)),
     notifier_create = (\<lambda>_ w. (Inr 3, w)), listener_create = (\<lambda>_ w. (Inr 4, w)),
     pub_sub_open_or_create = (\<lambda>_ _ w. (Inr 5, w)),
     publisher_create = (\<lambda>_ w. (Inr 6, w)), subscriber_create = (\<lambda>_ w. (Inr 7, w)),
     node_wait = (\<lambda>_ _ w. (Inr (), w)), notify_event = (\<lambda>_ _ w. (Inr 1, w)),
     blocking_wait_all = (\<lambda>_ w. if published w = [] then None else Some (Inr (), [0], w)),
     timed_wait_all = (\<lambda>_ _ w. (Inr (), [], w)),
     loan_uninit = (\<lambda>_ w.
       if failures w = 0 then (Inr 8, w) else (Inl ''loan'', w\<lparr>failures := failures w - 1\<rparr>)),
     sample_send = (\<lambda>_ page w. (Inr (), w\<lparr>published := published w @ [page]\<rparr>)),
     sub_receive = (\<lambda>_ w. case published w of
         [] \<Rightarrow> (Inr None, w)
       | page # pages \<Rightarrow> (Inr (Some page), w\<lparr>published := pages\<rparr>)),
     random_u64 = (\<lambda>w. (7, w))\<rparr>"

definition full_cells :: "nat iox2_tls" where
  "full_cells = fst (snd (iox2_init bus_api [] 0b1111 (fresh_tls, \<lparr>published = [], failures = 0\<rparr>)))"

lemmas init_eval = iox2_init_def Let_def try_bind_def on_world_def on_cells_def create_port_def
  build_project_dir_structure_def path_join_def write_config_if_missing_def try_ok_def
  get_or_init_def intersects_def IOX2_CREAT_SUBSCRIBER_def IOX2_CREAT_PUBLISHER_def
  IOX2_CREAT_LISTENER_def IOX2_CREAT_NOTIFIER_def

lemma full_cells_eq: "full_cells = \<lparr>project_root_path = Some [], iox2_custom_config = Some 0,
    iox2_node = Some 1, iox2_service_events = Some 2, iox2_notif = Some 3, iox2_liste = Some 4,
    iox2_service_pub_sub = Some 5, iox2_pub = Some 6, iox2_sub = Some 7, merge_allocs = Map.empty\<rparr>"
  by (simp add: full_cells_def init_eval bus_api_def plain_fs_def fresh_tls_def)

lemma bus_lossless: "lossless bus_api full_cells published failures"
  by (auto simp: lossless_def full_cells_eq bus_api_def send_page_def node_pause_def notify_def)

lemma bus_buffered: "buffered bus_api 7 published"
  by (auto simp: buffered_def bus_api_def split: list.splits)

lemma bus_draw: "draw_identification bus_api w = Some (7, w)"
  by (simp add: draw_identification.simps bus_api_def)

section \<open>Streams\<close>

lemma fragmentable_long:
  assumes "1000 < length payload" and "hs < 992" and "length payload < 2 ^ 32"
  shows "fragmentable payload hs"
proof -
  let ?c = "chunk_size_of hs" and ?b = "drop hs payload"
  have c: "0 < ?c" using assms by (simp add: chunk_size_of_def PRESET_N_def)
  have "length (chunks ?c ?b) \<le> length ?b"
  proof (rule ccontr)
    assume "\<not> length (chunks ?c ?b) \<le> length ?b"
    then have "length ?b * ?c < length ?b" using chunk_index_lt [OF c, of "length ?b" ?b] by simp
    with c show False by simp
  qed
  with assms show ?thesis by (simp add: fragmentable_def body_chunks_def PRESET_N_def)
qed

text \<open>What a send publishes, the receiver completes.\<close>

text \<open>The pages of a payload: one page, or its fragments.\<close>

definition pages_of :: "byte list \<Rightarrow> nat \<Rightarrow> blob list \<Rightarrow> bool" where
  "pages_of payload hs pages \<longleftrightarrow>
     (if length payload \<le> 1000 then \<exists>page. single_page payload hs = Some page \<and> pages = [page]
      else \<exists>ident. map Some pages = map (nth_fragment payload hs ident) [0..<num_chunks_of payload hs])"

lemma sent_pages:
  assumes "lossless api cells log trouble"
    and "hs \<le> length payload" and "length payload \<le> 1000 \<or> hs < 992" and "length payload < 2 ^ 32"
    and "length payload \<le> 1000 \<Longrightarrow> trouble w = 0"
    and "1000 < length payload \<Longrightarrow> draw_identification api w \<noteq> None"
  shows "\<exists>w' pages. iox2_send_stream api cells payload hs w = Some (Returns (Inr (), w')) \<and>
    log w' = log w @ pages \<and> pages_of payload hs pages"
proof (cases "length payload \<le> 1000")
  case True
  then have len: "length payload + 24 \<le> PRESET_N" by (simp add: PRESET_N_def)
  obtain page where page: "single_page payload hs = Some page"
    using single_page_eq [OF len, of hs] by blast
  obtain w1 where w1: "send_page api cells page w = (Inr (), w1)" "log w1 = log w @ [page]"
    using lossless_send [OF assms(1), of page w] assms(5) [OF True] by (metis not_less0)
  obtain n w2 where w2: "notify api cells 0 w1 = (Inr n, w2)" "log w2 = log w1"
    by (rule lossless_notify [OF assms(1)])
  have "iox2_send_stream api cells payload hs w = Some (Returns (Inr (), w2))"
    using True assms(2) by (simp add: iox2_send_stream_def PRESET_N_def page w1(1) w2(1))
  with True page w1(2) w2(2) show ?thesis
    by (intro exI [of _ w2] exI [of _ "[page]"]) (simp add: pages_of_def)
next
  case False
  then have f: "fragmentable payload hs" using assms(3,4) fragmentable_long by auto
  from False obtain ident w0 where draw: "draw_identification api w = Some (ident, w0)"
    using assms(6) by fastforce
  have long: "PRESET_N - 8 - 8 - 8 < length payload" using False by (simp add: PRESET_N_def)
  obtain w' pages where
    "iox2_send_stream api cells payload hs w = Some (Returns (Inr (), w'))" "log w' = log w @ pages"
      "map Some pages = map (nth_fragment payload hs ident) [0..<num_chunks_of payload hs]"
    by (rule send_stream_fragments [OF assms(1) f long draw])
  with False show ?thesis by (intro exI [of _ w'] exI [of _ pages]) (auto simp: pages_of_def)
qed

lemma pages_complete:
  assumes "pages_of payload hs pages" and "hs \<le> length payload" and "length payload \<le> 1000 \<or> hs < 992"
    and "length payload < 2 ^ 32" and "sc (take hs payload) = Some True" and "mset ps = mset pages"
  shows "run_events (handle_page ov sc) ps Map.empty =
    Some (replicate (length ps - 1) None @ [Some (payload, hs)], Map.empty)"
proof (cases "length payload \<le> 1000")
  case True
  then have len: "length payload + 24 \<le> PRESET_N" by (simp add: PRESET_N_def)
  from assms(1,6) True obtain page where page: "single_page payload hs = Some page" "ps = [page]"
    by (auto simp: pages_of_def)
  with handle_single_page [OF len assms(2) page(1), of ov sc] assms(5) show ?thesis by simp
next
  case False
  then have f: "fragmentable payload hs" using assms(3,4) fragmentable_long by auto
  from assms(1) False obtain ident where
    "map Some pages = map (nth_fragment payload hs ident) [0..<num_chunks_of payload hs]"
    by (auto simp: pages_of_def)
  from fragments_any_order [where sc = sc and ov = ov, OF f assms(5) this assms(6)] show ?thesis .
qed

text \<open>Nothing comes of a payload the receiver does not want.\<close>

lemma pages_ignored:
  assumes "pages_of payload hs pages" and "hs \<le> length payload" and "length payload \<le> 1000 \<or> hs < 992"
    and "length payload < 2 ^ 32" and "sc (take hs payload) = Some False"
  shows "run_events (handle_page ov sc) pages allocs = Some (replicate (length pages) None, allocs)"
proof -
  have ignored: "handle_page ov sc page allocs = Some (None, allocs)" if "page \<in> set pages" for page
  proof (cases "length payload \<le> 1000")
    case True
    then have len: "length payload + 24 \<le> PRESET_N" by (simp add: PRESET_N_def)
    from assms(1) True that have "single_page payload hs = Some page" by (auto simp: pages_of_def)
    from handle_single_page [OF len assms(2) this, of ov sc] assms(5) show ?thesis by simp
  next
    case False
    then have f: "fragmentable payload hs" using assms(3,4) fragmentable_long by auto
    from assms(1) False obtain ident where
      pages: "map Some pages = map (nth_fragment payload hs ident) [0..<num_chunks_of payload hs]"
      by (auto simp: pages_of_def)
    have "Some page \<in> set (map Some pages)" using that by simp
    then obtain i where "i < num_chunks_of payload hs" "nth_fragment payload hs ident i = Some page"
      unfolding pages by auto
    from handle_unwanted [where sc = sc, OF f this assms(5)] show ?thesis .
  qed
  have "set qs \<subseteq> set pages \<Longrightarrow> run_events (handle_page ov sc) qs allocs = Some (replicate (length qs) None, allocs)" for qs
    by (induction qs) (simp_all add: ignored)
  then show ?thesis by simp
qed

lemma sent_pages_complete:
  assumes "lossless api cells log trouble"
    and "hs \<le> length payload" and "length payload \<le> 1000 \<or> hs < 992" and "length payload < 2 ^ 32"
    and "length payload \<le> 1000 \<Longrightarrow> trouble w = 0"
    and "1000 < length payload \<Longrightarrow> draw_identification api w \<noteq> None"
    and "sc (take hs payload) = Some True"
  shows "\<exists>w' pages. iox2_send_stream api cells payload hs w = Some (Returns (Inr (), w')) \<and>
    log w' = log w @ pages \<and>
    (\<forall>ps. mset ps = mset pages \<longrightarrow>
       run_events (handle_page ov sc) ps Map.empty =
         Some (replicate (length ps - 1) None @ [Some (payload, hs)], Map.empty))"
  using sent_pages [OF assms(1-6)] pages_complete [where sc = sc, OF _ assms(2-4,7)] by blast

text \<open>
  C15: A payload that is sent arrives. Whatever fails on the way as long as the publisher recovers,
  \<open>send_stream\<close> returns, and the pages it published, received in any order, make the receiver
  complete exactly this payload, once, at the last page, leaving no allocation behind.
\<close>

theorem stream_roundtrip:
  assumes "lossless api cells log trouble"
    and "hs \<le> length payload" and "length payload \<le> 1000 \<or> hs < 992" and "length payload < 2 ^ 32"
    and "length payload \<le> 1000 \<Longrightarrow> trouble w = 0"
    and "1000 < length payload \<Longrightarrow> draw_identification api w \<noteq> None"
    and "sc (take hs payload) = Some True"
  shows "\<exists>w' pages. iox2_send_stream api cells payload hs w = Some (Returns (Inr (), w')) \<and>
    log w' = log w @ pages \<and>
    (\<forall>ps. mset ps = mset pages \<longrightarrow>
       run_events (handle_page ov sc) ps Map.empty =
         Some (replicate (length ps - 1) None @ [Some (payload, hs)], Map.empty))"
  by (rule sent_pages_complete [where trouble = trouble and sc = sc and w = w and payload = payload, OF assms])

theorem stream_roundtrip_witness:
  "\<exists>w' pages. iox2_send_stream bus_api full_cells (replicate 1500 42) 3 \<lparr>published = [], failures = 2\<rparr> =
      Some (Returns (Inr (), w')) \<and>
    published w' = published \<lparr>published = [], failures = 2\<rparr> @ pages \<and>
    (\<forall>ps. mset ps = mset pages \<longrightarrow>
       run_events (handle_page True (\<lambda>h. Some (h = [42, 42, 42]))) ps Map.empty =
         Some (replicate (length ps - 1) None @ [Some (replicate 1500 42, 3)], Map.empty))"
  by (rule stream_roundtrip [OF bus_lossless]) (simp_all add: bus_draw numeral_3_eq_3)

text \<open>
  C17: Any interleaving of any messages. If the fragments of one message the user wants arrive once
  each, in whatever order and between whatever fragments of other messages, the receiver never
  panics, answers the message's own arrivals with nothing until the last one, which gives the payload,
  and frees its allocation.
\<close>

theorem interleaved_reassembly:
  assumes "list_all (arrival_ok msgs sc) as"
    and "sc (header_of msgs ident) = Some True"
    and "distinct (map snd (filter (\<lambda>a. fst a = ident) as))"
    and "set (map snd (filter (\<lambda>a. fst a = ident) as)) = {..<fragment_count msgs ident}"
    and "filter (\<lambda>a. fst a = ident) as \<noteq> []"
  shows "\<exists>es allocs. run_events (receive_fragment msgs ov sc) as Map.empty = Some (es, allocs) \<and>
    own_events ident as es =
      replicate (fragment_count msgs ident - 1) None @ [Some (msgs ident)] \<and> allocs ident = None"
proof -
  let ?run = "run_total (collect_fragment msgs sc) as (\<lambda>_. {})"
  let ?own = "filter (\<lambda>a. fst a = ident) as"
  obtain allocs where run: "run_events (receive_fragment msgs ov sc) as Map.empty = Some (fst ?run, allocs)"
    and rel: "reassembly_rel msgs allocs (snd ?run)"
    using reassembly.run_agrees [OF reassembly_start assms(1), of ov] by blast
  have "length ?own = fragment_count msgs ident"
    using distinct_card [OF assms(3)] unfolding assms(4) by simp
  moreover have "own_events ident as (fst ?run) = replicate (length ?own - 1) None @ [Some (msgs ident)] \<and>
      snd ?run ident = {}"
    using assms by (intro own_events_collect) auto
  moreover have "allocs ident = None" if "snd ?run ident = {}"
    using rel unfolding reassembly_rel_def by (metis merging_empty that)
  ultimately show ?thesis using run by auto
qed

text \<open>
  C27: Only the set of fragments matters. Over any arrivals of fragments of the sent messages, late and
  repeated ones and unwanted messages included, the receiver gives what the specification gives that
  only keeps, for each message, the set of fragments seen since it was last completed: it completes
  the message when the set becomes full, and starts with the empty set again. So a repeated fragment
  of a message that is still being merged changes nothing, while one that comes after the completion
  opens a new set.
\<close>

theorem reassembly_refines_sets:
  assumes "list_all (arrival_ok msgs sc) as"
  shows "\<exists>allocs. run_events (receive_fragment msgs ov sc) as Map.empty =
      Some (fst (run_total (collect_fragment msgs sc) as (\<lambda>_. {})), allocs) \<and>
    reassembly_rel msgs allocs (snd (run_total (collect_fragment msgs sc) as (\<lambda>_. {})))"
  by (rule reassembly.run_agrees [OF reassembly_start assms])

text \<open>The table of the witnesses: message 1 has two chunks, every other message three.\<close>

definition two_messages :: msg_table where
  "two_messages ident = (if ident = 1 then (replicate 1100 1, 2) else (replicate 2500 2, 0))"

lemma two_messages_count: "fragment_count two_messages ident = (if ident = 1 then 2 else 3)"
  by (simp add: fragment_count_def two_messages_def body_chunks_def chunk_size_of_def PRESET_N_def
      length_chunks)

lemma two_messages_ok:
  "arrival_ok two_messages (\<lambda>_. Some b) a \<longleftrightarrow> snd a < (if fst a = 1 then 2 else 3)"
proof -
  have "fragmentable (fst (two_messages k)) (snd (two_messages k))" for k
    by (rule fragmentable_long) (simp_all add: two_messages_def)
  then show ?thesis by (simp add: arrival_ok_def two_messages_count)
qed

theorem interleaved_reassembly_witness:
  "\<exists>es allocs. run_events (receive_fragment two_messages True (\<lambda>_. Some True))
      [(2, 1), (1, 1), (2, 0), (2, 1), (1, 0)] Map.empty = Some (es, allocs) \<and>
    own_events 1 [(2, 1), (1, 1), (2, 0), (2, 1), (1, 0)] es =
      replicate (fragment_count two_messages 1 - 1) None @ [Some (two_messages 1)] \<and> allocs 1 = None"
  by (rule interleaved_reassembly) (auto simp: two_messages_ok two_messages_count)

theorem reassembly_refines_sets_witness:
  "\<exists>allocs. run_events (receive_fragment two_messages False (\<lambda>_. Some True))
      [(1, 0), (1, 0), (1, 1), (1, 1)] Map.empty =
      Some (fst (run_total (collect_fragment two_messages (\<lambda>_. Some True))
        [(1, 0), (1, 0), (1, 1), (1, 1)] (\<lambda>_. {})), allocs) \<and>
    reassembly_rel two_messages allocs (snd (run_total (collect_fragment two_messages (\<lambda>_. Some True))
      [(1, 0), (1, 0), (1, 1), (1, 1)] (\<lambda>_. {})))"
  by (rule reassembly_refines_sets) (simp add: two_messages_ok)

section \<open>Errors, retries and panics of the sending side\<close>

text \<open>
  C33: Sending never panics: no slice is out of range whatever the payload, the header size, the
  library's answers and the thread's cells.
\<close>

theorem send_never_panics:
  "iox2_send_stream api cells payload hs w \<noteq> Some Panics \<and> send_page_sized api cells payload w \<noteq> Panics"
proof
  show "iox2_send_stream api cells payload hs w \<noteq> Some Panics"
  proof (cases "hs \<le> length payload \<and> 1000 < length payload \<and> hs < 992")
    case True
    have "send_chunks api cells r n ident hs (take hs payload) i (body_chunks payload hs) w1 \<noteq> Some Panics"
      for r n ident i w1
      using True by (intro send_chunks_no_panic ballI length_body_chunk) auto
    with True show ?thesis
      by (simp add: iox2_send_stream_def PRESET_N_def split: option.split prod.split)
  next
    case False
    have "single_page payload hs \<noteq> None" if "length payload \<le> 1000"
      using single_page_fits [of payload hs] that by (simp add: PRESET_N_def)
    with False show ?thesis
      by (auto simp: iox2_send_stream_def PRESET_N_def split: option.split prod.split sum.split)
  qed
  show "send_page_sized api cells payload w \<noteq> Panics"
    using sized_page_fits [of payload]
    by (auto simp: send_page_sized_def not_less split: option.split)
qed

text \<open>
  What \<open>send_stream\<close> rejects, and that it does so before touching the world: a header longer than
  the payload, and, when the payload does not fit one page, a header that leaves no room for a body
  byte.
\<close>

theorem send_stream_rejects:
  assumes "length payload < hs" and "1000 < length long" and "992 \<le> big" and "big \<le> length long"
  shows "iox2_send_stream api cells payload hs w =
      Some (Returns (Inl (PayloadHeaderSizeExceedsPayloadLength hs (length payload)), w))
    \<and> iox2_send_stream api cells long big w = Some (Returns (Inl (Iox2PayloadHeaderTooLarge big 991), w))"
  using assms by (simp add: iox2_send_stream_def PRESET_N_def)

theorem send_stream_rejects_witness:
  "iox2_send_stream bus_api full_cells [1, 2] 3 \<lparr>published = [], failures = 0\<rparr> =
     Some (Returns (Inl (PayloadHeaderSizeExceedsPayloadLength 3 (length [1, 2 :: byte])), \<lparr>published = [], failures = 0\<rparr>))
   \<and> iox2_send_stream bus_api full_cells (replicate 1200 0) 992 \<lparr>published = [], failures = 0\<rparr> =
     Some (Returns (Inl (Iox2PayloadHeaderTooLarge 992 991), \<lparr>published = [], failures = 0\<rparr>))"
  by (rule send_stream_rejects) simp_all

text \<open>
  A fragment is retried until it is sent, with waits of 100, 200, 400, \<dots> milliseconds that never
  exceed 8000: if \<open>k\<close> attempts fail and the waits between them end normally, attempt \<open>k\<close> being
  successful, the loop returns with that attempt's world.
\<close>

theorem retry_until_sent:
  assumes "\<And>j. j < k \<Longrightarrow> \<exists>e u. send_page api cells page (ws j) = (Inl e, u) \<and>
      node_pause api cells (min 8000 (100 * 2 ^ j)) u = (Inr (), ws (Suc j))"
    and "send_page api cells page (ws k) = (Inr (), w')"
  shows "send_page_retry api cells page 100 (ws 0) = Some (Inr (), w')"
  using send_page_retry_attempts [of k api cells page ws 0 w'] assms by (simp add: backoff_at_def)

theorem retry_until_sent_witness:
  "send_page_retry bus_api full_cells [1] 100 \<lparr>published = [], failures = 3 - 0\<rparr> =
     Some (Inr (), \<lparr>published = [[1]], failures = 0\<rparr>)"
  by (rule retry_until_sent [where k = 3 and ws = "\<lambda>j. \<lparr>published = [], failures = 3 - j\<rparr>"])
    (auto simp: send_page_def node_pause_def bus_api_def full_cells_eq)

text \<open>
  C34: On a thread that has a node on which it can wait and a notifier that works but no publisher, a
  payload of more than 1000 bytes with a header of less than 992
  makes \<open>send_stream\<close> wait forever (the loop also retries \<open>NotInitialized\<close>), although a payload that fits
  one page is refused with that error.
\<close>

theorem send_without_publisher:
  assumes "iox2_pub cells = None" and "waits_quietly api cells"
    and "\<And>w. fst (notify api cells 0 w) = Inr 1"
    and "hs \<le> length payload" and "hs < 992" and "1000 < length payload"
    and "length short \<le> 1000" and "h \<le> length short"
  shows "iox2_send_stream api cells payload hs w = None \<and>
    (\<exists>w1. iox2_send_stream api cells short h w = Some (Returns (Inl NotInitialized, w1)))"
proof
  have "send_chunks api cells r n ident hs (take hs payload) i (ch # chs) w1 = None"
    if "hs + length ch + 32 \<le> PRESET_N" for r n ident i ch chs w1
    using that assms(4) fragment_page_eq [of "take hs payload" hs ch r n ident i]
    by (simp add: send_page_retry_diverges [OF assms(1,2)])
  moreover have "body_chunks payload hs \<noteq> []"
    using assms(4-6) by (simp add: body_chunks_def chunk_size_of_def PRESET_N_def chunks_step)
  then obtain ch chs where ch: "body_chunks payload hs = ch # chs" by (meson list.exhaust)
  moreover have "hs + length ch + 32 \<le> PRESET_N"
    using length_body_chunk [OF assms(5), of ch payload] ch by simp
  ultimately show "iox2_send_stream api cells payload hs w = None"
    using assms(4-6) by (simp add: iox2_send_stream_def PRESET_N_def split: option.split prod.split)
  obtain page where page: "single_page short h = Some page"
    using single_page_fits [of short h] assms(7) by (auto simp: PRESET_N_def)
  obtain w1 where "notify api cells 0 w = (Inr 1, w1)" using assms(3) [of w] by (metis prod.collapse)
  then show "\<exists>w1. iox2_send_stream api cells short h w = Some (Returns (Inl NotInitialized, w1))"
    using assms(1,7,8) page by (simp add: iox2_send_stream_def PRESET_N_def send_page_def)
qed

theorem send_without_publisher_witness:
  "iox2_send_stream bus_api (full_cells\<lparr>iox2_pub := None\<rparr>) (replicate 1001 5) 0 \<lparr>published = [], failures = 0\<rparr> = None \<and>
    (\<exists>w1. iox2_send_stream bus_api (full_cells\<lparr>iox2_pub := None\<rparr>) [5] 0 \<lparr>published = [], failures = 0\<rparr> =
      Some (Returns (Inl NotInitialized, w1)))"
  by (rule send_without_publisher)
    (simp_all add: full_cells_eq waits_quietly_def node_pause_def notify_def bus_api_def)

section \<open>Receiving and initialisation\<close>

text \<open>
  The blocking receiver returns the message. If the pages waiting in the subscriber's buffer are
  the fragments of one wanted payload in any order, \<open>recv_stream\<close> returns that payload after taking
  exactly these pages, without waiting for an event.
\<close>

theorem recv_stream_returns:
  assumes "buffered api sub q" and "iox2_sub cells = Some sub" and "merge_allocs cells = Map.empty"
    and "fragmentable payload hs" and "sc (take hs payload) = Some True"
    and "map Some pages = map (nth_fragment payload hs ident) [0..<length (body_chunks payload hs)]"
    and "mset ps = mset pages" and "q w = ps @ later"
  shows "\<exists>w'. iox2_recv_stream ov api sc (cells, w) = Some (Returns (Inr payload, cells, w')) \<and> q w' = later"
proof -
  have "run_events (handle_page ov sc) ps (merge_allocs cells) =
      Some (replicate (length ps - 1) None @ [Some (payload, hs)], Map.empty)"
    using fragments_any_order [where sc = sc and ov = ov, OF assms(4-7)] assms(3) by simp
  moreover have "cells\<lparr>merge_allocs := Map.empty\<rparr> = cells" using assms(3) by simp
  ultimately show ?thesis using recv_stream_run [OF assms(1,2,8)] by metis
qed

definition sample_fragments :: "blob list" where
  "sample_fragments = map (\<lambda>i. the (nth_fragment (replicate 1100 1) 2 9 i)) [0..<2]"

theorem recv_stream_returns_witness:
  "\<exists>w'. iox2_recv_stream True bus_api (\<lambda>_. Some True)
      (full_cells, \<lparr>published = rev sample_fragments, failures = 0\<rparr>) =
      Some (Returns (Inr (replicate 1100 1), full_cells, w')) \<and> published w' = []"
proof -
  let ?p = "replicate 1100 (1 :: byte)"
  have f: "fragmentable ?p 2" by (rule fragmentable_long) simp_all
  have n: "length (body_chunks ?p 2) = 2"
    by (simp add: body_chunks_def chunk_size_of_def PRESET_N_def length_chunks)
  have frags: "map Some sample_fragments = map (nth_fragment ?p 2 9) [0..<length (body_chunks ?p 2)]"
    using nth_fragment_eq [OF f, of _ 9] by (auto simp: sample_fragments_def n)
  show ?thesis
    by (rule recv_stream_returns [OF bus_buffered _ _ f _ frags, where ps = "rev sample_fragments"])
      (simp_all add: full_cells_eq)
qed

text \<open>
  \<open>init\<close> can be called again: whatever it returns, an error included, a cell of the thread that was
  set keeps its value, and unfinished merges are kept.
\<close>

theorem init_keeps_cells:
  "cells_kept cells (fst (snd (iox2_init api path flags (cells, w))))"
  using init_keeps [of api path flags] unfolding moves_along_def by (metis fst_conv prod.collapse)

text \<open>
  On a fresh thread a successful \<open>init\<close> sets the node and exactly the ports the flags ask for, and
  a failing one leaves the node unset, so that waiting afterwards reports \<open>NotInitialized\<close>.
\<close>

theorem init_on_fresh_thread:
  assumes "iox2_init api path flags (fresh_tls, w) = (r, cells, w')"
  shows "case r of
      Inl _ \<Rightarrow> iox2_node cells = None \<and> node_pause api cells t v = (Inl NotInitialized, v)
    | Inr _ \<Rightarrow> iox2_node cells \<noteq> None \<and>
        (iox2_sub cells \<noteq> None \<longleftrightarrow> intersects flags IOX2_CREAT_SUBSCRIBER) \<and>
        (iox2_pub cells \<noteq> None \<longleftrightarrow> intersects flags IOX2_CREAT_PUBLISHER) \<and>
        (iox2_liste cells \<noteq> None \<longleftrightarrow> intersects flags IOX2_CREAT_LISTENER) \<and>
        (iox2_notif cells \<noteq> None \<longleftrightarrow> intersects flags IOX2_CREAT_NOTIFIER)"
proof (cases r)
  case (Inl e)
  then have "same_node fresh_tls cells"
    using init_error_node [of api path flags] assms unfolding errs_along_def by (metis fst_conv)
  with Inl show ?thesis by (simp add: same_node_def fresh_tls_def node_pause_def)
next
  case (Inr u)
  with assms have "iox2_init api path flags (fresh_tls, w) = (Inr u, cells, w')" by simp
  from init_ports [OF this] Inr show ?thesis by (simp add: fresh_tls_def)
qed

theorem init_on_fresh_thread_witness:
  "case Inr () :: iox2_init_error + unit of
      Inl _ \<Rightarrow> iox2_node full_cells = None \<and>
        node_pause bus_api full_cells 5 \<lparr>published = [], failures = 0\<rparr> =
          (Inl NotInitialized, \<lparr>published = [], failures = 0\<rparr>)
    | Inr _ \<Rightarrow> iox2_node full_cells \<noteq> None \<and>
        (iox2_sub full_cells \<noteq> None \<longleftrightarrow> intersects 15 IOX2_CREAT_SUBSCRIBER) \<and>
        (iox2_pub full_cells \<noteq> None \<longleftrightarrow> intersects 15 IOX2_CREAT_PUBLISHER) \<and>
        (iox2_liste full_cells \<noteq> None \<longleftrightarrow> intersects 15 IOX2_CREAT_LISTENER) \<and>
        (iox2_notif full_cells \<noteq> None \<longleftrightarrow> intersects 15 IOX2_CREAT_NOTIFIER)"
  by (rule init_on_fresh_thread [where path = "[]" and w = "\<lparr>published = [], failures = 0\<rparr>"
        and w' = "\<lparr>published = [], failures = 0\<rparr>"])
    (simp add: full_cells_eq init_eval bus_api_def plain_fs_def fresh_tls_def)

end
