(* ===== verification/Combined_Props.thy ===== *)
theory Combined_Props
  imports Combined_Runtime Iox2_Props
begin

text \<open>
  The properties of the websocket gateway and of the combined runtime, with a concrete build on which
  those with hypotheses are applied.
\<close>

section \<open>The gateway\<close>

text \<open>
  C38: Which web pages may connect. A request with an origin \<open>http://host\<close> or \<open>http://host:port\<close> passes
  the check exactly if the host, ignoring case, is \<open>localhost\<close> or \<open>127.0.0.1\<close>; no other host whose name
  merely starts like these passes.
\<close>

theorem origin_check_exact:
  assumes "CHR '':'' \<notin> set host" and "port = [] \<or> hd port = CHR '':''"
  shows "origin_allowed (''http://'' @ host @ port) \<longleftrightarrow>
    to_ascii_lowercase host \<in> {''localhost'', ''127.0.0.1''}"
proof -
  let ?h = "to_ascii_lowercase host" and ?p = "to_ascii_lowercase port"
  have low: "to_ascii_lowercase (''http://'' @ host @ port) = ''http://'' @ ?h @ ?p"
    by (simp add: to_ascii_lowercase_def to_ascii_lowercase_char_def)
  have p: "?p = [] \<or> hd ?p = CHR '':''"
    using assms(2) by (cases port) (auto simp: to_ascii_lowercase_def lower_colon)
  have h: "CHR '':'' \<notin> set ?h" using assms(1) lower_host_colon by blast
  have eq: "k = ?h @ ?p \<or> prefix (k @ '':'') (?h @ ?p) \<longleftrightarrow> ?h = k"
    if k: "CHR '':'' \<notin> set k" for k
  proof
    assume "k = ?h @ ?p \<or> prefix (k @ '':'') (?h @ ?p)"
    then obtain y where "?h @ ?p = k @ y" "y = [] \<or> hd y = CHR '':''"
      by (auto simp: prefix_def)
    with colon_free_split [OF this(1) h k p] show "?h = k" by simp
  next
    assume "?h = k"
    then show "k = ?h @ ?p \<or> prefix (k @ '':'') (?h @ ?p)"
      using p by (cases ?p) (auto simp: prefix_def)
  qed
  show ?thesis
    using eq [of "''127.0.0.1''"] eq [of "''localhost''"]
    unfolding origin_allowed_def Let_def low ALLOWED_ORIGINS_def by auto
qed

theorem origin_check_exact_witness:
  "origin_allowed (''http://'' @ ''localhost.evil.org'' @ '':80'') \<longleftrightarrow>
    to_ascii_lowercase ''localhost.evil.org'' \<in> {''localhost'', ''127.0.0.1''}"
  by (rule origin_check_exact) simp_all

text \<open>The messages of a client's inputs: binary frames in, broadcasts out.\<close>

fun binary_frames :: "client_input list \<Rightarrow> byte list list" where
  "binary_frames [] = []"
| "binary_frames (FrameRead (Inr (OpBinary, p)) # ins) = p # binary_frames ins"
| "binary_frames (x # ins) = binary_frames ins"

fun broadcasts :: "client_input list \<Rightarrow> byte list list" where
  "broadcasts [] = []"
| "broadcasts (BroadcastRecv (Some p) # ins) = p # broadcasts ins"
| "broadcasts (x # ins) = broadcasts ins"

definition plain_input :: "client_input \<Rightarrow> bool" where
  "plain_input x \<longleftrightarrow> (case x of FrameRead (Inr (oc, _)) \<Rightarrow> oc \<noteq> OpClose | BroadcastRecv (Some _) \<Rightarrow> True | _ \<Rightarrow> False)"

text \<open>
  A connected client relays faithfully: until it closes or fails, its binary frames are forwarded
  to the receiving channel and the broadcast payloads written to its socket, each in order, once and
  unchanged, whatever their interleaving; a close frame then ends it and nothing after is relayed.
\<close>

theorem client_relays:
  assumes "\<And>p w. \<exists>w1. fwd p w = (True, w1) \<and> sent w1 = sent w @ [p] \<and> shown w1 = shown w"
    and "\<And>p w. \<exists>w1. wr p w = (Inr (), w1) \<and> shown w1 = shown w @ [p] \<and> sent w1 = sent w"
    and "list_all plain_input ins"
  shows "\<exists>w1. client_loop fwd wr (ins @ FrameRead (Inr (OpClose, c)) # later) w = (ClientDone, w1) \<and>
    sent w1 = sent w @ binary_frames ins \<and> shown w1 = shown w @ broadcasts ins"
  using assms(3)
proof (induction ins arbitrary: w)
  case Nil
  then show ?case by simp
next
  case (Cons x ins)
  then have rest: "list_all plain_input ins" and x: "plain_input x" by simp_all
  note IH = Cons.IH [OF rest]
  show ?case
  proof (cases x)
    case (FrameRead r)
    then obtain oc p where r: "r = Inr (oc, p)" "oc \<noteq> OpClose"
      using x by (cases r) (auto simp: plain_input_def)
    show ?thesis
    proof (cases oc)
      case OpBinary
      obtain w1 where w1: "fwd p w = (True, w1)" "sent w1 = sent w @ [p]" "shown w1 = shown w"
        using assms(1) by blast
      with IH [of w1] FrameRead r OpBinary show ?thesis by simp
    next
      case OpOther
      with IH [of w] FrameRead r show ?thesis by simp
    qed (use r in simp)
  next
    case (BroadcastRecv r)
    then obtain p where r: "r = Some p" using x by (cases r) (auto simp: plain_input_def)
    obtain w1 where w1: "wr p w = (Inr (), w1)" "shown w1 = shown w @ [p]" "sent w1 = sent w"
      using assms(2) by blast
    with IH [of w1] BroadcastRecv r show ?thesis by simp
  qed
qed

theorem client_relays_witness:
  "\<exists>w1. client_loop (\<lambda>p (s, t). (True, s @ [p], t)) (\<lambda>p (s, t). (Inr (), s, t @ [p]))
      ([FrameRead (Inr (OpBinary, [1])), BroadcastRecv (Some [2]), FrameRead (Inr (OpOther, [3]))] @
       FrameRead (Inr (OpClose, [])) # [FrameRead (Inr (OpBinary, [4]))]) ([], []) = (ClientDone, w1) \<and>
    fst w1 = fst ([], [] :: byte list list) @ binary_frames [FrameRead (Inr (OpBinary, [1])), BroadcastRecv (Some [2]), FrameRead (Inr (OpOther, [3]))] \<and>
    snd w1 = snd ([] :: byte list list, []) @ broadcasts [FrameRead (Inr (OpBinary, [1])), BroadcastRecv (Some [2]), FrameRead (Inr (OpOther, [3]))]"
  by (rule client_relays [where sent = fst and shown = snd]) (auto simp: plain_input_def)

section \<open>A concrete build\<close>

definition bus_ws :: "(bus, nat) ws_api" where
  "bus_ws = \<lparr>tcp_bind = (\<lambda>_ w. (Inr 20, w)), broadcast_channel = (\<lambda>_ w. ((21, 22), w)),
     spawn_accept_loop = (\<lambda>_ w. w), tx_subscribe = (\<lambda>_ w. (23, w)),
     rx_try_recv = (\<lambda>_ w. (Inr [1, 2], w)), rx_recv = (\<lambda>_ w. Some (Some [1, 2], w)),
     tx_blocking_send = (\<lambda>_ _ w. Some (True, w))\<rparr>"

definition bus_build :: "bool \<Rightarrow> (bus, nat) build" where
  "bus_build ws = \<lparr>has_iox2 = True, has_ws = ws, overflow_checks = True, iox2_lib = bus_api,
     ws_lib = bus_ws, clock = (\<lambda>_. 0), sleep_ms = (\<lambda>_ w. w)\<rparr>"

definition waiting_runtime :: "(bus, nat) combined" where
  "waiting_runtime = (combined_start 0 \<lparr>published = [], failures = 0\<rparr>)
     \<lparr>recv_tx := True, recv_actor := WaitingEvent full_cells [], wait_rx := Some [],
      wait_stream_locks := [True, False], current_backing := (Iox2, 0)\<rparr>"

lemma waiting_runtime_locked: "waits_locked waiting_runtime"
  by (simp add: waiting_runtime_def waits_locked_def combined_start_def)

section \<open>Locks, waits and the scheduler\<close>

text \<open>
  C25: The lock bits do what they are for, in every build: from a state in which bits and actor agree,
  after any calls, ends of waits and changes of the world, a clear bit means that asking the iceoryx2
  actor does not block.
\<close>

theorem clear_bit_never_blocks:
  assumes "waits_locked g" and "run_events (c_step b) ops g = Some (evs, g1)"
    and "\<not> wait_stream_locks g1 ! backing_index Iox2"
  shows "query_backing b sc Iox2 g1 \<noteq> None"
proof -
  have "waits_locked g1"
    using assms(1,2)
  proof (induction ops arbitrary: g evs)
    case (Cons x ops)
    then show ?case by (fastforce split: option.splits dest: step_locked)
  qed simp
  with assms(3) show ?thesis by (simp add: query_iox2_returns backing_index_def)
qed

theorem clear_bit_never_blocks_witness:
  "\<exists>evs g1. run_events (c_step (bus_build False)) [CWaitEnds (Inr ()), CWaitPoll False False] waiting_runtime =
      Some (evs, g1) \<and> query_backing (bus_build False) (Some (\<lambda>_. Some True)) Iox2 g1 \<noteq> None"
proof -
  obtain evs g1 where run: "run_events (c_step (bus_build False)) [CWaitEnds (Inr ()), CWaitPoll False False]
      waiting_runtime = Some (evs, g1)" "\<not> wait_stream_locks g1 ! 0"
    by (simp add: c_step_def wait_ends_def waiting_runtime_def post_result_def combined_start_def
        wait_poll_def bus_build_def receive_results_def handle_wait_stream_return_def backing_index_def)
  with clear_bit_never_blocks [OF waiting_runtime_locked run(1), of "Some (\<lambda>_. Some True)"]
  show ?thesis by (auto simp: backing_index_def)
qed

text \<open>
  In a build without the gateway \<open>try_recv_stream\<close> never blocks and nothing else of the receiving
  side does, even while the actor is inside its blocking wait: every run of calls returns.
\<close>

theorem iox2_runtime_returns:
  assumes "waits_locked g" and "\<not> has_ws b"
  shows "\<exists>evs g1. run_events (c_step b) ops g = Some (evs, g1) \<and> waits_locked g1"
  using runtime.run_ok [of g b ops] assms by blast

theorem iox2_runtime_returns_witness:
  "\<exists>evs g1. run_events (c_step (bus_build False)) [CTryRecv, CWaitRegister, CTryRecv] waiting_runtime = Some (evs, g1) \<and>
    waits_locked g1"
  by (rule iox2_runtime_returns [OF waiting_runtime_locked]) (simp add: bus_build_def)

text \<open>
  C16: After one error of the mesh's wait the runtime is deaf. When the blocking wait ends with an
  error, the next poll of \<open>wait_stream\<close> reports it, but the lock bit stays set: whatever is called
  afterwards (the retry that \<^verbatim>\<open>tokio.rs\<close> makes included), the receiving actor is never asked again and
  never waits again, however many pages arrive.
\<close>

theorem wait_error_deafens:
  assumes "waits_locked g" and "recv_actor g = WaitingEvent cells []" and "wait_rx g = Some []"
    and "has_iox2 b"
    and "run_events (c_step b) (CWaitEnds (Inl e) # CWaitPoll False r # ops) g = Some (evs, g1)"
  shows "take 2 evs = [Environment, Polled (PollReady (Inl (Iox2IpcError e)))] \<and>
    deaf g1 \<and> recv_actor g1 = Serving cells"
proof -
  let ?g = "(wait_ends (Inl e) g)\<lparr>wait_rx := Some []\<rparr>"
  have locks: "length (wait_stream_locks g) = 2" "wait_stream_locks g ! 0"
    using assms(1,2) by (simp_all add: waits_locked_def)
  have deaf: "deaf ?g" "recv_actor ?g = Serving cells"
    using assms(2) locks by (simp_all add: deaf_def wait_ends_def post_result_def)
  have "c_step b (CWaitPoll False r) (wait_ends (Inl e) g) =
      Some (Polled (PollReady (Inl (Iox2IpcError e))), ?g)"
    using assms(2-4) by (simp add: c_step_def wait_poll_def receive_results_def wait_ends_def
        post_result_def handle_wait_stream_return_def Let_def)
  with assms(5) obtain es where evs: "evs = Environment # Polled (PollReady (Inl (Iox2IpcError e))) # es"
    and run: "run_events (c_step b) ops ?g = Some (es, g1)"
    by (auto simp: c_step_def [of b "CWaitEnds (Inl e)"] split: option.splits)
  note u = deaf_run [OF deaf(1) run]
  have "recv_actor g1 = Serving cells" using u deaf(2) by (simp add: unchanged_actor_def)
  with evs unchanged_deaf [OF u deaf(1)] show ?thesis by simp
qed

theorem wait_error_deafens_witness:
  "\<exists>evs g1. run_events (c_step (bus_build False)) (CWaitEnds (Inl (Iox2SubscriberReceiveError ''x'')) #
      CWaitPoll False False # [CTryRecv, CWaitRegister, CTryRecv]) waiting_runtime = Some (evs, g1) \<and>
    take 2 evs = [Environment, Polled (PollReady (Inl (Iox2IpcError (Iox2SubscriberReceiveError ''x''))))] \<and>
    deaf g1 \<and> recv_actor g1 = Serving full_cells"
proof -
  obtain evs g1 where run: "run_events (c_step (bus_build False))
      (CWaitEnds (Inl (Iox2SubscriberReceiveError ''x'')) # CWaitPoll False False # [CTryRecv, CWaitRegister, CTryRecv])
      waiting_runtime = Some (evs, g1)"
    using runtime.run_ok [of waiting_runtime "bus_build False"] waiting_runtime_locked
    by (metis bus_build_def build.select_convs(2))
  with wait_error_deafens [OF waiting_runtime_locked _ _ _ run, of full_cells] show ?thesis
    by (simp add: waiting_runtime_def bus_build_def)
qed

text \<open>
  A backing that is blocked keeps its turn. While the iceoryx2 backing has precedence and waits,
  \<open>try_recv_stream\<close> reports \<open>OutOfAccessible\<close> without asking the gateway at all, so a message waiting
  there is not seen until the turn of 10 ms is over.
\<close>

theorem blocked_turn_hides_gateway:
  assumes "current_backing g = (Iox2, t)" and "clock b (world g) - t \<le> 10000"
    and "wait_stream_locks g = [True, l]" and "wait_rx g = Some []"
  shows "combined_try_recv_stream b held g = Some (Returns (Inr OutOfAccessible, g))"
  using assms
  by (simp add: combined_try_recv_stream_def choose_backing_def wait_stream_drain_def numeral_2_eq_2
      bit_at_def backing_index_def)

theorem blocked_turn_hides_gateway_witness:
  "combined_try_recv_stream (bus_build True) False waiting_runtime =
     Some (Returns (Inr OutOfAccessible, waiting_runtime))"
  by (rule blocked_turn_hides_gateway [where t = 0 and l = False])
    (simp_all add: waiting_runtime_def combined_start_def bus_build_def)

text \<open>
  \<open>wait_stream\<close> does not wait when the gateway is built in but was not initialised, nor in a build
  without iceoryx2: its poll is never pending, so \<open>recv_stream\<close> spins.
\<close>

theorem wait_without_gateway_spins:
  assumes "has_ws b" and "receiving_tx (ws_st g) = None \<or> \<not> has_iox2 b"
  shows "fst (wait_poll b ws_first ws_ready g) \<noteq> PollPending"
  using assms by (auto simp: wait_poll_def Let_def split: prod.split poll.split)

theorem wait_without_gateway_spins_witness:
  "fst (wait_poll (bus_build True) False False waiting_runtime) \<noteq> PollPending"
  by (rule wait_without_gateway_spins) (simp_all add: bus_build_def waiting_runtime_def combined_start_def)

section \<open>Messages between the mesh and the gateway\<close>

lemma split_trailer_eq:
  assumes "hs < 2 ^ 64"
  shows "split_trailer ov (payload @ u64_to_le (word_of_nat hs)) = Some (payload, hs)"
  using assms
  by (simp add: split_trailer_def usize_sub_ok subslice_def unsigned_of_nat take_bit_nat_eq_self)

text \<open>
  The trailer of gateway messages round-trips: a message completed on the mesh is broadcast to the
  websocket clients as the payload followed by its header size, and a client that sends those bytes
  back has exactly this payload and header size sent into the mesh (in a build without iceoryx2 it is
  delivered with them).
\<close>

theorem gateway_roundtrip:
  assumes "hs < 2 ^ 64" and "has_ws b"
    and "tx_blocking_send (ws_lib b) (broadcast_tx (ws_st g)) (payload @ u64_to_le (word_of_nat hs)) (world g) =
      Some (ok, w1)"
  shows "deliver b Iox2 payload hs g = Some (Returns (Inr (NewCompleted payload hs), g\<lparr>world := w1\<rparr>)) \<and>
    deliver b WsGateway (payload @ u64_to_le (word_of_nat hs)) 0 g =
      (if has_iox2 b then map_option
         (\<lambda>x. case x of Panics \<Rightarrow> Panics | Returns g1 \<Rightarrow> Returns (Inr PotentiallyAvailable, g1))
         (forward_to_mesh b payload hs g)
       else Some (Returns (Inr (NewCompleted payload hs), g\<lparr>world := w1\<rparr>)))"
  using assms
  by (simp add: deliver_def split_trailer_eq ws_send_copy_def split: option.split outcome.split)

theorem gateway_roundtrip_witness:
  "deliver (bus_build True) Iox2 [1, 2, 3] 2 waiting_runtime =
      Some (Returns (Inr (NewCompleted [1, 2, 3] 2), waiting_runtime\<lparr>world := world waiting_runtime\<rparr>)) \<and>
    deliver (bus_build True) WsGateway ([1, 2, 3] @ u64_to_le (word_of_nat 2)) 0 waiting_runtime =
      (if has_iox2 (bus_build True) then map_option
         (\<lambda>x. case x of Panics \<Rightarrow> Panics | Returns g1 \<Rightarrow> Returns (Inr PotentiallyAvailable, g1))
         (forward_to_mesh (bus_build True) [1, 2, 3] 2 waiting_runtime)
       else Some (Returns (Inr (NewCompleted [1, 2, 3] 2), waiting_runtime\<lparr>world := world waiting_runtime\<rparr>)))"
  by (rule gateway_roundtrip [where ok = True]) (simp_all add: bus_build_def bus_ws_def)

text \<open>
  A websocket client can stop the receiver: a binary frame of fewer than 8 bytes makes
  \<open>try_recv_stream\<close> panic, in every build profile, when it is taken from the gateway.
\<close>

theorem short_frame_panics:
  assumes "current_backing g = (WsGateway, t)" and "clock b (world g) - t \<le> 10000"
    and "wait_stream_locks g = [l, False]" and "wait_rx g = Some []" and "has_ws b"
    and "receiving_rx (ws_st g) = Some rx" and "rx_try_recv (ws_lib b) rx (world g) = (Inr frame, w1)"
    and "length frame < 8"
  shows "combined_try_recv_stream b held g = Some Panics"
proof -
  have "\<not> (2 ^ 64 + length frame - 8) mod 2 ^ 64 \<le> length frame" using assms(8) by simp
  then have split: "split_trailer ov frame = None" for ov
    using assms(8) by (auto simp: split_trailer_def usize_sub_def subslice_def)
  show ?thesis
    using assms(1-7) split
    by (simp add: combined_try_recv_stream_def choose_backing_def wait_stream_drain_def numeral_2_eq_2
        bit_at_def backing_index_def query_backing_def ws_try_recv_copy_def deliver_def)
qed

theorem short_frame_panics_witness:
  "combined_try_recv_stream (bus_build True) False (waiting_runtime
     \<lparr>current_backing := (WsGateway, 0), ws_st := \<lparr>broadcast_tx = 0, receiving_tx = Some 1, receiving_rx = Some 2\<rparr>\<rparr>) =
   Some Panics"
  by (rule short_frame_panics [where t = 0 and l = True and rx = 2 and frame = "[1, 2]" and
        ?w1.0 = "\<lparr>published = [], failures = 0\<rparr>"])
    (simp_all add: waiting_runtime_def combined_start_def bus_build_def bus_ws_def)

text \<open>
  \<open>close\<close> resets the runtime: when it returns, both senders are gone, both threads have ended, the
  lock bits are clear (also after an error that left one set), and the next \<open>try_recv_stream\<close> reports
  that nothing is initialised.
\<close>

theorem close_resets:
  assumes "combined_close b wakes g = Some (Returns g1)" and "has_iox2 b"
    and "length (wait_stream_locks g) = 2"
  shows "\<not> recv_tx g1 \<and> \<not> send_tx g1 \<and> recv_actor g1 = Gone \<and> send_actor g1 = Gone \<and>
    wait_stream_locks g1 = [False, False] \<and> fst (current_backing g1) = Count \<and>
    combined_try_recv_stream b False g1 =
      Some (Returns (Inl CNotInitialized, enter_backing b Iox2 g1))"
proof -
  let ?ga = "g\<lparr>recv_actor := send_close (recv_tx g) (recv_actor g), recv_tx := False\<rparr>"
  obtain g2 ra where sig: "signal_until_sent b ?ga = Some (Returns g2)"
    and ra: "join_actor wakes (recv_actor g2) = Some ra"
    and g1: "g1 = g2\<lparr>recv_actor := ra, send_actor := Gone, send_tx := False,
        wait_stream_locks := map (\<lambda>_. False) (wait_stream_locks g2), wait_rx := None,
        current_backing := (Count, clock b (world g2))\<rparr>"
    using assms(1,2)
    by (auto simp: combined_close_def Let_def split: option.splits outcome.splits)
  have kept: "recv_tx g2 = False" "wait_stream_locks g2 = wait_stream_locks g"
    using signal_keeps [OF sig] by simp_all
  have "ra = Gone" using ra by (auto simp: join_actor_def split: actor.splits if_splits)
  moreover obtain x y where "wait_stream_locks g = [x, y]"
    using assms(3) by (auto simp: numeral_2_eq_2 length_Suc_conv)
  ultimately show ?thesis
    using kept by (simp add: g1 combined_try_recv_stream_def choose_backing_def wait_stream_drain_def
        enter_backing_def)
qed

theorem close_resets_witness:
  "case combined_close (bus_build True) True waiting_runtime of
     Some (Returns g1) \<Rightarrow> recv_actor g1 = Gone \<and> wait_stream_locks g1 = [False, False]
   | _ \<Rightarrow> False"
proof -
  obtain g1 where "combined_close (bus_build True) True waiting_runtime = Some (Returns g1)"
    by (simp add: combined_close_def signal_until_sent.simps combined_shutdown_signal_def actor_call_def
        bus_build_def waiting_runtime_def combined_start_def send_close_def join_actor_def Let_def)
  with close_resets [OF this] show ?thesis
    by (simp add: bus_build_def waiting_runtime_def combined_start_def)
qed

end
