(* ===== verification/Tokio_Props.thy ===== *)
theory Tokio_Props
  imports Tokio_Layer Combined_Props
begin

text \<open>
  The properties of the tokio layer: what a returned \<open>init\<close> guarantees, how received payloads reach a
  consumer of the queue, and what retrying a send does when only the notification failed.
\<close>

section \<open>Initialisation\<close>

definition fully_initialised :: "('w, 'h) build \<Rightarrow> ('w, 'h) combined \<Rightarrow> bool" where
  "fully_initialised b g \<longleftrightarrow>
     wait_rx g = Some [] \<and>
     (has_iox2 b \<longrightarrow> recv_tx g \<and> send_tx g \<and>
        (\<exists>rc sc. recv_actor g = Serving rc \<and> send_actor g = Serving sc \<and>
           iox2_node rc \<noteq> None \<and> iox2_sub rc \<noteq> None \<and> iox2_liste rc \<noteq> None \<and>
           iox2_node sc \<noteq> None \<and> iox2_pub sc \<noteq> None \<and> iox2_notif sc \<noteq> None)) \<and>
     (has_ws b \<longrightarrow> receiving_tx (ws_st g) \<noteq> None)"

lemma start_actor_ok:
  assumes "start_actor b dir flags w = (Inr a, w1)"
  obtains cells where "a = Serving cells" and "iox2_node cells \<noteq> None"
    and "iox2_sub cells \<noteq> None \<longleftrightarrow> intersects flags IOX2_CREAT_SUBSCRIBER"
    and "iox2_pub cells \<noteq> None \<longleftrightarrow> intersects flags IOX2_CREAT_PUBLISHER"
    and "iox2_liste cells \<noteq> None \<longleftrightarrow> intersects flags IOX2_CREAT_LISTENER"
    and "iox2_notif cells \<noteq> None \<longleftrightarrow> intersects flags IOX2_CREAT_NOTIFIER"
proof -
  from assms obtain u cells where "iox2_init (iox2_lib b) dir flags (fresh_tls, w) = (Inr u, cells, w1)"
    and "a = Serving cells"
    by (auto simp: start_actor_def split: prod.splits sum.splits)
  from init_ports [OF this(1)] this(2) that show ?thesis by (simp add: fresh_tls_def)
qed

lemma all_backings: "intersects ALL_BACKINGS INIT_IOX2_RECV" "intersects ALL_BACKINGS INIT_IOX2_SEND"
  "intersects ALL_BACKINGS INIT_WS_GATEWAY"
  by (simp_all add: intersects_def ALL_BACKINGS_def INIT_IOX2_RECV_def INIT_IOX2_SEND_def INIT_WS_GATEWAY_def)

lemma init_actors_ok:
  assumes "init_iox2_actors b ALL_BACKINGS g = (Inr (), g1)"
  shows "wait_rx g1 = wait_rx g \<and> ws_st g1 = ws_st g \<and> recv_tx g1 \<and> send_tx g1 \<and>
    (\<exists>rc sc. recv_actor g1 = Serving rc \<and> send_actor g1 = Serving sc \<and>
       iox2_node rc \<noteq> None \<and> iox2_sub rc \<noteq> None \<and> iox2_liste rc \<noteq> None \<and>
       iox2_node sc \<noteq> None \<and> iox2_pub sc \<noteq> None \<and> iox2_notif sc \<noteq> None)"
proof -
  obtain dir where dir: "global_project_dir g = Some dir"
    using assms by (cases "global_project_dir g") (auto simp: init_iox2_actors_def)
  let ?recv = "start_actor b dir (or IOX2_CREAT_SUBSCRIBER IOX2_CREAT_LISTENER)"
  let ?send = "start_actor b dir (or IOX2_CREAT_PUBLISHER IOX2_CREAT_NOTIFIER)"
  obtain ra w1 where r: "?recv (world g) = (Inr ra, w1)"
  proof (cases "?recv (world g)")
    case (Pair x w1)
    with assms dir that show ?thesis
      by (cases x) (simp_all add: init_iox2_actors_def all_backings try_bind_def)
  qed
  obtain sa w2 where s: "?send w1 = (Inr sa, w2)"
    and g1: "g1 = (with_world ((with_world g w1)\<lparr>recv_tx := True, recv_actor := ra\<rparr>) w2)
      \<lparr>send_tx := True, send_actor := sa\<rparr>"
  proof (cases "?send w1")
    case (Pair x w2)
    with assms dir r that show ?thesis
      by (cases x) (simp_all add: init_iox2_actors_def all_backings try_bind_def with_world_def)
  qed
  obtain rc where "ra = Serving rc" "iox2_node rc \<noteq> None" "iox2_sub rc \<noteq> None" "iox2_liste rc \<noteq> None"
    by (rule start_actor_ok [OF r])
      (simp add: intersects_def IOX2_CREAT_SUBSCRIBER_def IOX2_CREAT_LISTENER_def)
  moreover obtain sc where "sa = Serving sc" "iox2_node sc \<noteq> None" "iox2_pub sc \<noteq> None" "iox2_notif sc \<noteq> None"
    by (rule start_actor_ok [OF s])
      (simp add: intersects_def IOX2_CREAT_PUBLISHER_def IOX2_CREAT_NOTIFIER_def)
  ultimately show ?thesis by (simp add: g1 with_world_def)
qed

lemma combined_init_ok:
  assumes "combined_init b ALL_BACKINGS g = (Inr (), g1)"
  shows "fully_initialised b g1"
proof -
  let ?g = "g\<lparr>wait_rx := Some []\<rparr>"
  from assms obtain u g2 where
    actors: "(if has_iox2 b then init_iox2_actors b ALL_BACKINGS ?g else (Inr (), ?g)) = (Inr u, g2)"
    and ws: "(if has_ws b \<and> intersects ALL_BACKINGS INIT_WS_GATEWAY then
         (case ws_init (ws_lib b) (ws_st g2, world g2) of
            (Inl e, st, w1) \<Rightarrow> (Inl (WsGatewayInitError e), g2\<lparr>ws_st := st, world := w1\<rparr>)
          | (Inr _, st, w1) \<Rightarrow> (Inr (), g2\<lparr>ws_st := st, world := w1\<rparr>))
       else (Inr (), g2)) = (Inr () :: combined_init_error + unit, g1)"
    unfolding combined_init_def try_bind_Inr by blast
  have g2: "wait_rx g2 = Some [] \<and> (has_iox2 b \<longrightarrow> recv_tx g2 \<and> send_tx g2 \<and>
      (\<exists>rc sc. recv_actor g2 = Serving rc \<and> send_actor g2 = Serving sc \<and>
         iox2_node rc \<noteq> None \<and> iox2_sub rc \<noteq> None \<and> iox2_liste rc \<noteq> None \<and>
         iox2_node sc \<noteq> None \<and> iox2_pub sc \<noteq> None \<and> iox2_notif sc \<noteq> None))"
  proof (cases "has_iox2 b")
    case True
    with actors have "init_iox2_actors b ALL_BACKINGS ?g = (Inr (), g2)" by simp
    from init_actors_ok [OF this] show ?thesis by simp
  next
    case False
    with actors show ?thesis by auto
  qed
  show ?thesis
  proof (cases "has_ws b")
    case True
    with ws obtain st w1 where init: "ws_init (ws_lib b) (ws_st g2, world g2) = (Inr (), st, w1)"
      and g1: "g1 = g2\<lparr>ws_st := st, world := w1\<rparr>"
      by (auto simp: all_backings split: prod.splits sum.splits)
    have "receiving_tx st \<noteq> None"
      using init by (auto simp: ws_init_def split: if_splits prod.splits sum.splits)
    with g1 g2 show ?thesis by (simp add: fully_initialised_def)
  next
    case False
    with ws g2 show ?thesis by (auto simp: fully_initialised_def)
  qed
qed

text \<open>
  C40: When \<open>init\<close> of the tokio layer returns, everything it asked for is there, however many attempts
  it took: both actors serve, the receiving one with node, subscriber and listener, the sending one
  with node, publisher and notifier, the wait channel is empty, and the gateway is listening.
\<close>

theorem tokio_init_complete:
  assumes "tokio_init b g = Some (Returns g1)"
  shows "fully_initialised b g1"
proof -
  have "case x of Panics \<Rightarrow> True | Returns g1 \<Rightarrow> fully_initialised b g1" if "tokio_init b g = Some x" for x
  proof (rule tokio_init.raw_induct [where P = "\<lambda>b g x. case x of Panics \<Rightarrow> True
        | Returns g1 \<Rightarrow> fully_initialised b g1", OF _ that], goal_cases)
    case (1 f b g x)
    then show ?case using combined_init_ok [of b g]
      by (cases "combined_init b ALL_BACKINGS g") (auto split: sum.splits if_splits)
  qed
  with assms show ?thesis by fastforce
qed

theorem tokio_init_complete_witness:
  "case tokio_init (bus_build True) (set_global_project_dir [''p''] (combined_start 0 \<lparr>published = [], failures = 0\<rparr>)) of
     Some (Returns g1) \<Rightarrow> fully_initialised (bus_build True) g1
   | _ \<Rightarrow> False"
proof -
  let ?g = "set_global_project_dir [''p''] (combined_start 0 \<lparr>published = [], failures = 0\<rparr>)"
  have "fst (combined_init (bus_build True) ALL_BACKINGS ?g) = Inr ()"
    by (simp add: ALL_BACKINGS_def INIT_IOX2_RECV_def INIT_IOX2_SEND_def INIT_WS_GATEWAY_def
        combined_init_def init_iox2_actors_def start_actor_def init_eval bus_build_def bus_api_def
        plain_fs_def set_global_project_dir_def combined_start_def fresh_tls_def ws_init_def bus_ws_def
        bind_tcp_listener_def with_world_def)
  then obtain g1 where "combined_init (bus_build True) ALL_BACKINGS ?g = (Inr (), g1)"
    by (metis prod.collapse)
  then have "tokio_init (bus_build True) ?g = Some (Returns g1)"
    by (subst tokio_init.simps) simp
  with tokio_init_complete [OF this] show ?thesis by simp
qed

section \<open>From the mesh to a consumer\<close>

lemma fifo_pushes:
  "run_total fifo_step (map Push ps) a = (map Pushed ps, a\<lparr>f_pending := f_pending a @ ps\<rparr>)"
  by (induction ps arbitrary: a) (simp_all add: run_total_Cons del: run_total.simps(2))

lemma fifo_drains:
  "f_open a \<Longrightarrow> fst (run_total fifo_step (replicate (length (f_pending a) + 1) (TryNext 0)) a) =
     map (\<lambda>p. Delivered 0 (Some p)) (f_pending a) @ [Nothing 0]"
proof (induction "f_pending a" arbitrary: a)
  case Nil
  then show ?case by (simp add: Nil(1) [symmetric])
next
  case (Cons p ps)
  let ?b = "snd (fifo_step (TryNext 0) a)"
  have b: "f_pending ?b = ps" "f_open ?b" "fst (fifo_step (TryNext 0) a) = Delivered 0 (Some p)"
    using Cons.hyps(2) Cons.prems by (simp_all add: Cons.hyps(2) [symmetric] Let_def pass_last_def)
  from Cons.hyps(1) [of ?b] b Cons.hyps(2) [symmetric] show ?case
    by (simp add: run_total_Cons del: run_total.simps(2) fifo_step.simps)
qed

lemma mesh_delivers:
  assumes "list_all receivable rs"
  shows "\<exists>y1. receiver_task rs (sy_queue (one_consumer ad i), sy_store (one_consumer ad i)) =
      Some (Returns (sy_queue y1, sy_store y1)) \<and>
    sy_consumers y1 = sy_consumers (one_consumer ad i) \<and>
    map_option fst (run_events sys_step (replicate (length (received_payloads rs) + 1) (TryNext 0)) y1) =
      Some (map (\<lambda>p. Delivered 0 (Some p)) (received_payloads rs) @ [Nothing 0])"
proof -
  let ?ps = "received_payloads rs" and ?a = "fifo_init ad"
  have "list_all not_new (map Push ?ps)" "list_all not_new (replicate n (TryNext 0))" for n
    by (simp_all add: list_all_iff not_new_def)
  note ops = this
  obtain y1 where run: "run_events sys_step (map Push ?ps) (one_consumer ad i) =
      Some (fst (run_total fifo_step (map Push ?ps) ?a), y1)"
    and rel: "fifo_rel y1 (snd (run_total fifo_step (map Push ?ps) ?a))"
    using lmq_fifo.run_agrees [OF fifo_rel_init ops(1)] by blast
  have task: "receiver_task rs (sy_queue (one_consumer ad i), sy_store (one_consumer ad i)) =
      Some (Returns (sy_queue y1, sy_store y1)) \<and> sy_consumers y1 = sy_consumers (one_consumer ad i)"
    using receiver_task_pushes [OF assms run] by simp
  have a: "snd (run_total fifo_step (map Push ?ps) ?a) = ?a\<lparr>f_pending := ?ps\<rparr>" "f_open ?a"
    by (simp_all add: fifo_pushes fifo_init_def)
  obtain y2 where "run_events sys_step (replicate (length ?ps + 1) (TryNext 0)) y1 =
      Some (fst (run_total fifo_step (replicate (length ?ps + 1) (TryNext 0)) (?a\<lparr>f_pending := ?ps\<rparr>)), y2)"
    using lmq_fifo.run_agrees [OF rel [unfolded a] ops(2)] by blast
  with task fifo_drains [of "?a\<lparr>f_pending := ?ps\<rparr>"] a(2) show ?thesis
    by (intro exI [of _ y1]) (simp del: replicate.simps)
qed

text \<open>
  What the mesh delivers reaches a consumer in order. If the results of \<open>recv_stream\<close> are payloads
  and errors that are retried, the receiver task ends with a queue from which a consumer taken before
  (\<open>iter_stream\<close>) receives exactly these payloads, each once and in order, and then nothing.
\<close>

theorem mesh_to_consumer:
  assumes "list_all receivable rs"
  shows "\<exists>y1. receiver_task rs (sy_queue (one_consumer ad i), sy_store (one_consumer ad i)) =
      Some (Returns (sy_queue y1, sy_store y1)) \<and>
    sy_consumers y1 = sy_consumers (one_consumer ad i) \<and>
    map_option fst (run_events sys_step (replicate (length (received_payloads rs) + 1) (TryNext 0)) y1) =
      Some (map (\<lambda>p. Delivered 0 (Some p)) (received_payloads rs) @ [Nothing 0])"
  by (rule mesh_delivers [OF assms])

theorem mesh_to_consumer_witness:
  "\<exists>y1. receiver_task [Inr [1], Inl (Iox2IpcError (Iox2SubscriberReceiveError ''x'')), Inr [2]]
      (sy_queue (one_consumer True 7), sy_store (one_consumer True 7)) =
      Some (Returns (sy_queue y1, sy_store y1)) \<and>
    sy_consumers y1 = sy_consumers (one_consumer True 7) \<and>
    map_option fst (run_events sys_step (replicate (length (received_payloads
        [Inr [1], Inl (Iox2IpcError (Iox2SubscriberReceiveError ''x'')), Inr [2]]) + 1) (TryNext 0)) y1) =
      Some (map (\<lambda>p. Delivered 0 (Some p)) (received_payloads
        [Inr [1], Inl (Iox2IpcError (Iox2SubscriberReceiveError ''x'')), Inr [2]]) @ [Nothing 0])"
  by (rule mesh_to_consumer) (simp add: receivable_def recv_retried_def)

section \<open>Retrying a send\<close>

text \<open>
  A mesh on which pages always go out, but the notification after them still fails \<open>trouble\<close> times.
\<close>

definition flaky_notifier ::
  "('w, 'h) iox2_api \<Rightarrow> 'h iox2_tls \<Rightarrow> ('w \<Rightarrow> blob list) \<Rightarrow> ('w \<Rightarrow> nat) \<Rightarrow> bool" where
  "flaky_notifier api cells log trouble \<longleftrightarrow>
     (\<forall>page w. case send_page api cells page w of
        (Inr _, w1) \<Rightarrow> log w1 = log w @ [page] \<and> trouble w1 = trouble w | (Inl _, _) \<Rightarrow> False) \<and>
     (\<forall>w. case notify api cells 0 w of
        (Inr _, w1) \<Rightarrow> trouble w = 0 \<and> log w1 = log w
      | (Inl e, w1) \<Rightarrow> (\<exists>x. e = Iox2NotifierNotifyError x) \<and> trouble w = Suc (trouble w1) \<and> log w1 = log w)"

lemma flaky_send:
  assumes "flaky_notifier api cells log trouble"
  obtains w1 where "send_page api cells page w = (Inr (), w1)" "log w1 = log w @ [page]" "trouble w1 = trouble w"
proof -
  obtain r w1 where eq: "send_page api cells page w = (r, w1)" by (cases "send_page api cells page w")
  moreover have "case send_page api cells page w of
      (Inr _, w1) \<Rightarrow> log w1 = log w @ [page] \<and> trouble w1 = trouble w | (Inl _, _) \<Rightarrow> False"
    using assms by (simp add: flaky_notifier_def)
  ultimately show ?thesis using that by (cases r) auto
qed

lemma flaky_notify:
  assumes "flaky_notifier api cells log trouble"
  obtains (done_notify) n w1 where "notify api cells 0 w = (Inr n, w1)" "trouble w = 0" "log w1 = log w"
  | (failed_notify) x w1 where "notify api cells 0 w = (Inl (Iox2NotifierNotifyError x), w1)"
      "trouble w = Suc (trouble w1)" "log w1 = log w"
proof -
  obtain r w1 where eq: "notify api cells 0 w = (r, w1)" by (cases "notify api cells 0 w")
  moreover have "case notify api cells 0 w of
        (Inr _, w1) \<Rightarrow> trouble w = 0 \<and> log w1 = log w
      | (Inl e, w1) \<Rightarrow> (\<exists>x. e = Iox2NotifierNotifyError x) \<and> trouble w = Suc (trouble w1) \<and> log w1 = log w"
    using assms by (simp add: flaky_notifier_def)
  ultimately show ?thesis using that by (cases r) auto
qed

lemma flaky_send_loop:
  assumes api: "flaky_notifier (iox2_lib b) cells log trouble" and "has_iox2 b"
    and sleep: "\<And>t w. log (sleep_ms b t w) = log w \<and> trouble (sleep_ms b t w) = trouble w"
    and short: "length payload \<le> 1000" "hs \<le> length payload" and page: "single_page payload hs = Some page"
  shows "send_tx g \<Longrightarrow> send_actor g = Serving cells \<Longrightarrow>
    \<exists>g1. tokio_send_stream b payload hs g = Some (Returns g1) \<and>
      log (world g1) = log (world g) @ replicate (trouble (world g) + 1) page"
proof (induction "trouble (world g)" arbitrary: g)
  case 0
  obtain w1 where w1: "send_page (iox2_lib b) cells page (world g) = (Inr (), w1)"
      "log w1 = log (world g) @ [page]" "trouble w1 = trouble (world g)"
    by (rule flaky_send [OF api])
  from api show ?case
  proof (cases rule: flaky_notify [where w = w1])
    case (done_notify n w2)
    with w1 0 assms(2) short page show ?thesis
      by (simp add: tokio_send_step [of b payload hs g] combined_send_stream_def actor_call_def
          iox2_send_stream_def PRESET_N_def)
  next
    case (failed_notify x w2)
    with w1 0 show ?thesis by simp
  qed
next
  case (Suc k)
  obtain w1 where w1: "send_page (iox2_lib b) cells page (world g) = (Inr (), w1)"
      "log w1 = log (world g) @ [page]" "trouble w1 = trouble (world g)"
    by (rule flaky_send [OF api])
  from api show ?case
  proof (cases rule: flaky_notify [where w = w1])
    case (done_notify n w2)
    with w1 Suc show ?thesis by simp
  next
    case (failed_notify x w2)
    let ?g = "with_world (g\<lparr>send_actor := Serving cells, world := w2\<rparr>) (sleep_ms b 100 w2)"
    have "\<exists>g1. tokio_send_stream b payload hs ?g = Some (Returns g1) \<and>
        log (world g1) = log (world ?g) @ replicate (trouble (world ?g) + 1) page"
      using Suc failed_notify w1 sleep by (intro Suc.hyps(1)) (simp_all add: with_world_def)
    moreover have "tokio_send_stream b payload hs g = tokio_send_stream b payload hs ?g"
      using failed_notify w1 Suc.prems assms(2) short page
      by (simp add: tokio_send_step [of b payload hs g] combined_send_stream_def actor_call_def
          iox2_send_stream_def PRESET_N_def transient_def)
    moreover have "log (world ?g) = log (world g) @ [page]" "trouble (world g) = Suc (trouble (world ?g))"
      using failed_notify w1 sleep by (simp_all add: with_world_def)
    ultimately show ?thesis by simp
  qed
qed

text \<open>
  C39: A message is sent again when only its notification failed. \<open>send_stream\<close> of the backing reports the
  failed notification although the page is out, and the tokio layer retries the whole call: with \<open>k\<close>
  failing notifications a payload of one page is published \<open>k + 1\<close> times, and every receiver that
  wants it completes it \<open>k + 1\<close> times.
\<close>

theorem notify_failure_duplicates:
  assumes "flaky_notifier (iox2_lib b) cells log trouble" and "has_iox2 b"
    and "\<And>t w. log (sleep_ms b t w) = log w \<and> trouble (sleep_ms b t w) = trouble w"
    and "length payload \<le> 1000" and "hs \<le> length payload" and "sc (take hs payload) = Some True"
    and "send_tx g" and "send_actor g = Serving cells"
  shows "\<exists>g1 pages. tokio_send_stream b payload hs g = Some (Returns g1) \<and>
    log (world g1) = log (world g) @ pages \<and>
    run_events (handle_page ov sc) pages allocs =
      Some (replicate (trouble (world g) + 1) (Some (payload, hs)), allocs)"
proof -
  have len: "length payload + 24 \<le> PRESET_N" using assms(4) by (simp add: PRESET_N_def)
  obtain page where page: "single_page payload hs = Some page"
    using single_page_eq [OF len, of hs] by blast
  have "handle_page ov sc page allocs = Some (Some (payload, hs), allocs)"
    using handle_single_page [OF len assms(5) page, of ov sc allocs] assms(6) by simp
  then have "run_events (handle_page ov sc) (replicate n page) allocs =
      Some (replicate n (Some (payload, hs)), allocs)" for n
    by (induction n) simp_all
  with flaky_send_loop [OF assms(1-5) page assms(7,8)] show ?thesis by blast
qed

definition flaky_build :: "(bus, nat) build" where
  "flaky_build = (bus_build True)\<lparr>iox2_lib := bus_api\<lparr>loan_uninit := (\<lambda>_ w. (Inr 8, w)),
     notify_event := (\<lambda>_ _ w. if failures w = 0 then (Inr 1, w)
       else (Inl ''notify'', w\<lparr>failures := failures w - 1\<rparr>))\<rparr>\<rparr>"

theorem notify_failure_duplicates_witness:
  "\<exists>g1 pages. tokio_send_stream flaky_build [5, 6] 1
      (waiting_runtime\<lparr>send_tx := True, send_actor := Serving full_cells, world := \<lparr>published = [], failures = 2\<rparr>\<rparr>) =
      Some (Returns g1) \<and> published (world g1) = [] @ pages \<and>
    run_events (handle_page True (\<lambda>_. Some True)) pages Map.empty =
      Some (replicate 3 (Some ([5, 6], 1)), Map.empty)"
proof -
  let ?g = "waiting_runtime\<lparr>send_tx := True, send_actor := Serving full_cells, world := \<lparr>published = [], failures = 2\<rparr>\<rparr>"
  have "flaky_notifier (iox2_lib flaky_build) full_cells published failures"
    by (auto simp: flaky_notifier_def flaky_build_def bus_build_def bus_api_def full_cells_eq send_page_def notify_def)
  from notify_failure_duplicates [OF this, of "[5, 6]" 1 "\<lambda>_. Some True" ?g True Map.empty]
  show ?thesis by (simp add: flaky_build_def bus_build_def numeral_3_eq_3 numeral_2_eq_2)
qed

end
