(* ===== verification/Combined_Recv.thy ===== *)
theory Combined_Recv
  imports Combined_Runtime Iox2_Lifecycle
begin

text \<open>
  \<open>recv_stream\<close> of the combined runtime (\<^verbatim>\<open>skycurrent/src/backing/combined.rs\<close>) as a future, and its blocking
  version: rounds of \<open>try_recv_stream\<close> through the scheduler, and waits in between. When pages are
  buffered it merges them one per round, whichever backing has its turn.
\<close>

section \<open>The future\<close>

text \<open>
  Where \<open>recv_stream\<close> is: about to call \<open>try_recv_stream\<close>, about to await \<open>wait_stream\<close>, or waiting. A turn
  is what it does up to the next of these points; \<open>ws_first\<close> and \<open>ws_ready\<close> are as for \<open>wait_poll\<close>.
\<close>

datatype recv_future = RecvAsking | RecvRegistering | RecvWaiting

definition recv_turn ::
  "('w, 'h) build \<Rightarrow> bool \<Rightarrow> bool \<Rightarrow> recv_future \<Rightarrow> ('w, 'h) combined \<Rightarrow>
     ((recv_future + combined_ipc_error + byte list) \<times> ('w, 'h) combined) outcome option" where
  "recv_turn b ws_first ws_ready fut g =
     (case fut of
        RecvAsking \<Rightarrow>
          (case recv_stream_round b g of
             None \<Rightarrow> None
           | Some Panics \<Rightarrow> Some Panics
           | Some (Returns (RoundReturn r, g1)) \<Rightarrow> Some (Returns (Inr r, g1))
           | Some (Returns (RoundContinue, g1)) \<Rightarrow> Some (Returns (Inl RecvAsking, g1))
           | Some (Returns (RoundAwait, g1)) \<Rightarrow> Some (Returns (Inl RecvRegistering, g1)))
      | RecvRegistering \<Rightarrow>
          (case wait_register b g of
             (Inl e, g1) \<Rightarrow> Some (Returns (Inr (Inl e), g1))
           | (Inr _, g1) \<Rightarrow> Some (Returns (Inl RecvWaiting, g1)))
      | RecvWaiting \<Rightarrow>
          (case wait_poll b ws_first ws_ready g of
             (PollPending, g1) \<Rightarrow> Some (Returns (Inl RecvWaiting, g1))
           | (PollReady (Inl e), g1) \<Rightarrow> Some (Returns (Inr (Inl e), g1))
           | (PollReady (Inr _), g1) \<Rightarrow> Some (Returns (Inl RecvAsking, g1))))"

text \<open>
  Around a blocked thread: what happens until it is woken, which branch \<open>select!\<close> polls first, and
  whether a gateway message came since the wait began.
\<close>

record ('w, 'h) surroundings =
  until_woken :: "('w, 'h) combined \<Rightarrow> ('w, 'h) combined"
  polls_ws_first :: "'w \<Rightarrow> bool"
  gateway_news :: "'w \<Rightarrow> bool"

text \<open>\<open>block_on\<close> of the two futures: polled again whenever woken, so possibly for ever.\<close>

partial_function (option) recv_until ::
  "('w, 'h) build \<Rightarrow> ('w, 'h) surroundings \<Rightarrow> recv_future \<Rightarrow> ('w, 'h) combined \<Rightarrow>
     ((combined_ipc_error + byte list) \<times> ('w, 'h) combined) outcome option" where
  [code]: "recv_until b env fut g =
     (case recv_turn b (polls_ws_first env (world g)) (gateway_news env (world g)) fut g of
        None \<Rightarrow> None
      | Some Panics \<Rightarrow> Some Panics
      | Some (Returns (Inr r, g1)) \<Rightarrow> Some (Returns (r, g1))
      | Some (Returns (Inl fut1, g1)) \<Rightarrow>
          recv_until b env fut1 (if fut1 = RecvWaiting \<and> fut = RecvWaiting then until_woken env g1 else g1))"

definition blocking_recv_stream ::
  "('w, 'h) build \<Rightarrow> ('w, 'h) surroundings \<Rightarrow> ('w, 'h) combined \<Rightarrow>
     ((combined_ipc_error + byte list) \<times> ('w, 'h) combined) outcome option" where
  "blocking_recv_stream b env g = recv_until b env RecvAsking g"

partial_function (option) wait_until ::
  "('w, 'h) build \<Rightarrow> ('w, 'h) surroundings \<Rightarrow> ('w, 'h) combined \<Rightarrow>
     ((combined_ipc_error + unit) \<times> ('w, 'h) combined) option" where
  [code]: "wait_until b env g =
     (case wait_poll b (polls_ws_first env (world g)) (gateway_news env (world g)) g of
        (PollPending, g1) \<Rightarrow> wait_until b env (until_woken env g1)
      | (PollReady r, g1) \<Rightarrow> Some (r, g1))"

definition blocking_wait_stream ::
  "('w, 'h) build \<Rightarrow> ('w, 'h) surroundings \<Rightarrow> ('w, 'h) combined \<Rightarrow>
     ((combined_ipc_error + unit) \<times> ('w, 'h) combined) option" where
  "blocking_wait_stream b env g =
     (case wait_register b g of
        (Inl e, g1) \<Rightarrow> Some (Inl e, g1)
      | (Inr _, g1) \<Rightarrow> wait_until b env g1)"

section \<open>A runtime that can receive\<close>

text \<open>
  The subscriber's buffer is a FIFO \<open>q\<close> that an empty read reports as empty, and reading it leaves the
  rest of the world, \<open>x\<close>, alone; the gateway has no client that sends, its channels work, and it leaves
  the buffer alone.
\<close>

definition mesh_buffer ::
  "('w, 'h) iox2_api \<Rightarrow> 'h \<Rightarrow> ('w \<Rightarrow> blob list) \<Rightarrow> ('w \<Rightarrow> 'x) \<Rightarrow> bool" where
  "mesh_buffer api sub q x \<longleftrightarrow>
     (\<forall>w. \<exists>r w1. sub_receive api sub w = (Inr r, w1) \<and> x w1 = x w \<and>
        (case q w of
           [] \<Rightarrow> r = None \<and> q w1 = []
         | page # pages \<Rightarrow> r = Some page \<and> q w1 = pages))"

text \<open>What the gateway's clients are sent shows in \<open>x\<close>, as \<open>note\<close> says.\<close>

definition quiet_gateway ::
  "('w, 'h) build \<Rightarrow> 'h ws_statics \<Rightarrow> ('w \<Rightarrow> 'q) \<Rightarrow> ('w \<Rightarrow> 'x) \<Rightarrow> (byte list \<Rightarrow> 'x \<Rightarrow> 'x) \<Rightarrow> bool" where
  "quiet_gateway b st q x note \<longleftrightarrow>
     (\<exists>rx. receiving_rx st = Some rx \<and>
        (\<forall>w. \<exists>w1. rx_try_recv (ws_lib b) rx w = (Inl Pending, w1) \<and> q w1 = q w \<and> x w1 = x w)) \<and>
     (\<forall>v w. \<exists>ok w1. tx_blocking_send (ws_lib b) (broadcast_tx st) v w = Some (ok, w1) \<and>
        q w1 = q w \<and> x w1 = note v (x w))"

text \<open>A message as the clients of the gateway get it, and what a page does to \<open>x\<close>.\<close>

definition ws_frame :: "byte list \<Rightarrow> nat \<Rightarrow> byte list" where
  "ws_frame m hs = m @ u64_to_le (word_of_nat hs)"

definition noted :: "(byte list \<Rightarrow> 'x \<Rightarrow> 'x) \<Rightarrow> (byte list \<times> nat) option \<Rightarrow> 'x \<Rightarrow> 'x" where
  "noted note res s = (case res of None \<Rightarrow> s | Some (m, hs) \<Rightarrow> note (ws_frame m hs) s)"

definition receiving ::
  "('w, 'h) build \<Rightarrow> should_collect \<Rightarrow> 'h ws_statics \<Rightarrow> 'h iox2_tls \<Rightarrow> ('w, 'h) combined \<Rightarrow> bool" where
  "receiving b sc st cells g \<longleftrightarrow>
     has_iox2 b \<and> has_ws b \<and> recv_tx g \<and> recv_actor g = Serving cells \<and>
     wait_stream_locks g = [False, False] \<and> wait_rx g = Some [] \<and>
     global_should_collect g = Some sc \<and> ws_st g = st"

lemma receiving_update:
  "receiving b sc st cells g \<Longrightarrow> receiving b sc st cells (g\<lparr>current_backing := cb\<rparr>)"
  "receiving b sc st cells g \<Longrightarrow> receiving b sc st cells (g\<lparr>world := w\<rparr>)"
  "receiving b sc st cells g \<Longrightarrow> receiving b sc st cells' (g\<lparr>recv_actor := Serving cells'\<rparr>)"
  by (simp_all add: receiving_def)

lemma bit_clear: "bit_at [False, False] (backing_index bk) = (if bk = Count then None else Some False)"
  by (cases bk) (simp_all add: bit_at_def backing_index_def)

lemma next_backings [simp]:
  "next_backing Iox2 = Some WsGateway" "next_backing WsGateway = Some Iox2"
  by (simp_all add: next_backing_def backing_from_def backing_index_def)

text \<open>One question to each backing.\<close>

lemma ask_mesh:
  assumes r: "receiving b sc st cells g" and sub: "iox2_sub cells = Some sub" and mesh: "mesh_buffer (iox2_lib b) sub q x"
  shows "q (world g) = [] \<Longrightarrow> \<exists>w1. q w1 = [] \<and> x w1 = x (world g) \<and>
      query_backing b (Some sc) Iox2 g = Some (Returns (Inr OutOfAccessible, g\<lparr>recv_actor := Serving cells, world := w1\<rparr>))"
    and "q (world g) = page # pages \<Longrightarrow>
      handle_page (overflow_checks b) sc page (merge_allocs cells) = Some (res, allocs) \<Longrightarrow>
      \<exists>w1. q w1 = pages \<and> x w1 = x (world g) \<and>
      query_backing b (Some sc) Iox2 g = Some (Returns (Inr (case res of None \<Rightarrow> PotentiallyAvailable
        | Some (m, hs) \<Rightarrow> NewCompleted m hs),
        g\<lparr>recv_actor := Serving (cells\<lparr>merge_allocs := allocs\<rparr>), world := w1\<rparr>))"
proof -
  note defs = receiving_def query_backing_def actor_call_def iox2_try_recv_stream_def recv_page_def
  show "\<exists>w1. q w1 = [] \<and> x w1 = x (world g) \<and>
      query_backing b (Some sc) Iox2 g = Some (Returns (Inr OutOfAccessible, g\<lparr>recv_actor := Serving cells, world := w1\<rparr>))"
    if "q (world g) = []"
  proof -
    from mesh obtain r' w1 where "sub_receive (iox2_lib b) sub (world g) = (Inr r', w1)" "x w1 = x (world g)"
      "case q (world g) of [] \<Rightarrow> r' = None \<and> q w1 = [] | p # ps \<Rightarrow> r' = Some p \<and> q w1 = ps"
      unfolding mesh_buffer_def by blast
    with that have "sub_receive (iox2_lib b) sub (world g) = (Inr None, w1)" "q w1 = []" "x w1 = x (world g)"
      by simp_all
    with r sub show ?thesis by (intro exI [of _ w1]) (simp add: defs)
  qed
  show "\<exists>w1. q w1 = pages \<and> x w1 = x (world g) \<and>
      query_backing b (Some sc) Iox2 g = Some (Returns (Inr (case res of None \<Rightarrow> PotentiallyAvailable
        | Some (m, hs) \<Rightarrow> NewCompleted m hs),
        g\<lparr>recv_actor := Serving (cells\<lparr>merge_allocs := allocs\<rparr>), world := w1\<rparr>))"
    if "q (world g) = page # pages"
      and "handle_page (overflow_checks b) sc page (merge_allocs cells) = Some (res, allocs)"
  proof -
    from mesh obtain r' w1 where "sub_receive (iox2_lib b) sub (world g) = (Inr r', w1)" "x w1 = x (world g)"
      "case q (world g) of [] \<Rightarrow> r' = None \<and> q w1 = [] | p # ps \<Rightarrow> r' = Some p \<and> q w1 = ps"
      unfolding mesh_buffer_def by blast
    with that(1) have "sub_receive (iox2_lib b) sub (world g) = (Inr (Some page), w1)" "q w1 = pages"
      "x w1 = x (world g)"
      by simp_all
    with r sub that(2) show ?thesis
      by (intro exI [of _ w1]) (simp add: defs split: option.split)
  qed
qed

lemma ask_gateway:
  assumes "receiving b sc st cells g" and "quiet_gateway b st q x note"
  shows "\<exists>w1. q w1 = q (world g) \<and> x w1 = x (world g) \<and>
    query_backing b c WsGateway g = Some (Returns (Inr OutOfAccessible, g\<lparr>world := w1\<rparr>))"
proof -
  from assms(2) obtain rx w1 where "receiving_rx st = Some rx"
    "rx_try_recv (ws_lib b) rx (world g) = (Inl Pending, w1)" "q w1 = q (world g)" "x w1 = x (world g)"
    unfolding quiet_gateway_def by blast
  with assms(1) show ?thesis
    by (intro exI [of _ w1]) (simp add: receiving_def query_backing_def ws_try_recv_copy_def)
qed


section \<open>One round\<close>

lemma deliver_mesh:
  assumes "receiving b sc st cells g" and "quiet_gateway b st q x note"
  shows "\<exists>w1. q w1 = q (world g) \<and> x w1 = note (ws_frame m hs) (x (world g)) \<and>
    deliver b Iox2 m hs g = Some (Returns (Inr (NewCompleted m hs), g\<lparr>world := w1\<rparr>))"
proof -
  from assms(2) obtain ok w1 where
    "tx_blocking_send (ws_lib b) (broadcast_tx st) (ws_frame m hs) (world g) = Some (ok, w1)"
    "q w1 = q (world g)" "x w1 = note (ws_frame m hs) (x (world g))"
    unfolding quiet_gateway_def by blast
  with assms(1) show ?thesis
    by (intro exI [of _ w1]) (simp add: receiving_def deliver_def ws_send_copy_def ws_frame_def)
qed

lemma choose_receiving:
  assumes "receiving b sc st cells g"
  obtains g1 where "choose_backing b g = Some g1" "receiving b sc st cells g1" "world g1 = world g"
    "fst (current_backing g1) \<noteq> Count"
proof -
  obtain bk t where bk: "current_backing g = (bk, t)" by force
  show thesis
  proof (cases "bk = Count")
    case True
    with bk assms show thesis
      by (intro that [of "enter_backing b Iox2 g"])
        (auto simp: choose_backing_def enter_backing_def intro: receiving_update)
  next
    case False
    show thesis
    proof (cases "clock b (world g) - t > 10000")
      case True
      obtain nb where "next_backing bk = Some nb" "nb \<noteq> Count" using False by (cases bk) auto
      with True False bk assms show thesis
        by (intro that [of "enter_backing b nb g"])
          (auto simp: choose_backing_def enter_backing_def intro: receiving_update)
    next
      case False
      with \<open>bk \<noteq> Count\<close> bk assms show thesis by (intro that [of g]) (auto simp: choose_backing_def)
    qed
  qed
qed

text \<open>The state after a round, up to the time of the turn.\<close>

definition after_round ::
  "('w, 'h) build \<Rightarrow> should_collect \<Rightarrow> 'h ws_statics \<Rightarrow> 'h iox2_tls \<Rightarrow> ('w \<Rightarrow> 'q) \<Rightarrow> 'q \<Rightarrow>
     ('w, 'h) combined \<Rightarrow> bool" where
  "after_round b sc st cells q pages g \<longleftrightarrow> receiving b sc st cells g \<and> q (world g) = pages"

lemma scheduler_empty:
  assumes r: "receiving b sc st cells g" and sub: "iox2_sub cells = Some sub" and mesh: "mesh_buffer (iox2_lib b) sub q x"
    and gw: "quiet_gateway b st q x note" and empty: "q (world g) = []" and bk: "fst (current_backing g) \<noteq> Count"
  shows "\<exists>g1. try_backings b (Some sc) 2 g = Some (Returns (Inr OutOfAccessible, g1)) \<and>
    after_round b sc st cells (\<lambda>w. (q w, x w)) ([], x (world g)) g1"
proof (cases "fst (current_backing g)")
  case Iox2
  from ask_mesh(1) [OF r sub mesh empty] obtain w1 where w1: "q w1 = []" "x w1 = x (world g)"
    "query_backing b (Some sc) Iox2 g = Some (Returns (Inr OutOfAccessible, g\<lparr>recv_actor := Serving cells, world := w1\<rparr>))"
    by blast
  let ?g = "enter_backing b WsGateway (g\<lparr>recv_actor := Serving cells, world := w1\<rparr>)"
  have r1: "receiving b sc st cells ?g" using r by (simp add: receiving_def enter_backing_def)
  from ask_gateway [OF this gw] obtain w2 where w2: "q w2 = []" "x w2 = x (world g)"
    "query_backing b (Some sc) WsGateway ?g = Some (Returns (Inr OutOfAccessible, ?g\<lparr>world := w2\<rparr>))"
    using w1(1,2) by (auto simp: enter_backing_def)
  have "after_round b sc st cells (\<lambda>w. (q w, x w)) ([], x (world g)) (enter_backing b Iox2 (?g\<lparr>world := w2\<rparr>))"
    using r1 w2(1,2) by (simp add: after_round_def receiving_def enter_backing_def)
  moreover have "try_backings b (Some sc) 2 g =
      Some (Returns (Inr OutOfAccessible, enter_backing b Iox2 (?g\<lparr>world := w2\<rparr>)))"
    using r Iox2 w1(3) w2(3)
    by (simp add: numeral_2_eq_2 receiving_def bit_clear) (simp add: enter_backing_def bit_clear)
  ultimately show ?thesis by blast
next
  case WsGateway
  from ask_gateway [OF r gw] obtain w1 where w1: "q w1 = []" "x w1 = x (world g)"
    "query_backing b (Some sc) WsGateway g = Some (Returns (Inr OutOfAccessible, g\<lparr>world := w1\<rparr>))"
    using empty by auto
  let ?g = "enter_backing b Iox2 (g\<lparr>world := w1\<rparr>)"
  have r1: "receiving b sc st cells ?g" using r by (simp add: receiving_def enter_backing_def)
  have g1: "q (world ?g) = []" "x (world ?g) = x (world g)" using w1(1,2) by (simp_all add: enter_backing_def)
  from ask_mesh(1) [OF r1 sub mesh g1(1), unfolded g1(2)] obtain w2 where w2: "q w2 = []" "x w2 = x (world g)"
    "query_backing b (Some sc) Iox2 ?g = Some (Returns (Inr OutOfAccessible, ?g\<lparr>recv_actor := Serving cells, world := w2\<rparr>))"
    by blast
  have "after_round b sc st cells (\<lambda>w. (q w, x w)) ([], x (world g)) (enter_backing b WsGateway (?g\<lparr>recv_actor := Serving cells, world := w2\<rparr>))"
    using r1 w2(1,2) by (simp add: after_round_def receiving_def enter_backing_def)
  moreover have "try_backings b (Some sc) 2 g =
      Some (Returns (Inr OutOfAccessible, enter_backing b WsGateway (?g\<lparr>recv_actor := Serving cells, world := w2\<rparr>)))"
    using r WsGateway w1(3) w2(3)
    by (simp add: numeral_2_eq_2 receiving_def bit_clear) (simp add: enter_backing_def bit_clear)
  ultimately show ?thesis by blast
qed (use bk in simp)


lemma mesh_turn:
  assumes r: "receiving b sc st cells g" and sub: "iox2_sub cells = Some sub" and mesh: "mesh_buffer (iox2_lib b) sub q x"
    and gw: "quiet_gateway b st q x note" and page: "q (world g) = page # pages" and bk: "fst (current_backing g) = Iox2"
    and step: "handle_page (overflow_checks b) sc page (merge_allocs cells) = Some (res, allocs)"
  shows "\<exists>g1. try_backings b (Some sc) (Suc n) g =
      Some (Returns (Inr (case res of None \<Rightarrow> PotentiallyAvailable | Some (m, hs) \<Rightarrow> NewCompleted m hs), g1)) \<and>
    after_round b sc st (cells\<lparr>merge_allocs := allocs\<rparr>) (\<lambda>w. (q w, x w)) (pages, noted note res (x (world g))) g1"
proof -
  let ?cells = "cells\<lparr>merge_allocs := allocs\<rparr>"
  from ask_mesh(2) [OF r sub mesh page step] obtain w1 where w1: "q w1 = pages" "x w1 = x (world g)"
    "query_backing b (Some sc) Iox2 g = Some (Returns (Inr (case res of None \<Rightarrow> PotentiallyAvailable
        | Some (m, hs) \<Rightarrow> NewCompleted m hs), g\<lparr>recv_actor := Serving ?cells, world := w1\<rparr>))"
    by blast
  let ?g = "g\<lparr>recv_actor := Serving ?cells, world := w1\<rparr>"
  have r1: "receiving b sc st ?cells ?g" using r by (simp add: receiving_def)
  have locks: "bit_at (wait_stream_locks g) (backing_index Iox2) = Some False" "has_iox2 b"
    using r by (simp_all add: receiving_def bit_clear)
  show ?thesis
  proof (cases "res")
    case None
    with locks w1 r1 bk show ?thesis by (intro exI [of _ ?g]) (simp add: after_round_def noted_def)
  next
    case (Some p)
    obtain m hs where p: "p = (m, hs)" by (cases p)
    from deliver_mesh [OF r1 gw, of m hs] obtain w2 where "q w2 = pages" "x w2 = note (ws_frame m hs) (x (world g))"
      "deliver b Iox2 m hs ?g = Some (Returns (Inr (NewCompleted m hs), ?g\<lparr>world := w2\<rparr>))"
      using w1(1,2) by auto
    moreover have "receiving b sc st ?cells (?g\<lparr>world := w2\<rparr>)" using r1 by (rule receiving_update)
    ultimately show ?thesis
      using locks w1(3) bk Some p by (intro exI [of _ "?g\<lparr>world := w2\<rparr>"]) (simp add: after_round_def noted_def)
  qed
qed

text \<open>If it is the gateway's turn, the mesh is asked next.\<close>

lemma gateway_first:
  assumes r: "receiving b sc st cells g" and gw: "quiet_gateway b st q x note"
    and bk: "fst (current_backing g) \<noteq> Count"
  obtains g1 n where "try_backings b (Some sc) 2 g = try_backings b (Some sc) (Suc n) g1"
    "receiving b sc st cells g1" "fst (current_backing g1) = Iox2"
    "q (world g1) = q (world g)" "x (world g1) = x (world g)"
proof (cases "fst (current_backing g)")
  case Iox2
  with r show thesis by (intro that [of "Suc 0" g]) (simp_all add: numeral_2_eq_2)
next
  case WsGateway
  from ask_gateway [OF r gw] obtain w1 where w1: "q w1 = q (world g)" "x w1 = x (world g)"
    "query_backing b (Some sc) WsGateway g = Some (Returns (Inr OutOfAccessible, g\<lparr>world := w1\<rparr>))"
    by auto
  let ?g = "enter_backing b Iox2 (g\<lparr>world := w1\<rparr>)"
  have "try_backings b (Some sc) 2 g = try_backings b (Some sc) (Suc 0) ?g"
    using r WsGateway w1(3) by (subst numeral_2_eq_2, subst try_backings.simps(2))
      (simp add: receiving_def bit_clear del: try_backings.simps)
  with r w1 show thesis by (intro that [of 0 ?g]) (simp_all add: receiving_def enter_backing_def)
qed (use bk in simp)

lemma scheduler_page:
  assumes r: "receiving b sc st cells g" and sub: "iox2_sub cells = Some sub" and mesh: "mesh_buffer (iox2_lib b) sub q x"
    and gw: "quiet_gateway b st q x note" and page: "q (world g) = page # pages" and bk: "fst (current_backing g) \<noteq> Count"
    and step: "handle_page (overflow_checks b) sc page (merge_allocs cells) = Some (res, allocs)"
  shows "\<exists>g1. try_backings b (Some sc) 2 g =
      Some (Returns (Inr (case res of None \<Rightarrow> PotentiallyAvailable | Some (m, hs) \<Rightarrow> NewCompleted m hs), g1)) \<and>
    after_round b sc st (cells\<lparr>merge_allocs := allocs\<rparr>) (\<lambda>w. (q w, x w)) (pages, noted note res (x (world g))) g1"
proof -
  obtain g1 n where g1: "try_backings b (Some sc) 2 g = try_backings b (Some sc) (Suc n) g1"
    "receiving b sc st cells g1" "fst (current_backing g1) = Iox2"
    "q (world g1) = q (world g)" "x (world g1) = x (world g)"
    by (rule gateway_first [OF r gw bk])
  from mesh_turn [OF g1(2) sub mesh gw _ g1(3) step, of pages n] page g1 show ?thesis by simp
qed

text \<open>A page on which the merging panics ends the actor.\<close>

lemma scheduler_crash:
  assumes r: "receiving b sc st cells g" and sub: "iox2_sub cells = Some sub" and mesh: "mesh_buffer (iox2_lib b) sub q x"
    and gw: "quiet_gateway b st q x note" and page: "q (world g) = page # pages" and bk: "fst (current_backing g) \<noteq> Count"
    and step: "handle_page (overflow_checks b) sc page (merge_allocs cells) = None"
  shows "\<exists>g1. try_backings b (Some sc) 2 g =
    Some (Returns (Inl (BackingCrashedOrNotStarted ''IOX2_RECV_SENDER_TX''), g1)) \<and> recv_actor g1 = Gone"
proof -
  obtain g1 n where g1: "try_backings b (Some sc) 2 g = try_backings b (Some sc) (Suc n) g1"
    "receiving b sc st cells g1" "fst (current_backing g1) = Iox2"
    "q (world g1) = q (world g)" "x (world g1) = x (world g)"
    by (rule gateway_first [OF r gw bk])
  from mesh obtain r' w1 where "sub_receive (iox2_lib b) sub (world g1) = (Inr r', w1)"
    "case q (world g1) of [] \<Rightarrow> r' = None \<and> q w1 = [] | p # ps \<Rightarrow> r' = Some p \<and> q w1 = ps"
    unfolding mesh_buffer_def by blast
  with page g1(4) have "sub_receive (iox2_lib b) sub (world g1) = (Inr (Some page), w1)" by simp
  with g1 sub step show ?thesis
    by (simp add: receiving_def query_backing_def actor_call_def iox2_try_recv_stream_def recv_page_def bit_clear)
qed

lemma try_recv_receiving:
  assumes "receiving b sc st cells g"
  obtains g1 where "receiving b sc st cells g1" "world g1 = world g" "fst (current_backing g1) \<noteq> Count"
    "combined_try_recv_stream b False g = try_backings b (Some sc) 2 g1"
proof -
  from choose_receiving [OF assms] obtain g1 where g1: "choose_backing b g = Some g1"
    "receiving b sc st cells g1" "world g1 = world g" "fst (current_backing g1) \<noteq> Count"
    by blast
  have "wait_stream_drain False g1 = (Inr (), g1)"
    using g1(2) by (simp add: wait_stream_drain_def receiving_def)
  with g1 assms show thesis
    by (intro that [of g1]) (simp_all add: combined_try_recv_stream_def receiving_def)
qed

lemma round_page:
  assumes r: "receiving b sc st cells g" and sub: "iox2_sub cells = Some sub" and mesh: "mesh_buffer (iox2_lib b) sub q x"
    and gw: "quiet_gateway b st q x note" and page: "q (world g) = page # pages"
    and step: "handle_page (overflow_checks b) sc page (merge_allocs cells) = Some (res, allocs)"
  shows "\<exists>g1. recv_stream_round b g =
      Some (Returns (case res of None \<Rightarrow> RoundContinue | Some (m, hs) \<Rightarrow> RoundReturn (Inr m), g1)) \<and>
    after_round b sc st (cells\<lparr>merge_allocs := allocs\<rparr>) (\<lambda>w. (q w, x w)) (pages, noted note res (x (world g))) g1"
proof -
  obtain g1 where g1: "receiving b sc st cells g1" "world g1 = world g" "fst (current_backing g1) \<noteq> Count"
    and eq: "combined_try_recv_stream b False g = try_backings b (Some sc) 2 g1"
    by (rule try_recv_receiving [OF r])
  from scheduler_page [OF g1(1) sub mesh gw _ g1(3) step] page g1(2) obtain g2 where
    "try_backings b (Some sc) 2 g1 =
      Some (Returns (Inr (case res of None \<Rightarrow> PotentiallyAvailable | Some (m, hs) \<Rightarrow> NewCompleted m hs), g2))"
    "after_round b sc st (cells\<lparr>merge_allocs := allocs\<rparr>) (\<lambda>w. (q w, x w)) (pages, noted note res (x (world g))) g2"
    by auto
  with eq show ?thesis
    by (intro exI [of _ g2]) (simp add: recv_stream_round_def split: option.split prod.split)
qed

lemma round_empty:
  assumes r: "receiving b sc st cells g" and sub: "iox2_sub cells = Some sub" and mesh: "mesh_buffer (iox2_lib b) sub q x"
    and gw: "quiet_gateway b st q x note" and empty: "q (world g) = []"
  shows "\<exists>g1. recv_stream_round b g = Some (Returns (RoundAwait, g1)) \<and> after_round b sc st cells (\<lambda>w. (q w, x w)) ([], x (world g)) g1"
proof -
  obtain g1 where g1: "receiving b sc st cells g1" "world g1 = world g" "fst (current_backing g1) \<noteq> Count"
    and eq: "combined_try_recv_stream b False g = try_backings b (Some sc) 2 g1"
    by (rule try_recv_receiving [OF r])
  from scheduler_empty [OF g1(1) sub mesh gw _ g1(3)] empty g1(2) obtain g2 where
    "try_backings b (Some sc) 2 g1 = Some (Returns (Inr OutOfAccessible, g2))" "after_round b sc st cells (\<lambda>w. (q w, x w)) ([], x (world g)) g2"
    by auto
  with eq show ?thesis by (intro exI [of _ g2]) (simp add: recv_stream_round_def)
qed

lemma round_crash:
  assumes r: "receiving b sc st cells g" and sub: "iox2_sub cells = Some sub" and mesh: "mesh_buffer (iox2_lib b) sub q x"
    and gw: "quiet_gateway b st q x note" and page: "q (world g) = page # pages"
    and step: "handle_page (overflow_checks b) sc page (merge_allocs cells) = None"
  shows "\<exists>g1. recv_stream_round b g =
    Some (Returns (RoundReturn (Inl (BackingCrashedOrNotStarted ''IOX2_RECV_SENDER_TX'')), g1)) \<and> recv_actor g1 = Gone"
proof -
  obtain g1 where g1: "receiving b sc st cells g1" "world g1 = world g" "fst (current_backing g1) \<noteq> Count"
    and eq: "combined_try_recv_stream b False g = try_backings b (Some sc) 2 g1"
    by (rule try_recv_receiving [OF r])
  from scheduler_crash [OF g1(1) sub mesh gw _ g1(3) step] page g1(2) eq show ?thesis
    by (fastforce simp: recv_stream_round_def)
qed

section \<open>Receiving what is buffered\<close>

lemma recv_until_ask:
  "recv_stream_round b g = Some (Returns (RoundContinue, g1)) \<Longrightarrow>
     recv_until b env RecvAsking g = recv_until b env RecvAsking g1"
  "recv_stream_round b g = Some (Returns (RoundReturn r, g1)) \<Longrightarrow>
     recv_until b env RecvAsking g = Some (Returns (r, g1))"
  "recv_stream_round b g = Some (Returns (RoundAwait, g1)) \<Longrightarrow>
     recv_until b env RecvAsking g = recv_until b env RecvRegistering g1"
  by (subst recv_until.simps, simp add: recv_turn_def)+

text \<open>
  While the thread waits the mesh brings what is still \<open>coming\<close>, at least one page each time it wakes
  the listener, and no news from the gateway. \<open>out\<close> is what was broadcast to the gateway's clients so far.
\<close>

definition broadcasting :: "byte list \<Rightarrow> blob list \<times> byte list list \<Rightarrow> blob list \<times> byte list list" where
  "broadcasting v x = (fst x, snd x @ [v])"

definition brings_pages ::
  "('w, 'h) surroundings \<Rightarrow> ('w \<Rightarrow> blob list) \<Rightarrow> ('w \<Rightarrow> blob list) \<Rightarrow> ('w \<Rightarrow> byte list list) \<Rightarrow> bool" where
  "brings_pages env q coming out \<longleftrightarrow>
     (\<forall>w. \<not> gateway_news env w) \<and>
     (\<forall>g. q (world g) = [] \<and> coming (world g) \<noteq> [] \<longrightarrow>
        (\<exists>w1. until_woken env g = wait_ends (Inr ()) (with_world g w1) \<and>
           q w1 \<noteq> [] \<and> q w1 @ coming w1 = coming (world g) \<and> out w1 = out (world g)))"

lemma wait_cycle:
  assumes r: "receiving b sc st cells g" and sub: "iox2_sub cells = Some sub" and mesh: "mesh_buffer (iox2_lib b) sub q (\<lambda>w. (coming w, out w))"
    and gw: "quiet_gateway b st q (\<lambda>w. (coming w, out w)) broadcasting" "receiving_tx st \<noteq> None" and listener: "iox2_liste cells \<noteq> None"
    and env: "brings_pages env q coming out" and empty: "q (world g) = []" and more: "coming (world g) \<noteq> []"
  shows "\<exists>g1. recv_until b env RecvAsking g = recv_until b env RecvAsking g1 \<and> receiving b sc st cells g1 \<and>
    q (world g1) \<noteq> [] \<and> q (world g1) @ coming (world g1) = coming (world g) \<and> out (world g1) = out (world g)"
proof -
  from round_empty [OF r sub mesh gw(1) empty] obtain g1 where g1: "recv_stream_round b g = Some (Returns (RoundAwait, g1))"
    "receiving b sc st cells g1" "q (world g1) = []" "coming (world g1) = coming (world g)" "out (world g1) = out (world g)"
    by (auto simp: after_round_def)
  obtain l tx where l: "iox2_liste cells = Some l" and tx: "receiving_tx st = Some tx" using listener gw(2) by blast
  let ?g2 = "g1\<lparr>recv_actor := WaitingEvent cells [], wait_stream_locks := [True, False]\<rparr>"
  have reg: "wait_register b g1 = (Inr (), ?g2)"
    using g1(2) l
    by (simp add: wait_register_def receiving_def backing_index_def send_wait_stream_def start_wait_def)
  then have "recv_until b env RecvRegistering g1 = recv_until b env RecvWaiting ?g2"
    by (subst recv_until.simps) (simp add: recv_turn_def)
  also have "\<dots> = recv_until b env RecvWaiting (until_woken env ?g2)"
    using g1(2) tx env
    by (subst recv_until.simps)
      (simp add: recv_turn_def wait_poll_def receiving_def receive_results_def brings_pages_def Let_def)
  finally have wait: "recv_until b env RecvRegistering g1 = recv_until b env RecvWaiting (until_woken env ?g2)" .
  have "q (world ?g2) = [] \<and> coming (world ?g2) \<noteq> []" "coming (world ?g2) = coming (world g)"
    "out (world ?g2) = out (world g)"
    using g1(3-5) more by simp_all
  with env obtain w1 where w1: "until_woken env ?g2 = wait_ends (Inr ()) (with_world ?g2 w1)"
    "q w1 \<noteq> []" "q w1 @ coming w1 = coming (world g)" "out w1 = out (world g)"
    unfolding brings_pages_def by metis
  let ?g3 = "g1\<lparr>world := w1, recv_actor := Serving cells, wait_stream_locks := [False, False], wait_rx := Some []\<rparr>"
  have "recv_until b env RecvWaiting (until_woken env ?g2) = recv_until b env RecvAsking ?g3"
    using g1(2) tx env unfolding w1(1)
    by (subst recv_until.simps)
      (simp add: recv_turn_def wait_poll_def receiving_def receive_results_def brings_pages_def Let_def
        wait_ends_def with_world_def post_result_def handle_wait_stream_return_def backing_index_def)
  with wait recv_until_ask(3) [OF g1(1)] have "recv_until b env RecvAsking g = recv_until b env RecvAsking ?g3"
    by simp
  moreover have "receiving b sc st cells ?g3" using g1(2) by (simp add: receiving_def)
  ultimately show ?thesis using w1(2-4) by (intro exI [of _ ?g3]) simp
qed

lemma recv_delivers:
  assumes mesh: "mesh_buffer (iox2_lib b) sub q (\<lambda>w. (coming w, out w))" and gw: "quiet_gateway b st q (\<lambda>w. (coming w, out w)) broadcasting" "receiving_tx st \<noteq> None"
    and env: "brings_pages env q coming out"
  shows "run_events (handle_page (overflow_checks b) sc) ps (merge_allocs cells) =
      Some (replicate k None @ [Some (m, hs)], allocs) \<Longrightarrow>
    receiving b sc st cells g \<Longrightarrow> q (world g) @ coming (world g) = ps @ pages \<Longrightarrow>
    iox2_sub cells = Some sub \<Longrightarrow> iox2_liste cells \<noteq> None \<Longrightarrow>
    \<exists>g1. recv_until b env RecvAsking g = Some (Returns (Inr m, g1)) \<and>
      receiving b sc st (cells\<lparr>merge_allocs := allocs\<rparr>) g1 \<and> q (world g1) @ coming (world g1) = pages \<and>
      out (world g1) = out (world g) @ [ws_frame m hs]"
proof (induction ps arbitrary: cells g k)
  case (Cons p ps)
  note sub = Cons.prems(4) and listener = Cons.prems(5)
  from Cons.prems(1) obtain res allocs1 es where step:
      "handle_page (overflow_checks b) sc p (merge_allocs cells) = Some (res, allocs1)"
    and rest: "run_events (handle_page (overflow_checks b) sc) ps allocs1 = Some (es, allocs)"
    and es: "replicate k None @ [Some (m, hs)] = res # es"
    by (auto split: option.splits)
  obtain g0 qs where g0: "recv_until b env RecvAsking g = recv_until b env RecvAsking g0" "receiving b sc st cells g0"
    "q (world g0) = p # qs" "qs @ coming (world g0) = ps @ pages" "out (world g0) = out (world g)"
  proof (cases "q (world g)")
    case Nil
    with Cons.prems(3) wait_cycle [OF Cons.prems(2) sub mesh gw listener env] obtain g1 where
      "recv_until b env RecvAsking g = recv_until b env RecvAsking g1" "receiving b sc st cells g1"
      "q (world g1) \<noteq> []" "q (world g1) @ coming (world g1) = p # ps @ pages" "out (world g1) = out (world g)"
      by auto
    then show thesis by (cases "q (world g1)") (auto intro: that)
  next
    case (Cons p' qs)
    with Cons.prems show thesis by (intro that [of g]) auto
  qed
  from round_page [OF g0(2) sub mesh gw(1) g0(3) step] obtain g1 where
    g1: "recv_stream_round b g0 =
      Some (Returns (case res of None \<Rightarrow> RoundContinue | Some (m, hs) \<Rightarrow> RoundReturn (Inr m), g1))"
    "receiving b sc st (cells\<lparr>merge_allocs := allocs1\<rparr>) g1" "q (world g1) = qs"
    "(coming (world g1), out (world g1)) = noted broadcasting res (coming (world g0), out (world g0))"
    by (auto simp: after_round_def)
  show ?case
  proof (cases k)
    case 0
    with es rest have "res = Some (m, hs)" "ps = []" "allocs1 = allocs"
      by (cases ps; auto split: option.splits)+
    with g0 g1 show ?thesis by (auto simp: recv_until_ask(2) noted_def broadcasting_def)
  next
    case (Suc n)
    with es have d: "res = None" and es': "es = replicate n None @ [Some (m, hs)]" by auto
    let ?cells = "cells\<lparr>merge_allocs := allocs1\<rparr>"
    have "\<exists>g2. recv_until b env RecvAsking g1 = Some (Returns (Inr m, g2)) \<and>
        receiving b sc st (?cells\<lparr>merge_allocs := allocs\<rparr>) g2 \<and> q (world g2) @ coming (world g2) = pages \<and>
        out (world g2) = out (world g1) @ [ws_frame m hs]"
      using g1 rest es' sub listener g0(4) d by (intro Cons.IH [of ?cells n g1]) (auto simp: noted_def)
    with g0(1,5) g1(1,4) d show ?thesis by (simp add: recv_until_ask(1) noted_def)
  qed
qed simp

end
