(* ===== verification/Mesh_Wakeup.thy ===== *)
theory Mesh_Wakeup
  imports Combined_Recv
begin

text \<open>
  The receiving side against senders it does not control: pages are published, each followed by its
  notification, while \<open>recv_stream\<close> runs, is about to wait, or waits. The step relation interleaves all of
  this; its invariant says that a receiver that sleeps while pages are buffered will be woken.
\<close>

section \<open>Senders, listener, receiver\<close>

text \<open>
  \<open>bell\<close>: the listener has a notification that no wait has returned with yet; notifications that come
  before it is taken are one with it. \<open>owed\<close>: pages that are published and whose notification is not
  sent yet (\<open>send_stream\<close> notifies after every page).
\<close>

record ('w, 'h) mesh_state =
  runtime :: "('w, 'h) combined"
  receiver :: recv_future
  bell :: bool
  owed :: nat

text \<open>
  What the receiving process does: the actor's wait ends with a notification, a turn of \<open>recv_stream\<close>
  (whatever \<open>select!\<close> and the gateway make of it), or its result, after which it is called again.
\<close>

inductive own_step :: "('w, 'h) build \<Rightarrow> ('w, 'h) mesh_state \<Rightarrow> ('w, 'h) mesh_state \<Rightarrow> bool" for b where
  wake: "recv_actor (runtime m) = WaitingEvent cells qs \<Longrightarrow> bell m \<Longrightarrow>
    own_step b m (m\<lparr>runtime := wait_ends (Inr ()) (runtime m), bell := False\<rparr>)"
| turn: "recv_turn b ws_first ws_ready (receiver m) (runtime m) = Some (Returns (Inl fut, g)) \<Longrightarrow>
    own_step b m (m\<lparr>runtime := g, receiver := fut\<rparr>)"
| result: "recv_turn b ws_first ws_ready (receiver m) (runtime m) = Some (Returns (Inr (Inr payload), g)) \<Longrightarrow>
    own_step b m (m\<lparr>runtime := g, receiver := RecvAsking\<rparr>)"

text \<open>Steps without the senders: other threads and time change the rest of the world.\<close>

inductive quiet_step ::
  "('w, 'h) build \<Rightarrow> ('w \<Rightarrow> blob list) \<Rightarrow> ('w, 'h) mesh_state \<Rightarrow> ('w, 'h) mesh_state \<Rightarrow> bool" for b q where
  own: "own_step b m m' \<Longrightarrow> quiet_step b q m m'"
| elsewhere: "q w = q (world (runtime m)) \<Longrightarrow> quiet_step b q m (m\<lparr>runtime := with_world (runtime m) w\<rparr>)"

inductive mesh_step ::
  "('w, 'h) build \<Rightarrow> ('w \<Rightarrow> blob list) \<Rightarrow> ('w, 'h) mesh_state \<Rightarrow> ('w, 'h) mesh_state \<Rightarrow> bool" for b q where
  page: "q w = q (world (runtime m)) @ [p] \<Longrightarrow>
    mesh_step b q m (m\<lparr>runtime := with_world (runtime m) w, owed := Suc (owed m)\<rparr>)"
| ring: "owed m = Suc k \<Longrightarrow> mesh_step b q m (m\<lparr>bell := True, owed := k\<rparr>)"
| quiet: "quiet_step b q m m' \<Longrightarrow> mesh_step b q m m'"

section \<open>The invariant\<close>

text \<open>The statics of a receiver in use, with the actor serving, serving with a result to be taken, or waiting.\<close>

datatype actor_phase = Free | Woken | Asleep

definition in_use ::
  "('w, 'h) build \<Rightarrow> should_collect \<Rightarrow> 'h ws_statics \<Rightarrow> 'h \<Rightarrow> actor_phase \<Rightarrow> ('w, 'h) combined \<Rightarrow> bool" where
  "in_use b sc st sub ph g \<longleftrightarrow>
     has_iox2 b \<and> has_ws b \<and> recv_tx g \<and> global_should_collect g = Some sc \<and> ws_st g = st \<and>
     wait_stream_locks g = [ph \<noteq> Free, False] \<and> wait_rx g = Some (if ph = Woken then [Inr Iox2] else []) \<and>
     (\<exists>cells. iox2_sub cells = Some sub \<and> iox2_liste cells \<noteq> None \<and>
        recv_actor g = (if ph = Asleep then WaitingEvent cells [] else Serving cells))"

definition mesh_ok ::
  "('w, 'h) build \<Rightarrow> should_collect \<Rightarrow> 'h ws_statics \<Rightarrow> 'h \<Rightarrow> ('w \<Rightarrow> blob list) \<Rightarrow> ('w, 'h) mesh_state \<Rightarrow> bool" where
  "mesh_ok b sc st sub q m \<longleftrightarrow>
     (\<exists>ph. in_use b sc st sub ph (runtime m) \<and>
        (receiver m = RecvWaiting \<longrightarrow> ph \<noteq> Free) \<and>
        (q (world (runtime m)) \<noteq> [] \<and> (ph = Asleep \<or> ph = Free \<and> receiver m = RecvRegistering) \<longrightarrow>
           bell m \<or> owed m > 0))"

lemma in_use_receiving:
  "in_use b sc st sub Free g \<longleftrightarrow>
     (\<exists>cells. iox2_sub cells = Some sub \<and> iox2_liste cells \<noteq> None \<and> receiving b sc st cells g)"
  by (auto simp: in_use_def receiving_def)

lemma in_use_world: "in_use b sc st sub ph g \<Longrightarrow> in_use b sc st sub ph (with_world g w)"
  by (simp add: in_use_def with_world_def)

lemma wait_ends_woken: "in_use b sc st sub Asleep g \<Longrightarrow> in_use b sc st sub Woken (wait_ends (Inr ()) g)"
  by (auto simp: in_use_def wait_ends_def post_result_def)

lemma resume_world [simp]: "world (resume_actor cells qs g) = world g"
  by (induction cells qs g rule: resume_actor.induct) simp_all

lemma wait_ends_world [simp]: "world (wait_ends r g) = world g"
  by (simp add: wait_ends_def post_result_def split: actor.split)

section \<open>Turns of the receiver\<close>

text \<open>Taking the result of a wait; \<open>try_recv_stream\<close> does so before it asks.\<close>

definition drained :: "('w, 'h) combined \<Rightarrow> ('w, 'h) combined" where
  "drained g = g\<lparr>wait_stream_locks := [False, False], wait_rx := Some []\<rparr>"

lemma drained_free: "in_use b sc st sub Woken g \<Longrightarrow> in_use b sc st sub Free (drained g)"
  by (auto simp: in_use_def drained_def)

lemma drained_world [simp]: "world (drained g) = world g"
  by (simp add: drained_def)

lemma drain_choose:
  "choose_backing b (drained g) = map_option drained (choose_backing b g)"
  by (cases "current_backing g"; cases "next_backing (fst (current_backing g))")
    (simp_all add: choose_backing_def drained_def enter_backing_def)

lemma drain_woken:
  assumes "wait_stream_locks g = [True, False]" and "wait_rx g = Some [Inr Iox2]"
  shows "wait_stream_drain False g = (Inr (), drained g)"
  using assms by (simp add: wait_stream_drain_def handle_wait_stream_return_def drained_def backing_index_def)

lemma choose_keeps:
  assumes "choose_backing b g = Some g1"
  shows "wait_stream_locks g1 = wait_stream_locks g" "wait_rx g1 = wait_rx g" "world g1 = world g"
  using assms by (auto simp: choose_backing_def enter_backing_def split: prod.splits if_splits)

lemma round_woken:
  assumes "in_use b sc st sub Woken g"
  shows "recv_stream_round b g = recv_stream_round b (drained g)"
proof -
  have g: "wait_stream_locks g = [True, False]" "wait_rx g = Some [Inr Iox2]"
    using assms by (simp_all add: in_use_def)
  have "combined_try_recv_stream b False g = combined_try_recv_stream b False (drained g)"
  proof (cases "choose_backing b g")
    case None
    then show ?thesis by (simp add: combined_try_recv_stream_def drain_choose)
  next
    case (Some g1)
    note k = choose_keeps [OF Some]
    have "wait_stream_drain False (drained g1) = (Inr (), drained g1)"
      by (simp add: wait_stream_drain_def drained_def)
    with Some k g show ?thesis
      by (simp add: combined_try_recv_stream_def drain_choose drain_woken) (simp add: drained_def)
  qed
  then show ?thesis by (simp add: recv_stream_round_def)
qed

text \<open>While the actor waits, a round asks the gateway at most.\<close>

lemma round_asleep:
  assumes use: "in_use b sc st sub Asleep g" and gw: "quiet_gateway b st q (\<lambda>_. ()) (\<lambda>_ _. ())"
  shows "\<exists>g1. recv_stream_round b g = Some (Returns (RoundAwait, g1)) \<and> in_use b sc st sub Asleep g1 \<and>
    q (world g1) = q (world g)"
proof -
  obtain bk t where cb: "current_backing g = (bk, t)" by force
  obtain bk1 t1 where ch: "choose_backing b g = Some (g\<lparr>current_backing := (bk1, t1)\<rparr>)" "bk1 \<noteq> Count"
  proof (cases "bk = Count")
    case True
    with cb show thesis
      by (intro that [of Iox2 "clock b (world g)"]) (simp_all add: choose_backing_def enter_backing_def)
  next
    case False
    then obtain nb where "next_backing bk = Some nb" "nb \<noteq> Count" by (cases bk) auto
    with cb False show thesis
      using that [of nb "clock b (world g)"] that [of bk t]
      by (cases "clock b (world g) - t > 10000") (simp_all add: choose_backing_def enter_backing_def)
  qed
  let ?g = "g\<lparr>current_backing := (bk1, t1)\<rparr>"
  have use1: "in_use b sc st sub Asleep ?g" using use by (simp add: in_use_def)
  then have drain: "wait_stream_drain False ?g = (Inr (), ?g)"
    by (simp add: wait_stream_drain_def in_use_def)
  have blocked: "try_backings b c n h = Some (Returns (Inr OutOfAccessible, h))"
    if "in_use b sc st sub Asleep h" "fst (current_backing h) = Iox2" for c n h
    using that by (induction n) (simp_all add: in_use_def bit_at_def backing_index_def)
  have "\<exists>g1. try_backings b (Some sc) 2 ?g = Some (Returns (Inr OutOfAccessible, g1)) \<and>
      in_use b sc st sub Asleep g1 \<and> q (world g1) = q (world g)"
  proof (cases bk1)
    case Iox2
    with blocked [OF use1] use1 show ?thesis by (intro exI [of _ ?g]) simp
  next
    case WsGateway
    from gw obtain rx w1 where rx: "receiving_rx st = Some rx"
      "rx_try_recv (ws_lib b) rx (world g) = (Inl Pending, w1)" "q w1 = q (world g)"
      unfolding quiet_gateway_def by blast
    let ?h = "enter_backing b Iox2 (?g\<lparr>world := w1\<rparr>)"
    have h: "in_use b sc st sub Asleep ?h" using use1 by (simp add: in_use_def enter_backing_def)
    have "query_backing b (Some sc) WsGateway ?g = Some (Returns (Inr OutOfAccessible, ?g\<lparr>world := w1\<rparr>))"
      using use rx by (simp add: in_use_def query_backing_def ws_try_recv_copy_def)
    then have "try_backings b (Some sc) 2 ?g = try_backings b (Some sc) (Suc 0) ?h"
      using use WsGateway by (subst numeral_2_eq_2, subst try_backings.simps(2))
        (simp add: in_use_def bit_at_def backing_index_def del: try_backings.simps)
    also have "\<dots> = Some (Returns (Inr OutOfAccessible, ?h))"
      using h by (rule blocked) (simp add: enter_backing_def)
    finally show ?thesis using h rx(3) by (intro exI [of _ ?h]) (simp add: enter_backing_def)
  qed (use ch(2) in simp)
  moreover have "global_should_collect g = Some sc" using use by (simp add: in_use_def)
  ultimately show ?thesis using ch(1) drain by (auto simp: recv_stream_round_def combined_try_recv_stream_def)
qed


text \<open>One turn from a state in use: the next state, or a payload.\<close>

lemma asking_free:
  assumes use: "in_use b sc st sub Free g" and mesh: "mesh_buffer (iox2_lib b) sub q (\<lambda>_. ())"
    and gw: "quiet_gateway b st q (\<lambda>_. ()) (\<lambda>_ _. ())"
    and rnd: "recv_stream_round b g = Some (Returns (r, g1))"
  shows "(case r of RoundReturn x \<Rightarrow> \<exists>e. x = Inl e | _ \<Rightarrow> False) \<or>
    in_use b sc st sub Free g1 \<and> (r = RoundAwait \<longrightarrow> q (world g1) = []) \<and> q (world g1) = tl (q (world g))"
proof -
  from use obtain cells where sub: "iox2_sub cells = Some sub" and l: "iox2_liste cells \<noteq> None"
    and rc: "receiving b sc st cells g"
    unfolding in_use_receiving by blast
  show ?thesis
  proof (cases "q (world g)")
    case Nil
    with round_empty [OF rc sub mesh gw] rnd show ?thesis
      using sub l by (auto simp: after_round_def in_use_receiving)
  next
    case (Cons p ps)
    show ?thesis
    proof (cases "handle_page (overflow_checks b) sc p (merge_allocs cells)")
      case None
      with round_crash [OF rc sub mesh gw Cons] rnd show ?thesis by auto
    next
      case (Some x)
      obtain res allocs where "x = (res, allocs)" by force
      with round_page [OF rc sub mesh gw Cons, of res allocs] Some rnd
      have r: "r = (case res of None \<Rightarrow> RoundContinue | Some (m, hs) \<Rightarrow> RoundReturn (Inr m))"
        and g1: "receiving b sc st (cells\<lparr>merge_allocs := allocs\<rparr>) g1" "q (world g1) = ps"
        by (auto simp: after_round_def)
      have "in_use b sc st sub Free g1"
        unfolding in_use_receiving using g1(1) sub l by (intro exI [of _ "cells\<lparr>merge_allocs := allocs\<rparr>"]) simp
      with r g1(2) Cons show ?thesis by (auto split: option.splits)
    qed
  qed
qed


lemma asking_turn:
  assumes use: "in_use b sc st sub ph g" and mesh: "mesh_buffer (iox2_lib b) sub q (\<lambda>_. ())"
    and gw: "quiet_gateway b st q (\<lambda>_. ()) (\<lambda>_ _. ())"
    and rnd: "recv_stream_round b g = Some (Returns (r, g1))"
  shows "(case r of RoundReturn x \<Rightarrow> \<exists>e. x = Inl e | _ \<Rightarrow> False) \<or>
    in_use b sc st sub (if ph = Asleep then Asleep else Free) g1 \<and>
    (ph \<noteq> Asleep \<longrightarrow> (r = RoundAwait \<longrightarrow> q (world g1) = []) \<and> q (world g1) = tl (q (world g))) \<and>
    (ph = Asleep \<longrightarrow> r = RoundAwait \<and> q (world g1) = q (world g))"
proof (cases ph)
  case Free
  with asking_free [OF _ mesh gw rnd] use show ?thesis by simp
next
  case Woken
  with use have "in_use b sc st sub Woken g" by simp
  from asking_free [OF drained_free [OF this] mesh gw] rnd round_woken [OF this] Woken show ?thesis by simp
next
  case Asleep
  with round_asleep [OF _ gw] use rnd show ?thesis by fastforce
qed

lemma registering_turn:
  assumes use: "in_use b sc st sub ph g"
  shows "\<exists>g1. wait_register b g = (Inr (), g1) \<and> in_use b sc st sub (if ph = Free then Asleep else ph) g1 \<and>
    world g1 = world g"
proof (cases "ph = Free")
  case True
  with use obtain cells l where cells: "iox2_sub cells = Some sub" "iox2_liste cells = Some l"
      "recv_actor g = Serving cells"
    by (auto simp: in_use_def)
  with use True show ?thesis
    by (intro exI [of _ "g\<lparr>recv_actor := WaitingEvent cells [], wait_stream_locks := [True, False]\<rparr>"])
      (simp add: wait_register_def send_wait_stream_def start_wait_def backing_index_def in_use_def)
qed (use use in \<open>auto simp: wait_register_def backing_index_def in_use_def\<close>)

text \<open>A poll ends the wait with the actor's result, or (for \<open>select!\<close>) leaves that for the next call.\<close>

lemma waiting_turn:
  assumes use: "in_use b sc st sub ph g" and ph: "ph \<noteq> Free" and poll: "wait_poll b f w g = (p, g1)"
  shows "world g1 = world g \<and>
    ((p = PollPending \<or> p = PollReady (Inr ())) \<and> in_use b sc st sub ph g1 \<and> (p = PollPending \<longrightarrow> ph = Asleep) \<or>
     p = PollReady (Inr ()) \<and> ph = Woken \<and> in_use b sc st sub Free g1)"
proof (cases ph)
  case Woken
  then have woken: "in_use b sc st sub Woken g" using use by simp
  have "receive_results g = (PollReady (Inr ()), drained g)"
    using woken by (simp add: in_use_def receive_results_def handle_wait_stream_return_def drained_def backing_index_def)
  with poll use Woken drained_free [OF woken] show ?thesis
    by (auto simp: wait_poll_def Let_def in_use_def split: if_splits)
next
  case Asleep
  then have "receive_results g = (PollPending, g)" using use by (auto simp: in_use_def receive_results_def)
  with poll use Asleep show ?thesis
    by (auto simp: wait_poll_def Let_def in_use_def split: if_splits)
qed (use ph in simp)


section \<open>The invariant holds\<close>

text \<open>What has to be true of a receiver with its actor in phase \<open>ph\<close>.\<close>

definition noticed :: "actor_phase \<Rightarrow> recv_future \<Rightarrow> bool \<Rightarrow> bool \<Rightarrow> bool" where
  "noticed ph fut none_left signal \<longleftrightarrow>
     (fut = RecvWaiting \<longrightarrow> ph \<noteq> Free) \<and>
     (\<not> none_left \<and> (ph = Asleep \<or> ph = Free \<and> fut = RecvRegistering) \<longrightarrow> signal)"

lemma mesh_ok_noticed:
  "mesh_ok b sc st sub q m \<longleftrightarrow>
     (\<exists>ph. in_use b sc st sub ph (runtime m) \<and>
        noticed ph (receiver m) (q (world (runtime m)) = []) (bell m \<or> owed m > 0))"
  by (auto simp: mesh_ok_def noticed_def)

lemma recv_turn_ok:
  assumes use: "in_use b sc st sub ph g" and fut: "fut = RecvWaiting \<longrightarrow> ph \<noteq> Free"
    and mesh: "mesh_buffer (iox2_lib b) sub q (\<lambda>_. ())" and gw: "quiet_gateway b st q (\<lambda>_. ()) (\<lambda>_ _. ())"
    and notice: "noticed ph fut (q (world g) = []) signal"
    and turn: "recv_turn b f w fut g = Some (Returns (r, g1))"
  shows "case r of
      Inl fut1 \<Rightarrow> \<exists>ph1. in_use b sc st sub ph1 g1 \<and> noticed ph1 fut1 (q (world g1) = []) signal
    | Inr (Inr _) \<Rightarrow> \<exists>ph1. in_use b sc st sub ph1 g1 \<and> noticed ph1 RecvAsking (q (world g1) = []) signal
    | Inr (Inl _) \<Rightarrow> True"
proof (cases fut)
  case RecvAsking
  with turn obtain rd where rnd: "recv_stream_round b g = Some (Returns (rd, g1))"
    and r: "r = (case rd of RoundReturn x \<Rightarrow> Inr x | RoundContinue \<Rightarrow> Inl RecvAsking | RoundAwait \<Rightarrow> Inl RecvRegistering)"
    by (auto simp: recv_turn_def split: option.splits outcome.splits prod.splits recv_round.splits)
  from asking_turn [OF use mesh gw rnd] r notice show ?thesis
    by (cases ph) (auto simp: noticed_def split: recv_round.splits sum.splits)
next
  case RecvRegistering
  from registering_turn [OF use] obtain g2 where reg: "wait_register b g = (Inr (), g2)"
    "in_use b sc st sub (if ph = Free then Asleep else ph) g2" "world g2 = world g"
    by blast
  with turn RecvRegistering have "r = Inl RecvWaiting" "g1 = g2" by (simp_all add: recv_turn_def)
  with reg notice RecvRegistering show ?thesis
    by (cases ph) (auto simp: noticed_def)
next
  case RecvWaiting
  obtain p g2 where poll: "wait_poll b f w g = (p, g2)" by force
  with fut RecvWaiting waiting_turn [OF use _ poll] turn notice show ?thesis
    by (auto simp: recv_turn_def noticed_def split: poll.splits sum.splits)
qed

lemma own_step_ok:
  assumes "own_step b m m'" and "mesh_ok b sc st sub q m"
    and mesh: "mesh_buffer (iox2_lib b) sub q (\<lambda>_. ())" and gw: "quiet_gateway b st q (\<lambda>_. ()) (\<lambda>_ _. ())"
  shows "mesh_ok b sc st sub q m'"
proof -
  from assms(2) obtain ph where use: "in_use b sc st sub ph (runtime m)"
    and notice: "noticed ph (receiver m) (q (world (runtime m)) = []) (bell m \<or> owed m > 0)"
    unfolding mesh_ok_noticed by blast
  then have fut: "receiver m = RecvWaiting \<longrightarrow> ph \<noteq> Free" by (simp add: noticed_def)
  note ok = recv_turn_ok [OF use fut mesh gw notice]
  from assms(1) show ?thesis
  proof (cases rule: own_step.cases)
    case (wake cells qs)
    with use have "ph = Asleep" by (auto simp: in_use_def split: if_splits)
    with use wait_ends_woken have "in_use b sc st sub Woken (wait_ends (Inr ()) (runtime m))" by simp
    with wake show ?thesis by (auto simp: mesh_ok_noticed noticed_def)
  next
    case (turn f w fut g)
    with ok [OF turn(2)] show ?thesis by (simp add: mesh_ok_noticed)
  next
    case (result f w payload g)
    with ok [OF result(2)] show ?thesis by (simp add: mesh_ok_noticed)
  qed
qed


lemma quiet_step_ok:
  assumes "quiet_step b q m m'" and "mesh_ok b sc st sub q m"
    and "mesh_buffer (iox2_lib b) sub q (\<lambda>_. ())" and "quiet_gateway b st q (\<lambda>_. ()) (\<lambda>_ _. ())"
  shows "mesh_ok b sc st sub q m'"
  using assms(1)
proof (cases rule: quiet_step.cases)
  case own
  from own_step_ok [OF own assms(2-4)] show ?thesis .
next
  case (elsewhere w)
  with assms(2) in_use_world show ?thesis
    by (fastforce simp: mesh_ok_noticed noticed_def with_world_def)
qed

lemma mesh_step_ok:
  assumes "mesh_step b q m m'" and "mesh_ok b sc st sub q m"
    and "mesh_buffer (iox2_lib b) sub q (\<lambda>_. ())" and "quiet_gateway b st q (\<lambda>_. ()) (\<lambda>_ _. ())"
  shows "mesh_ok b sc st sub q m'"
  using assms
proof (cases rule: mesh_step.cases)
  case (page w p)
  with assms(2) in_use_world show ?thesis
    by (fastforce simp: mesh_ok_noticed noticed_def with_world_def)
next
  case quiet
  from quiet_step_ok [OF quiet assms(2-4)] show ?thesis .
qed (auto simp: mesh_ok_noticed noticed_def)

lemma mesh_reach_ok:
  "(mesh_step b q)\<^sup>*\<^sup>* m m' \<Longrightarrow> mesh_ok b sc st sub q m \<Longrightarrow>
   mesh_buffer (iox2_lib b) sub q (\<lambda>_. ()) \<Longrightarrow> quiet_gateway b st q (\<lambda>_. ()) (\<lambda>_ _. ()) \<Longrightarrow> mesh_ok b sc st sub q m'"
  by (induction rule: rtranclp_induct) (auto intro: mesh_step_ok)

section \<open>No lost wake-up\<close>

text \<open>The next page is read, or the merging of it fails.\<close>

definition reads_next :: "('w, 'h) build \<Rightarrow> ('w \<Rightarrow> blob list) \<Rightarrow> ('w, 'h) mesh_state \<Rightarrow> bool" where
  "reads_next b q m \<longleftrightarrow>
     (\<exists>r g1. recv_turn b False False (receiver m) (runtime m) = Some (Returns (r, g1)) \<and>
        (q (world g1) = tl (q (world (runtime m))) \<or> (\<exists>e. r = Inr (Inl e))))"

lemma asking_reads:
  assumes use: "in_use b sc st sub ph (runtime m)" and ph: "ph \<noteq> Asleep" and ask: "receiver m = RecvAsking"
    and mesh: "mesh_buffer (iox2_lib b) sub q (\<lambda>_. ())" and gw: "quiet_gateway b st q (\<lambda>_. ()) (\<lambda>_ _. ())"
    and page: "q (world (runtime m)) = p # ps"
  shows "reads_next b q m"
proof -
  let ?g = "if ph = Woken then drained (runtime m) else runtime m"
  have same: "recv_stream_round b (runtime m) = recv_stream_round b ?g" using use round_woken by auto
  have "in_use b sc st sub Free ?g" using use ph drained_free by (cases ph) auto
  then obtain cells where sub: "iox2_sub cells = Some sub" and rc: "receiving b sc st cells ?g"
    unfolding in_use_receiving by blast
  have page': "q (world ?g) = p # ps" using page by simp
  show ?thesis
  proof (cases "handle_page (overflow_checks b) sc p (merge_allocs cells)")
    case None
    with round_crash [OF rc sub mesh gw page'] same ask show ?thesis
      by (fastforce simp: reads_next_def recv_turn_def)
  next
    case (Some x)
    obtain res allocs where "x = (res, allocs)" by force
    with Some have step: "handle_page (overflow_checks b) sc p (merge_allocs cells) = Some (res, allocs)" by simp
    obtain g1 where "recv_stream_round b ?g =
        Some (Returns (case res of None \<Rightarrow> RoundContinue | Some (m, hs) \<Rightarrow> RoundReturn (Inr m), g1))"
      "q (world g1) = ps"
      using round_page [OF rc sub mesh gw page' step] unfolding after_round_def by auto
    with ask page show ?thesis
      by (simp add: reads_next_def recv_turn_def same del: split_paired_Ex split: option.split prod.split)
  qed
qed

text \<open>One turn of a receiver in use, as a step.\<close>

lemma turn_step:
  "recv_turn b f w (receiver m) (runtime m) = Some (Returns (Inl fut, g)) \<Longrightarrow>
   \<exists>m1. own_step b m m1 \<and> runtime m1 = g \<and> receiver m1 = fut \<and> bell m1 = bell m \<and> owed m1 = owed m"
  by (intro exI [of _ "m\<lparr>runtime := g, receiver := fut\<rparr>"]) (simp add: own_step.turn)

end
