(* ===== verification/Recv_Props.thy ===== *)
theory Recv_Props
  imports Mesh_Wakeup Combined_Props
begin

text \<open>
  Properties of \<open>recv_stream\<close> of the combined runtime and of the mesh around it: no notification is lost
  when both backings are built in, and what goes wrong when only one is.
\<close>

section \<open>A concrete receiver\<close>

text \<open>
  The bus with a gateway none of whose clients sends; the world keeps what the clients are sent. The receiver is
  in use.
\<close>

record relay = bus +
  relayed :: "byte list list"

definition relay_ws :: "(relay, nat) ws_api" where
  "relay_ws = \<lparr>tcp_bind = (\<lambda>_ w. (Inr 20, w)), broadcast_channel = (\<lambda>_ w. ((21, 22), w)),
     spawn_accept_loop = (\<lambda>_ w. w), tx_subscribe = (\<lambda>_ w. (23, w)),
     rx_try_recv = (\<lambda>_ w. (Inl Pending, w)), rx_recv = (\<lambda>_ w. None),
     tx_blocking_send = (\<lambda>_ v w. Some (True, w\<lparr>relayed := relayed w @ [v]\<rparr>))\<rparr>"

definition idle_build :: "(relay, nat) build" where
  "idle_build = \<lparr>has_iox2 = True, has_ws = True, overflow_checks = True, iox2_lib = bus_api,
     ws_lib = relay_ws, clock = (\<lambda>_. 0), sleep_ms = (\<lambda>_ w. w)\<rparr>"

definition idle_statics :: "nat ws_statics" where
  "idle_statics = \<lparr>broadcast_tx = 21, receiving_tx = Some 21, receiving_rx = Some 22\<rparr>"

definition idle_runtime :: "'w \<Rightarrow> ('w, nat) combined" where
  "idle_runtime w = (combined_start 0 w)
     \<lparr>recv_tx := True, recv_actor := Serving full_cells, wait_rx := Some [], wait_stream_locks := [False, False],
      global_should_collect := Some (\<lambda>_. Some True), ws_st := idle_statics\<rparr>"

lemma idle_mesh: "(\<And>w p. x (w\<lparr>published := p\<rparr>) = x w) \<Longrightarrow> mesh_buffer (iox2_lib idle_build) 7 published x"
  by (auto simp: mesh_buffer_def idle_build_def bus_api_def split: list.split)

lemma idle_gateway:
  "(\<And>v w. x (w\<lparr>relayed := relayed w @ [v]\<rparr>) = note v (x w)) \<Longrightarrow>
   quiet_gateway idle_build idle_statics published x note"
  by (simp add: quiet_gateway_def idle_build_def idle_statics_def relay_ws_def) (rule exI [of _ True], simp)

lemma idle_in_use: "in_use idle_build (\<lambda>_. Some True) idle_statics 7 Free (idle_runtime w)"
  by (simp add: in_use_def idle_build_def idle_runtime_def combined_start_def full_cells_eq)

text \<open>A mesh that brings one page each time the receiver waits; the number of pages to come is in the world.\<close>

definition to_come :: "blob list \<Rightarrow> relay \<Rightarrow> blob list" where
  "to_come pages w = drop (length pages - failures w) pages"

definition trickle :: "blob list \<Rightarrow> (relay, nat) surroundings" where
  "trickle pages =
     \<lparr>until_woken = (\<lambda>g. case to_come pages (world g) of
          [] \<Rightarrow> g
        | p # ps \<Rightarrow> wait_ends (Inr ()) (with_world g
            ((world g)\<lparr>published := published (world g) @ [p], failures := length ps\<rparr>))),
      polls_ws_first = (\<lambda>_. False), gateway_news = (\<lambda>_. False)\<rparr>"

lemma trickle_brings: "brings_pages (trickle pages) published (to_come pages) relayed"
proof -
  have "drop (length pages - length ps) pages = ps" if "drop n pages = p # ps" for n p ps
  proof -
    from that have "n < length pages" by (metis drop_all list.distinct(1) not_less)
    moreover from that have "drop (Suc n) pages = ps" by (metis drop_Suc list.sel(3) tl_drop)
    moreover from calculation have "length pages - length ps = Suc n" by auto
    ultimately show ?thesis by simp
  qed
  note rest = this
  show ?thesis
    unfolding brings_pages_def
  proof (intro conjI allI impI)
    show "\<not> gateway_news (trickle pages) w" for w by (simp add: trickle_def)
    fix g :: "(relay, nat) combined"
    assume g: "published (world g) = [] \<and> to_come pages (world g) \<noteq> []"
    then obtain p ps where c: "to_come pages (world g) = p # ps" by (auto simp: neq_Nil_conv)
    let ?w = "(world g)\<lparr>published := [p], failures := length ps\<rparr>"
    from c rest have "to_come pages ?w = ps" by (auto simp: to_come_def)
    with g c show "\<exists>w1. until_woken (trickle pages) g = wait_ends (Inr ()) (with_world g w1) \<and>
        published w1 \<noteq> [] \<and> published w1 @ to_come pages w1 = to_come pages (world g) \<and> relayed w1 = relayed (world g)"
      by (intro exI [of _ ?w]) (simp add: trickle_def)
  qed
qed

text \<open>A receiver to which \<open>pages\<close> will come.\<close>

definition idle_receiver :: "should_collect \<Rightarrow> blob list \<Rightarrow> (relay, nat) combined" where
  "idle_receiver sc pages = (idle_runtime \<lparr>published = [], failures = length pages, relayed = []\<rparr>)
     \<lparr>global_should_collect := Some sc\<rparr>"

lemma trickle_buffer: "mesh_buffer (iox2_lib idle_build) 7 published (\<lambda>w. (to_come pages w, relayed w))"
  by (rule idle_mesh) (simp add: to_come_def)

lemma trickle_gateway:
  "quiet_gateway idle_build idle_statics published (\<lambda>w. (to_come pages w, relayed w)) broadcasting"
  by (rule idle_gateway) (simp add: to_come_def broadcasting_def)

lemma idle_waits: "receiving_tx idle_statics \<noteq> None"
  by (simp add: idle_statics_def)

lemma cells_receive: "iox2_sub full_cells = Some 7" "iox2_liste full_cells \<noteq> None"
  "merge_allocs full_cells = Map.empty"
  by (simp_all add: full_cells_eq)

lemma idle_receives: "receiving idle_build sc idle_statics full_cells (idle_receiver sc pages)"
  "published (world (idle_receiver sc pages)) @ to_come pages (world (idle_receiver sc pages)) = pages"
  "relayed (world (idle_receiver sc pages)) = []"
  by (simp_all add: receiving_def idle_receiver_def idle_build_def idle_runtime_def combined_start_def to_come_def)

lemmas concrete_receiver = trickle_buffer trickle_gateway idle_waits trickle_brings cells_receive idle_receives(1,2)

section \<open>Messages are delivered\<close>

text \<open>
  C28: \<open>recv_stream\<close> returns the message, where both backings are built in and initialised, neither is
  blocked, no partial message is kept, and the gateway has nothing to say meanwhile. The fragments of one wanted payload, in any order, some buffered and
  the others brought in portions while it waits, are read one per round whichever backing has its turn; the
  call returns the payload after exactly these pages and leaves what comes later, the websocket clients are sent
  the message with the trailer, once, and the runtime is ready for the next call.
\<close>

theorem recv_stream_delivers:
  assumes mesh: "mesh_buffer (iox2_lib b) sub q (\<lambda>w. (coming w, out w))"
    and gw: "quiet_gateway b st q (\<lambda>w. (coming w, out w)) broadcasting" "receiving_tx st \<noteq> None"
    and env: "brings_pages env q coming out"
    and rt: "receiving b sc st cells g" "iox2_sub cells = Some sub" "iox2_liste cells \<noteq> None"
      "merge_allocs cells = Map.empty"
    and msg: "fragmentable payload hs" "sc (take hs payload) = Some True"
      "map Some pages = map (nth_fragment payload hs ident) [0..<length (body_chunks payload hs)]"
      "mset ps = mset pages"
    and buffered: "q (world g) @ coming (world g) = ps @ later"
  shows "\<exists>g1. blocking_recv_stream b env g = Some (Returns (Inr payload, g1)) \<and>
    receiving b sc st cells g1 \<and> q (world g1) @ coming (world g1) = later \<and>
    out (world g1) = out (world g) @ [ws_frame payload hs]"
proof -
  have "run_events (handle_page (overflow_checks b) sc) ps (merge_allocs cells) =
      Some (replicate (length ps - 1) None @ [Some (payload, hs)], Map.empty)"
    using fragments_any_order [where sc = sc and ov = "overflow_checks b", OF msg] rt(4) by simp
  moreover have "cells\<lparr>merge_allocs := Map.empty\<rparr> = cells" using rt(4) by simp
  ultimately show ?thesis
    using recv_delivers [OF mesh gw env _ rt(1) buffered rt(2,3)] unfolding blocking_recv_stream_def by metis
qed

theorem recv_stream_delivers_witness:
  "\<exists>g1. blocking_recv_stream idle_build (trickle (rev sample_fragments))
      (idle_receiver (\<lambda>_. Some True) (rev sample_fragments)) = Some (Returns (Inr (replicate 1100 1), g1)) \<and>
    receiving idle_build (\<lambda>_. Some True) idle_statics full_cells g1 \<and>
    published (world g1) @ to_come (rev sample_fragments) (world g1) = [] \<and>
    relayed (world g1) = [] @ [ws_frame (replicate 1100 1) 2]"
proof -
  let ?p = "replicate 1100 (1 :: byte)"
  have f: "fragmentable ?p 2" by (rule fragmentable_long) simp_all
  have n: "length (body_chunks ?p 2) = 2"
    by (simp add: body_chunks_def chunk_size_of_def PRESET_N_def length_chunks)
  have frags: "map Some sample_fragments = map (nth_fragment ?p 2 9) [0..<length (body_chunks ?p 2)]"
    using nth_fragment_eq [OF f, of _ 9] by (auto simp: sample_fragments_def n)
  have "mset (rev sample_fragments) = mset sample_fragments" by simp
  from recv_stream_delivers [OF trickle_buffer trickle_gateway idle_waits trickle_brings
      idle_receives(1) [of _ "rev sample_fragments"] cells_receive f refl frags this, where later = "[]"] idle_receives(2,3) [of "\<lambda>_. Some True" "rev sample_fragments"]
  show ?thesis by simp
qed

section \<open>No lost wake-up\<close>

lemma wake_reads:
  assumes use: "in_use b sc st sub Woken (runtime m)" and fut: "receiver m \<noteq> RecvRegistering"
    and mesh: "mesh_buffer (iox2_lib b) sub q (\<lambda>_. ())" and gw: "quiet_gateway b st q (\<lambda>_. ()) (\<lambda>_ _. ())"
    and page: "q (world (runtime m)) = p # ps"
  shows "\<exists>m1. (own_step b)\<^sup>*\<^sup>* m m1 \<and> q (world (runtime m1)) = p # ps \<and> reads_next b q m1"
proof (cases "receiver m")
  case RecvAsking
  with asking_reads [OF use _ _ mesh gw page] page show ?thesis by auto
next
  case RecvWaiting
  obtain pl g where poll: "wait_poll b False False (runtime m) = (pl, g)" by force
  note w = waiting_turn [OF use _ poll]
  then obtain ph where pl: "pl = PollReady (Inr ())" and ph: "ph \<noteq> Asleep" "in_use b sc st sub ph g"
    and g: "world g = world (runtime m)"
    by auto
  from RecvWaiting poll pl have "recv_turn b False False (receiver m) (runtime m) = Some (Returns (Inl RecvAsking, g))"
    by (simp add: recv_turn_def)
  from turn_step [OF this] obtain m1 where m1: "own_step b m m1" "runtime m1 = g" "receiver m1 = RecvAsking" by blast
  with asking_reads [of b sc st sub ph m1 q p ps] ph mesh gw page g show ?thesis by auto
qed (use fut in simp)

lemma own_wakes:
  assumes "in_use b sc st sub Asleep (runtime m)" and "bell m"
  shows "\<exists>m1. own_step b m m1 \<and> in_use b sc st sub Woken (runtime m1) \<and> receiver m1 = receiver m \<and>
    world (runtime m1) = world (runtime m)"
proof -
  from assms(1) obtain cells qs where "recv_actor (runtime m) = WaitingEvent cells qs" by (auto simp: in_use_def)
  from own_step.wake [OF this assms(2)] wait_ends_woken [OF assms(1)] show ?thesis by fastforce
qed

text \<open>
  C7: No lost wake-up: with both backings built in, from a runtime in use on and under any interleaving of
  senders, notifications (coalesced ones included) and \<open>recv_stream\<close>, whenever a page is buffered and no
  sender owes a notification, the receiving process can go on by itself, waiting included, until it reads it.
\<close>

theorem no_lost_wakeup:
  assumes mesh: "mesh_buffer (iox2_lib b) sub q (\<lambda>_. ())" and gw: "quiet_gateway b st q (\<lambda>_. ()) (\<lambda>_ _. ())"
    and start: "in_use b sc st sub Free (runtime m0)" "receiver m0 = RecvAsking"
    and run: "(mesh_step b q)\<^sup>*\<^sup>* m0 m" and page: "q (world (runtime m)) \<noteq> []" and told: "owed m = 0"
  shows "\<exists>m1. (own_step b)\<^sup>*\<^sup>* m m1 \<and> q (world (runtime m1)) = q (world (runtime m)) \<and> reads_next b q m1"
proof -
  have "mesh_ok b sc st sub q m0" using start by (auto simp: mesh_ok_noticed noticed_def)
  from mesh_reach_ok [OF run this mesh gw] obtain ph where use: "in_use b sc st sub ph (runtime m)"
    and fut: "receiver m = RecvWaiting \<Longrightarrow> ph \<noteq> Free"
    and bell: "ph = Asleep \<or> ph = Free \<and> receiver m = RecvRegistering \<Longrightarrow> bell m"
    using page told by (auto simp: mesh_ok_def)
  obtain p ps where q: "q (world (runtime m)) = p # ps" using page by (cases "q (world (runtime m))") auto
  note reads = wake_reads [OF _ _ mesh gw, of sc]
  have awake: "\<exists>m1. (own_step b)\<^sup>*\<^sup>* m' m1 \<and> q (world (runtime m1)) = p # ps \<and> reads_next b q m1"
    if "in_use b sc st sub ph' (runtime m')" "ph' \<noteq> Free" "ph' = Asleep \<longrightarrow> bell m'" "receiver m' \<noteq> RecvRegistering"
      "q (world (runtime m')) = p # ps" for m' ph'
  proof (cases ph')
    case Asleep
    with that own_wakes [of b sc st sub m'] obtain m1 where "own_step b m' m1" "in_use b sc st sub Woken (runtime m1)"
      "receiver m1 = receiver m'" "world (runtime m1) = world (runtime m')" by blast
    with reads [of m1 p ps] that show ?thesis by (metis converse_rtranclp_into_rtranclp)
  qed (use that reads in auto)
  show ?thesis
  proof (cases "receiver m")
    case RecvAsking
    show ?thesis
    proof (cases "ph = Free")
      case True
      with asking_reads [OF use _ RecvAsking mesh gw q] show ?thesis by auto
    qed (use awake [OF use _ _ _ q] RecvAsking bell q in auto)
  next
    case RecvRegistering
    from registering_turn [OF use] obtain g where reg: "wait_register b (runtime m) = (Inr (), g)"
      "in_use b sc st sub (if ph = Free then Asleep else ph) g" "world g = world (runtime m)"
      by blast
    with RecvRegistering have "recv_turn b False False (receiver m) (runtime m) = Some (Returns (Inl RecvWaiting, g))"
      by (simp add: recv_turn_def)
    from turn_step [OF this] obtain m1 where m1: "own_step b m m1" "runtime m1 = g" "receiver m1 = RecvWaiting"
      "bell m1 = bell m" by blast
    let ?ph = "if ph = Free then Asleep else ph"
    have "?ph \<noteq> Free" "?ph = Asleep \<longrightarrow> bell m1" using bell RecvRegistering m1(4) by auto
    from awake [OF _ this] m1 reg q obtain m2 where
      "(own_step b)\<^sup>*\<^sup>* m1 m2" "q (world (runtime m2)) = p # ps" "reads_next b q m2"
      by auto
    with m1(1) q show ?thesis by (metis converse_rtranclp_into_rtranclp)
  qed (use awake [OF use _ _ _ q] fut bell q in auto)
qed

definition asking_state :: "'w \<Rightarrow> ('w, nat) mesh_state" where
  "asking_state w = \<lparr>runtime = idle_runtime w, receiver = RecvAsking, bell = False, owed = 0\<rparr>"

definition empty_relay :: relay where
  "empty_relay = \<lparr>published = [], failures = 0, relayed = []\<rparr>"

definition empty_bus :: bus where
  "empty_bus = \<lparr>published = [], failures = 0\<rparr>"

text \<open>A page and its notification.\<close>

lemma bus_page:
  assumes "owed m = 0"
  shows "(mesh_step b published)\<^sup>*\<^sup>* m
    (m\<lparr>runtime := with_world (runtime m) ((world (runtime m))\<lparr>published := published (world (runtime m)) @ [p]\<rparr>),
      bell := True, owed := 0\<rparr>)"
proof -
  let ?m1 = "m\<lparr>runtime := with_world (runtime m) ((world (runtime m))\<lparr>published := published (world (runtime m)) @ [p]\<rparr>),
      owed := Suc (owed m)\<rparr>"
  have "mesh_step b published m ?m1" by (rule mesh_step.page) simp
  moreover have "mesh_step b published ?m1 (?m1\<lparr>bell := True, owed := 0\<rparr>)"
    using assms by (intro mesh_step.ring) simp
  ultimately show ?thesis using assms by (auto intro: converse_rtranclp_into_rtranclp)
qed

theorem no_lost_wakeup_witness:
  "\<exists>m m1. (mesh_step idle_build published)\<^sup>*\<^sup>* (asking_state empty_relay) m \<and> published (world (runtime m)) = [[9]] \<and>
     (own_step idle_build)\<^sup>*\<^sup>* m m1 \<and> published (world (runtime m1)) = [[9]] \<and> reads_next idle_build published m1"
proof -
  obtain m where m: "(mesh_step idle_build published)\<^sup>*\<^sup>* (asking_state empty_relay) m" "published (world (runtime m)) = [[9]]"
    "owed m = 0"
    using bus_page [of "asking_state empty_relay" idle_build "[9]"]
    by (auto simp: asking_state_def idle_runtime_def combined_start_def with_world_def empty_relay_def)
  have "in_use idle_build (\<lambda>_. Some True) idle_statics 7 Free (runtime (asking_state empty_relay))"
    by (simp add: asking_state_def idle_in_use)
  from no_lost_wakeup [OF idle_mesh idle_gateway this _ m(1)] m(2,3)
  have "\<exists>m1. (own_step idle_build)\<^sup>*\<^sup>* m m1 \<and> published (world (runtime m1)) = [[9]] \<and> reads_next idle_build published m1"
    by (simp add: asking_state_def)
  with m show ?thesis by blast
qed

section \<open>A build without the gateway\<close>

text \<open>
  The receiver once it has asked in the gateway's turn: it waits, with pages in the buffer or not, until a
  notification comes.
\<close>

definition asleep_alone ::
  "('w, 'h) build \<Rightarrow> ('w \<Rightarrow> blob list) \<Rightarrow> blob list \<Rightarrow> ('w, 'h) mesh_state \<Rightarrow> bool" where
  "asleep_alone b q pages m \<longleftrightarrow>
     receiver m = RecvWaiting \<and> \<not> bell m \<and> wait_rx (runtime m) = Some [] \<and> recv_actor (runtime m) \<noteq> Gone \<and>
     q (world (runtime m)) = pages"

lemma asleep_alone_quiet:
  assumes "has_iox2 b" and "\<not> has_ws b" and "asleep_alone b q pages m" and "quiet_step b q m m'"
  shows "asleep_alone b q pages m'"
  using assms(4)
proof (cases rule: quiet_step.cases)
  case own
  then show ?thesis
    using assms(1-3)
    by (cases rule: own_step.cases)
      (auto simp: asleep_alone_def recv_turn_def wait_poll_def receive_results_def split: actor.splits)
qed (use assms(3) in \<open>simp add: asleep_alone_def with_world_def\<close>)

lemma asleep_alone_run:
  "(quiet_step b q)\<^sup>*\<^sup>* m m' \<Longrightarrow> has_iox2 b \<Longrightarrow> \<not> has_ws b \<Longrightarrow> asleep_alone b q pages m \<Longrightarrow>
   asleep_alone b q pages m'"
  by (induction rule: rtranclp_induct) (auto intro: asleep_alone_quiet)

text \<open>
  C11: Without the gateway (the default of the C interface) a page can be left lying. The turn still passes to
  the gateway, after 10 ms or when the mesh was empty; asked in that turn, \<open>recv_stream\<close> does not look at the
  mesh, waits, and goes on waiting with the pages in the buffer until another message happens to be sent,
  whatever time passes.
\<close>

theorem missing_gateway_strands_pages:
  assumes build: "has_iox2 b" "\<not> has_ws b"
    and actor: "recv_actor (runtime m) = Serving cells" "recv_tx (runtime m)" "iox2_liste cells = Some l"
    and waits: "wait_stream_locks (runtime m) = [False, False]" "wait_rx (runtime m) = Some []" "\<not> bell m"
    and ask: "receiver m = RecvAsking" and turn: "choose_backing b (runtime m) = Some g" "fst (current_backing g) = WsGateway"
  shows "\<exists>m1. (own_step b)\<^sup>*\<^sup>* m m1 \<and>
    (\<forall>m2. (quiet_step b q)\<^sup>*\<^sup>* m1 m2 \<longrightarrow>
       receiver m2 = RecvWaiting \<and> q (world (runtime m2)) = q (world (runtime m)))"
proof -
  note k = choose_keeps [OF turn(1)]
  have g: "recv_actor g = Serving cells" "recv_tx g" 
    using turn(1) actor by (auto simp: choose_backing_def enter_backing_def split: prod.splits if_splits)
  have "wait_stream_drain False g = (Inr (), g)" using k waits by (simp add: wait_stream_drain_def)
  then have "recv_stream_round b (runtime m) = Some (Returns (RoundAwait, g))"
    using k waits turn build
    by (simp add: recv_stream_round_def combined_try_recv_stream_def numeral_2_eq_2 bit_at_def backing_index_def)
  then have "recv_turn b False False (receiver m) (runtime m) = Some (Returns (Inl RecvRegistering, g))"
    using ask by (simp add: recv_turn_def)
  from turn_step [OF this] obtain m1 where m1: "own_step b m m1" "runtime m1 = g" "receiver m1 = RecvRegistering"
    "\<not> bell m1" using waits by auto
  let ?g = "g\<lparr>recv_actor := WaitingEvent cells [], wait_stream_locks := [True, False]\<rparr>"
  have "recv_turn b False False (receiver m1) (runtime m1) = Some (Returns (Inl RecvWaiting, ?g))"
    using m1 g k waits actor(3) build
    by (simp add: recv_turn_def wait_register_def send_wait_stream_def start_wait_def backing_index_def)
  from turn_step [OF this] obtain m2 where m2: "own_step b m1 m2" "runtime m2 = ?g" "receiver m2 = RecvWaiting"
    "\<not> bell m2" using m1 by auto
  have "asleep_alone b q (q (world (runtime m))) m2" using m2 k waits by (simp add: asleep_alone_def)
  from asleep_alone_run [OF _ build this] m1(1) m2(1) show ?thesis
    by (intro exI [of _ m2]) (auto simp: asleep_alone_def intro: converse_rtranclp_into_rtranclp)
qed

text \<open>
  It happens from the start: the receiver finds the mesh empty and waits, a page comes with its notification
  within 10 ms and wakes it, and it goes back to waiting without having read it.
\<close>

lemma stranded_start:
  "\<exists>m. (mesh_step (bus_build False) published)\<^sup>*\<^sup>* (asking_state empty_bus) m \<and> \<not> bell m \<and> receiver m = RecvAsking \<and>
     recv_actor (runtime m) = Serving full_cells \<and> recv_tx (runtime m) \<and>
     wait_stream_locks (runtime m) = [False, False] \<and> wait_rx (runtime m) = Some [] \<and>
     choose_backing (bus_build False) (runtime m) = Some (runtime m) \<and>
     fst (current_backing (runtime m)) = WsGateway \<and> published (world (runtime m)) = [[9]]"
proof -
  let ?b = "bus_build False"
  note defs = asking_state_def idle_runtime_def combined_start_def bus_build_def empty_bus_def
  let ?g = "(idle_runtime empty_bus)\<lparr>current_backing := (WsGateway, 0)\<rparr>"
  have "recv_turn ?b False False RecvAsking (idle_runtime empty_bus) = Some (Returns (Inl RecvRegistering, ?g))"
    by (simp add: defs recv_turn_def recv_stream_round_def combined_try_recv_stream_def choose_backing_def
        enter_backing_def wait_stream_drain_def numeral_2_eq_2 bit_at_def backing_index_def query_backing_def
        actor_call_def iox2_try_recv_stream_def recv_page_def bus_api_def full_cells_eq)
  with turn_step [of ?b False False "asking_state empty_bus" RecvRegistering ?g] obtain m1 where m1:
    "own_step ?b (asking_state empty_bus) m1" "runtime m1 = ?g" "receiver m1 = RecvRegistering" "\<not> bell m1" "owed m1 = 0"
    by (auto simp: asking_state_def)
  let ?g2 = "?g\<lparr>recv_actor := WaitingEvent full_cells [], wait_stream_locks := [True, False]\<rparr>"
  have "recv_turn ?b False False (receiver m1) (runtime m1) = Some (Returns (Inl RecvWaiting, ?g2))"
    using m1 by (simp add: defs recv_turn_def wait_register_def send_wait_stream_def start_wait_def
        backing_index_def full_cells_eq)
  from turn_step [OF this] obtain m2 where m2: "own_step ?b m1 m2" "runtime m2 = ?g2" "receiver m2 = RecvWaiting"
    "owed m2 = 0" using m1 by auto
  let ?g3 = "?g2\<lparr>world := \<lparr>published = [[9]], failures = 0\<rparr>\<rparr>"
  from bus_page [of m2 ?b "[9]"] m2 obtain m3 where m3: "(mesh_step ?b published)\<^sup>*\<^sup>* m2 m3" "runtime m3 = ?g3"
    "receiver m3 = RecvWaiting" "bell m3" by (auto simp: with_world_def defs)
  let ?m4 = "m3\<lparr>runtime := wait_ends (Inr ()) (runtime m3), bell := False\<rparr>"
  have m4: "own_step ?b m3 ?m4" using m3 by (intro own_step.wake) simp_all
  let ?g5 = "?g\<lparr>world := \<lparr>published = [[9]], failures = 0\<rparr>\<rparr>"
  have "recv_turn ?b False False (receiver ?m4) (runtime ?m4) = Some (Returns (Inl RecvAsking, ?g5))"
    using m3 by (simp add: defs recv_turn_def wait_poll_def receive_results_def wait_ends_def post_result_def
        handle_wait_stream_return_def backing_index_def)
  from turn_step [OF this] obtain m5 where m5: "own_step ?b ?m4 m5" "runtime m5 = ?g5" "receiver m5 = RecvAsking"
    "\<not> bell m5" by auto
  have own: "own_step ?b x y \<Longrightarrow> (mesh_step ?b published)\<^sup>*\<^sup>* x y" for x y
    by (intro r_into_rtranclp mesh_step.quiet quiet_step.own)
  have "(mesh_step ?b published)\<^sup>*\<^sup>* (asking_state empty_bus) m5"
    using own [OF m1(1)] own [OF m2(1)] m3(1) own [OF m4] own [OF m5(1)] by (meson rtranclp_trans)
  with m5 show ?thesis by (intro exI [of _ m5]) (simp add: defs choose_backing_def)
qed

theorem missing_gateway_strands_pages_witness:
  "\<exists>m m1. (mesh_step (bus_build False) published)\<^sup>*\<^sup>* (asking_state empty_bus) m \<and> published (world (runtime m)) = [[9]] \<and>
     (own_step (bus_build False))\<^sup>*\<^sup>* m m1 \<and>
     (\<forall>m2. (quiet_step (bus_build False) published)\<^sup>*\<^sup>* m1 m2 \<longrightarrow>
        receiver m2 = RecvWaiting \<and> published (world (runtime m2)) = [[9]])"
proof -
  from stranded_start obtain m where m: "(mesh_step (bus_build False) published)\<^sup>*\<^sup>* (asking_state empty_bus) m"
    "\<not> bell m" "receiver m = RecvAsking" "recv_actor (runtime m) = Serving full_cells" "recv_tx (runtime m)"
    "wait_stream_locks (runtime m) = [False, False]" "wait_rx (runtime m) = Some []"
    "choose_backing (bus_build False) (runtime m) = Some (runtime m)"
    "fst (current_backing (runtime m)) = WsGateway" "published (world (runtime m)) = [[9]]"
    by blast
  from missing_gateway_strands_pages [where q = published, OF _ _ m(4,5) _ m(6,7,2,3,8,9)] m(1,10)
  show ?thesis by (auto simp: bus_build_def full_cells_eq)
qed

end
