(* ===== verification/End_To_End.thy ===== *)
theory End_To_End
  imports Tokio_Props Recv_Props
begin

text \<open>
  From \<open>send_stream\<close> of one process to a consumer in another: the tokio layer, the sending actor, the
  pages on the mesh, the receiver's merging, the receiver task and the queue together.
\<close>

section \<open>Senders and receivers\<close>

text \<open>
  Payloads (with the sizes of their headers) that \<open>send_stream\<close> takes and about which the callback of the
  receiver does not panic; \<open>wanted\<close> ones it collects.
\<close>

definition sendable :: "(byte list \<Rightarrow> bool option) \<Rightarrow> byte list \<times> nat \<Rightarrow> bool" where
  "sendable sc m \<longleftrightarrow>
     (case m of (payload, hs) \<Rightarrow>
        hs \<le> length payload \<and> (length payload \<le> 1000 \<or> hs < 992) \<and> length payload < 2 ^ 32 \<and>
        sc (take hs payload) \<noteq> None)"

definition wanted :: "(byte list \<Rightarrow> bool option) \<Rightarrow> byte list \<times> nat \<Rightarrow> bool" where
  "wanted sc m \<longleftrightarrow> (case m of (payload, hs) \<Rightarrow> sc (take hs payload) = Some True)"

fun send_all ::
  "('w, 'h) build \<Rightarrow> (byte list \<times> nat) list \<Rightarrow> ('w, 'h) combined \<Rightarrow> ('w, 'h) combined outcome option" where
  "send_all b [] g = Some (Returns g)"
| "send_all b ((payload, hs) # ms) g =
     (case tokio_send_stream b payload hs g of
        Some (Returns g1) \<Rightarrow> send_all b ms g1
      | r \<Rightarrow> r)"

text \<open>\<open>n\<close> calls of \<open>recv_stream\<close> on the receiving side, with their results in order.\<close>

fun receive_all ::
  "('w, 'h) build \<Rightarrow> ('w, 'h) surroundings \<Rightarrow> nat \<Rightarrow> ('w, 'h) combined \<Rightarrow>
     ((combined_ipc_error + byte list) list \<times> ('w, 'h) combined) outcome option" where
  "receive_all b env 0 g = Some (Returns ([], g))"
| "receive_all b env (Suc n) g =
     (case blocking_recv_stream b env g of
        None \<Rightarrow> None
      | Some Panics \<Rightarrow> Some Panics
      | Some (Returns (r, g1)) \<Rightarrow>
          (case receive_all b env n g1 of
             None \<Rightarrow> None
           | Some Panics \<Rightarrow> Some Panics
           | Some (Returns (rs, g2)) \<Rightarrow> Some (Returns (r # rs, g2))))"

text \<open>
  The pages \<open>ps\<close> make a receiver without unfinished merges complete exactly \<open>m\<close>, if it wants it, and nothing
  otherwise.
\<close>

definition completes ::
  "bool \<Rightarrow> (byte list \<Rightarrow> bool option) \<Rightarrow> blob list \<Rightarrow> byte list \<times> nat \<Rightarrow> bool" where
  "completes ov sc ps m \<longleftrightarrow>
     run_events (handle_page ov sc) ps Map.empty =
       Some (if wanted sc m then replicate (length ps - 1) None @ [Some m] else replicate (length ps) None, Map.empty)"

lemma tokio_sends:
  assumes mesh: "lossless (iox2_lib b) cells log (\<lambda>_. 0)" "\<And>w. draw_identification (iox2_lib b) w \<noteq> None"
    and sender: "has_iox2 b" "send_tx g" "send_actor g = Serving cells" and m: "sendable sc (payload, hs)"
  obtains g1 pages where "tokio_send_stream b payload hs g = Some (Returns g1)"
    "log (world g1) = log (world g) @ pages" "completes ov sc pages (payload, hs)"
    "send_tx g1" "send_actor g1 = Serving cells"
proof -
  from m have ok: "hs \<le> length payload" "length payload \<le> 1000 \<or> hs < 992" "length payload < 2 ^ 32"
    and sc: "sc (take hs payload) \<noteq> None"
    by (simp_all add: sendable_def)
  from sent_pages [where w = "world g" and trouble = "\<lambda>_. 0", OF mesh(1) ok refl mesh(2)]
  obtain w' pages where
    sent: "iox2_send_stream (iox2_lib b) cells payload hs (world g) = Some (Returns (Inr (), w'))"
    and pages: "log w' = log (world g) @ pages" "pages_of payload hs pages"
    by blast
  have "completes ov sc pages (payload, hs)"
    using pages_complete [where sc = sc and ov = ov, OF pages(2) ok _ refl]
      pages_ignored [where sc = sc and ov = ov and allocs = Map.empty, OF pages(2) ok] sc
    by (cases "sc (take hs payload)") (auto simp: completes_def wanted_def)
  moreover have "tokio_send_stream b payload hs g = Some (Returns (g\<lparr>send_actor := Serving cells, world := w'\<rparr>))"
    using sender sent by (simp add: tokio_send_step [of b payload hs g] combined_send_stream_def actor_call_def)
  ultimately show thesis using pages(1) sender
    by (intro that [of "g\<lparr>send_actor := Serving cells, world := w'\<rparr>" pages]) auto
qed

lemma send_all_pages:
  assumes mesh: "lossless (iox2_lib b) cells log (\<lambda>_. 0)" "\<And>w. draw_identification (iox2_lib b) w \<noteq> None"
    and sender: "has_iox2 b"
  shows "send_tx g \<Longrightarrow> send_actor g = Serving cells \<Longrightarrow> list_all (sendable sc) msgs \<Longrightarrow>
    \<exists>g1 pss. send_all b msgs g = Some (Returns g1) \<and> log (world g1) = log (world g) @ concat pss \<and>
      list_all2 (completes ov sc) pss msgs"
proof (induction msgs arbitrary: g)
  case Nil
  then show ?case by (intro exI [of _ g] exI [of _ "[]"]) simp
next
  case (Cons m msgs)
  obtain payload hs where m: "m = (payload, hs)" by (cases m)
  with Cons.prems have ok: "sendable sc (payload, hs)" by simp
  obtain g1 pages where g1: "tokio_send_stream b payload hs g = Some (Returns g1)"
    "log (world g1) = log (world g) @ pages" "completes ov sc pages (payload, hs)"
    "send_tx g1" "send_actor g1 = Serving cells"
    by (rule tokio_sends [OF mesh sender Cons.prems(1,2) ok])
  from Cons.IH [OF g1(4,5)] Cons.prems(3) obtain g2 pss where
    "send_all b msgs g1 = Some (Returns g2)" "log (world g2) = log (world g1) @ concat pss"
    "list_all2 (completes ov sc) pss msgs"
    by auto
  with g1(1-3) m show ?case by (intro exI [of _ g2] exI [of _ "pages # pss"]) simp
qed

lemma receive_all_pages:
  assumes mesh: "mesh_buffer (iox2_lib b) sub q (\<lambda>w. (coming w, out w))"
    and gw: "quiet_gateway b st q (\<lambda>w. (coming w, out w)) broadcasting" "receiving_tx st \<noteq> None"
    and env: "brings_pages env q coming out"
    and ports: "iox2_sub cells = Some sub" "iox2_liste cells \<noteq> None" and fresh: "merge_allocs cells = Map.empty"
  shows "list_all2 (completes (overflow_checks b) sc) pss msgs \<Longrightarrow> receiving b sc st cells g \<Longrightarrow>
    run_events (handle_page (overflow_checks b) sc) us Map.empty = Some (replicate (length us) None, Map.empty) \<Longrightarrow>
    q (world g) @ coming (world g) = us @ concat pss \<Longrightarrow>
    \<exists>g1. receive_all b env (length (filter (wanted sc) msgs)) g =
      Some (Returns (map (Inr \<circ> fst) (filter (wanted sc) msgs), g1)) \<and>
      out (world g1) = out (world g) @ map (case_prod ws_frame) (filter (wanted sc) msgs)"
proof (induction pss msgs arbitrary: us g rule: list_all2_induct)
  case (Cons ps pss m msgs)
  obtain payload hs where m: "m = (payload, hs)" by (cases m)
  show ?case
  proof (cases "wanted sc m")
    case True
    then have run: "run_events (handle_page (overflow_checks b) sc) (us @ ps) (merge_allocs cells) =
        Some (replicate (length us + (length ps - 1)) None @ [Some (payload, hs)], Map.empty)"
      using Cons.hyps(1) Cons.prems(2) m fresh by (simp add: completes_def run_events_append replicate_add)
    have "q (world g) @ coming (world g) = (us @ ps) @ concat pss" using Cons.prems(3) by simp
    from recv_delivers [OF mesh gw env run Cons.prems(1) this ports] obtain g1 where
      g1: "blocking_recv_stream b env g = Some (Returns (Inr payload, g1))"
        "receiving b sc st (cells\<lparr>merge_allocs := Map.empty\<rparr>) g1" "q (world g1) @ coming (world g1) = [] @ concat pss"
        "out (world g1) = out (world g) @ [ws_frame payload hs]"
      unfolding blocking_recv_stream_def by auto
    moreover have "cells\<lparr>merge_allocs := Map.empty\<rparr> = cells" using fresh by simp
    ultimately have "receiving b sc st cells g1" by simp
    from Cons.IH [OF this _ g1(3)] g1(1,4) m True show ?thesis by auto
  next
    case False
    then have "run_events (handle_page (overflow_checks b) sc) (us @ ps) Map.empty =
        Some (replicate (length (us @ ps)) None, Map.empty)"
      using Cons.hyps(1) Cons.prems(2) by (simp add: completes_def run_events_append replicate_add)
    from Cons.IH [OF Cons.prems(1) this] Cons.prems(3) False show ?thesis by simp
  qed
qed simp

section \<open>End to end\<close>

lemma received_all: "received_payloads (map Inr ps) = ps" "list_all receivable (map Inr ps)"
  by (induction ps) (simp_all add: received_payloads_def receivable_def)

lemma sent_is_received:
  assumes "lossless (iox2_lib b) cells log (\<lambda>_. 0)" and "\<And>w. draw_identification (iox2_lib b) w \<noteq> None"
    and "has_iox2 b" and "send_tx g" and "send_actor g = Serving cells"
    and "list_all (sendable sc) msgs"
    and "\<And>pages. mesh_buffer (iox2_lib rb) sub q (\<lambda>w. (coming pages w, out w))"
    and "\<And>pages. quiet_gateway rb st q (\<lambda>w. (coming pages w, out w)) broadcasting" and "receiving_tx st \<noteq> None"
    and "\<And>pages. brings_pages (env pages) q (coming pages) out"
    and "iox2_sub rcells = Some sub" and "iox2_liste rcells \<noteq> None" and "merge_allocs rcells = Map.empty"
    and "\<And>pages. receiving rb sc st rcells (rg pages)"
    and "\<And>pages. q (world (rg pages)) @ coming pages (world (rg pages)) = pages"
  shows "\<exists>g1 pages results rg1 y1. send_all b msgs g = Some (Returns g1) \<and>
    log (world g1) = log (world g) @ pages \<and>
    receive_all rb (env pages) (length (filter (wanted sc) msgs)) (rg pages) = Some (Returns (results, rg1)) \<and>
    out (world rg1) = out (world (rg pages)) @ map (case_prod ws_frame) (filter (wanted sc) msgs) \<and>
    receiver_task results
      (sy_queue (one_consumer ad i), sy_store (one_consumer ad i)) = Some (Returns (sy_queue y1, sy_store y1)) \<and>
    sy_consumers y1 = sy_consumers (one_consumer ad i) \<and>
    map_option fst (run_events sys_step (replicate (length (filter (wanted sc) msgs) + 1) (TryNext 0)) y1) =
      Some (map (\<lambda>m. Delivered 0 (Some (fst m))) (filter (wanted sc) msgs) @ [Nothing 0])"
proof -
  let ?ps = "map fst (filter (wanted sc) msgs)"
  obtain g1 pss where sent: "send_all b msgs g = Some (Returns g1)" "log (world g1) = log (world g) @ concat pss"
    and pss: "list_all2 (completes (overflow_checks rb) sc) pss msgs"
    using send_all_pages [OF assms(1-6)] by blast
  have "q (world (rg (concat pss))) @ coming (concat pss) (world (rg (concat pss))) = [] @ concat pss"
    using assms(15) by simp
  from receive_all_pages [OF assms(7-13) pss assms(14) _ this] obtain rg1 where
    received: "receive_all rb (env (concat pss)) (length (filter (wanted sc) msgs)) (rg (concat pss)) =
      Some (Returns (map Inr ?ps, rg1))"
      "out (world rg1) = out (world (rg (concat pss))) @ map (case_prod ws_frame) (filter (wanted sc) msgs)"
    by auto
  from mesh_delivers [OF received_all(2) [of ?ps], of ad i] obtain y1 where
    "receiver_task (map Inr ?ps) (sy_queue (one_consumer ad i), sy_store (one_consumer ad i)) =
       Some (Returns (sy_queue y1, sy_store y1))"
    "sy_consumers y1 = sy_consumers (one_consumer ad i)"
    "map_option fst (run_events sys_step (replicate (length (filter (wanted sc) msgs) + 1) (TryNext 0)) y1) =
      Some (map (\<lambda>p. Delivered 0 (Some p)) ?ps @ [Nothing 0])"
    unfolding received_all(1) by auto
  with sent received show ?thesis
    by (intro exI [of _ g1] exI [of _ "concat pss"] exI [of _ "map Inr ?ps"] exI [of _ rg1] exI [of _ y1])
      (simp add: comp_def)
qed

text \<open>
  C6: What one process sends, a consumer of another receives: every payload the receiver wants once, unchanged
  and in order, and none of the others. The sender calls \<open>send_stream\<close> of the tokio layer for each message; the pages that this
  published reach the receiver in the order of publication, some already buffered, the others while it waits,
  in portions of any size; as many calls of \<open>recv_stream\<close> of the combined runtime, scheduler, gateway and
  waits included, return the payloads; the websocket clients of the receiver are sent exactly these messages
  with their trailers; the receiver task pushes them; and a consumer taken with
  \<open>iter_stream\<close> before gets them in the order they were sent, and then nothing. What is relied on of
  iceoryx2: a page that is sent is published (\<open>lossless\<close>, without failing attempts), the random
  generator gives a number other than \<open>0\<close>, the subscriber's buffer is a FIFO (\<open>mesh_buffer\<close>), and a
  waiting listener is woken when pages come (\<open>brings_pages\<close>). No websocket client sends meanwhile.
\<close>

theorem end_to_end:
  assumes "lossless (iox2_lib b) cells log (\<lambda>_. 0)" and "\<And>w. draw_identification (iox2_lib b) w \<noteq> None"
    and "has_iox2 b" and "send_tx g" and "send_actor g = Serving cells"
    and "list_all (sendable sc) msgs"
    and "\<And>pages. mesh_buffer (iox2_lib rb) sub q (\<lambda>w. (coming pages w, out w))"
    and "\<And>pages. quiet_gateway rb st q (\<lambda>w. (coming pages w, out w)) broadcasting" and "receiving_tx st \<noteq> None"
    and "\<And>pages. brings_pages (env pages) q (coming pages) out"
    and "iox2_sub rcells = Some sub" and "iox2_liste rcells \<noteq> None" and "merge_allocs rcells = Map.empty"
    and "\<And>pages. receiving rb sc st rcells (rg pages)"
    and "\<And>pages. q (world (rg pages)) @ coming pages (world (rg pages)) = pages"
  shows "\<exists>g1 pages results rg1 y1. send_all b msgs g = Some (Returns g1) \<and>
    log (world g1) = log (world g) @ pages \<and>
    receive_all rb (env pages) (length (filter (wanted sc) msgs)) (rg pages) = Some (Returns (results, rg1)) \<and>
    out (world rg1) = out (world (rg pages)) @ map (case_prod ws_frame) (filter (wanted sc) msgs) \<and>
    receiver_task results
      (sy_queue (one_consumer ad i), sy_store (one_consumer ad i)) = Some (Returns (sy_queue y1, sy_store y1)) \<and>
    sy_consumers y1 = sy_consumers (one_consumer ad i) \<and>
    map_option fst (run_events sys_step (replicate (length (filter (wanted sc) msgs) + 1) (TryNext 0)) y1) =
      Some (map (\<lambda>m. Delivered 0 (Some (fst m))) (filter (wanted sc) msgs) @ [Nothing 0])"
  by (rule sent_is_received [OF assms])

section \<open>A concrete sender and receiver\<close>

definition calm_build :: "(bus, nat) build" where
  "calm_build = (bus_build True)\<lparr>iox2_lib := bus_api\<lparr>loan_uninit := (\<lambda>_ w. (Inr 8, w))\<rparr>\<rparr>"

definition calm_sender :: "(bus, nat) combined" where
  "calm_sender = waiting_runtime
     \<lparr>send_tx := True, send_actor := Serving full_cells, world := \<lparr>published = [], failures = 0\<rparr>\<rparr>"

lemma calm_mesh: "lossless (iox2_lib calm_build) full_cells published (\<lambda>_. 0)"
  by (auto simp: calm_build_def lossless_def full_cells_eq bus_api_def send_page_def node_pause_def notify_def)

lemma calm_draw: "draw_identification (iox2_lib calm_build) w \<noteq> None"
  by (simp add: draw_identification.simps bus_api_def calm_build_def)

lemma calm_sends: "has_iox2 calm_build" "send_tx calm_sender" "send_actor calm_sender = Serving full_cells"
  "published (world calm_sender) = []"
  by (simp_all add: calm_build_def bus_build_def calm_sender_def)

lemmas concrete_run = calm_mesh calm_draw calm_sends(1-3)

definition sample_messages :: "(byte list \<times> nat) list" where
  "sample_messages = [([5, 6], 1), ([], 0), (replicate 1100 3, 2)]"

definition sample_collect :: should_collect where
  "sample_collect header = Some (header \<noteq> [])"

theorem end_to_end_witness:
  "\<exists>g1 pages results rg1 y1. send_all calm_build sample_messages calm_sender = Some (Returns g1) \<and>
    published (world g1) = [] @ pages \<and>
    receive_all idle_build (trickle pages) 2 (idle_receiver sample_collect pages) = Some (Returns (results, rg1)) \<and>
    relayed (world rg1) = [ws_frame [5, 6] 1, ws_frame (replicate 1100 3) 2] \<and>
    receiver_task results
      (sy_queue (one_consumer True 7), sy_store (one_consumer True 7)) = Some (Returns (sy_queue y1, sy_store y1)) \<and>
    sy_consumers y1 = sy_consumers (one_consumer True 7) \<and>
    map_option fst (run_events sys_step (replicate (2 + 1) (TryNext 0)) y1) =
      Some [Delivered 0 (Some [5, 6]), Delivered 0 (Some (replicate 1100 3)), Nothing 0]"
proof -
  have msgs: "list_all (sendable sample_collect) sample_messages"
    by (simp add: sendable_def sample_messages_def sample_collect_def)
  have filtered: "filter (wanted sample_collect) sample_messages = [([5, 6], 1), (replicate 1100 3, 2)]"
    by (simp add: wanted_def sample_messages_def sample_collect_def numeral_2_eq_2)
  from end_to_end [OF concrete_run msgs concrete_receiver, of True 7]
  show ?thesis by (simp add: filtered calm_sends(4) idle_receives(3) numeral_2_eq_2)
qed

end
