(* ===== verification/Chat_Client.thy ===== *)
theory Chat_Client
  imports End_To_End
begin

text \<open>
  The chat client of the repository (\<^verbatim>\<open>skycurrent/examples/ascii-test-client-tokio.rs\<close>), a whole program over
  the library: its callback, the loop that sends the lines typed, and the task that shows what comes.
  Strings are lists of Unicode code points; what is shown are the bytes given to \<open>println!\<close>.
\<close>

section \<open>Strings\<close>

type_synonym code_points = "nat list"

text \<open>\<open>char::is_whitespace\<close>: the code points with the property \<open>White_Space\<close>.\<close>

definition white_space :: "nat \<Rightarrow> bool" where
  "white_space c \<longleftrightarrow>
     9 \<le> c \<and> c \<le> 13 \<or> c = 0x20 \<or> c = 0x85 \<or> c = 0xA0 \<or> c = 0x1680 \<or> 0x2000 \<le> c \<and> c \<le> 0x200A \<or>
     c = 0x2028 \<or> c = 0x2029 \<or> c = 0x202F \<or> c = 0x205F \<or> c = 0x3000"

definition trim :: "code_points \<Rightarrow> code_points" where
  "trim s = rev (dropWhile white_space (rev (dropWhile white_space s)))"

text \<open>\<open>str::as_bytes\<close>: UTF-8.\<close>

definition utf8_char :: "nat \<Rightarrow> byte list" where
  "utf8_char c =
     map word_of_nat
       (if c < 0x80 then [c]
        else if c < 0x800 then [0xC0 + c div 0x40, 0x80 + c mod 0x40]
        else if c < 0x10000 then [0xE0 + c div 0x1000, 0x80 + c div 0x40 mod 0x40, 0x80 + c mod 0x40]
        else [0xF0 + c div 0x40000, 0x80 + c div 0x1000 mod 0x40, 0x80 + c div 0x40 mod 0x40, 0x80 + c mod 0x40])"

definition as_bytes :: "code_points \<Rightarrow> byte list" where
  "as_bytes s = concat (map utf8_char s)"

lemma as_bytes_Nil [simp]: "as_bytes s = [] \<longleftrightarrow> s = []"
  by (cases s) (simp_all add: as_bytes_def utf8_char_def)

section \<open>The program\<close>

text \<open>\<open>header[0] == 'a'\<close>: an empty header panics.\<close>

definition chat_should_collect :: should_collect where
  "chat_should_collect header = (case header of [] \<Rightarrow> None | c # _ \<Rightarrow> Some (c = 97))"

definition chat_start :: "('w, 'h) build \<Rightarrow> path \<Rightarrow> ('w, 'h) combined \<Rightarrow> ('w, 'h) combined outcome option" where
  "chat_start b current_dir g =
     tokio_init b (set_global_should_collect chat_should_collect (set_global_project_dir current_dir g))"

text \<open>What reading a line gives: \<open>Ok(0)\<close> is the end of the input.\<close>

datatype stdin_read = LineRead code_points | EndOfInput | ReadFailed

definition exit_text :: code_points where
  "exit_text = [101, 120, 105, 116]"

text \<open>
  The loop of \<open>main\<close> over what is read, up to the point where it waits for more input; \<open>True\<close> says that
  \<open>main\<close> has returned. \<open>wakes\<close> is as for \<open>combined_close\<close>.
\<close>

fun chat_input ::
  "('w, 'h) build \<Rightarrow> bool \<Rightarrow> stdin_read list \<Rightarrow> ('w, 'h) combined \<Rightarrow> (bool \<times> ('w, 'h) combined) outcome option" where
  "chat_input b wakes [] g = Some (Returns (False, g))"
| "chat_input b wakes (EndOfInput # _) g = Some (Returns (True, g))"
| "chat_input b wakes (ReadFailed # _) g = Some (Returns (True, g))"
| "chat_input b wakes (LineRead line # rs) g =
     (case (if trim line = exit_text then combined_close b wakes g
            else tokio_send_stream b (as_bytes (trim line)) 1 g) of
        None \<Rightarrow> None
      | Some Panics \<Rightarrow> Some Panics
      | Some (Returns g1) \<Rightarrow> chat_input b wakes rs g1)"

text \<open>\<open>main\<close>, but for the receiving task that it spawns after \<open>init\<close>.\<close>

definition chat_main ::
  "('w, 'h) build \<Rightarrow> path \<Rightarrow> bool \<Rightarrow> stdin_read list \<Rightarrow> ('w, 'h) combined \<Rightarrow>
     (bool \<times> ('w, 'h) combined) outcome option" where
  "chat_main b current_dir wakes rs g =
     (case chat_start b current_dir g of
        None \<Rightarrow> None
      | Some Panics \<Rightarrow> Some Panics
      | Some (Returns g1) \<Rightarrow> chat_input b wakes rs g1)"

text \<open>
  The receiving task, from a poll on up to where it has to wait: the payloads it shows, and the state to be
  polled again. It reads messages and does not claim them.
\<close>

partial_function (option) chat_receive ::
  "(nat \<Rightarrow> nat \<Rightarrow> bool) \<Rightarrow> next_future \<Rightarrow> message_consumer \<Rightarrow> lmq_store \<Rightarrow>
     (byte list list \<times> next_future \<times> message_consumer \<times> lmq_store) option" where
  [code]: "chat_receive ready fut c s =
     (case poll_next ready fut c s of
        None \<Rightarrow> None
      | Some (Inl fut1, c1, s1) \<Rightarrow> Some ([], fut1, c1, s1)
      | Some (Inr m, c1, s1) \<Rightarrow>
          Option.bind (chat_receive ready NextStart c1 s1) (\<lambda>(shown, rest).
            Some (case read_message s1 m of Some payload \<Rightarrow> payload # shown | None \<Rightarrow> shown, rest)))"

section \<open>Lemmas\<close>

text \<open>The task shows what \<open>try_next\<close> would give, and then waits.\<close>

lemma chat_receive_shows:
  "map_option fst (run_events sys_step (replicate (length ps + 1) (TryNext 0)) y) =
     Some (map (\<lambda>p. Delivered 0 (Some p)) ps @ [Nothing 0]) \<Longrightarrow>
   consumer_at y 0 = Some c \<Longrightarrow>
   \<exists>rest. chat_receive ready NextStart c (sy_store y) = Some (ps, rest)"
proof (induction ps arbitrary: y c)
  case Nil
  then show ?case
    by (subst chat_receive.simps) (auto simp: poll_next_def Let_def split: option.splits)
next
  case (Cons p ps)
  from Cons.prems obtain m c1 s1 where nx: "try_next c (sy_store y) = Some (Some m, c1, s1)"
    and p: "read_message s1 m = Some p"
    and run: "map_option fst (run_events sys_step (replicate (length ps + 1) (TryNext 0))
        (y\<lparr>sy_store := s1, sy_consumers := (sy_consumers y)[0 := Some c1], sy_held := sy_held y @ [m]\<rparr>)) =
      Some (map (\<lambda>p. Delivered 0 (Some p)) ps @ [Nothing 0])" (is "map_option fst (run_events _ _ ?y) = _")
    by (auto split: option.splits)
  have "consumer_at ?y 0 = Some c1" using Cons.prems(2) by (auto simp: consumer_at_def split: if_splits)
  from Cons.IH [OF run this] obtain rest where "chat_receive ready NextStart c1 s1 = Some (ps, rest)" by auto
  with nx p show ?case
    by (subst chat_receive.simps, cases rest) (simp add: poll_next_def Let_def)
qed

text \<open>Lines that are sent.\<close>

definition typed :: "code_points \<Rightarrow> byte list \<times> nat" where
  "typed line = (as_bytes (trim line), 1)"

definition sent_line :: "code_points \<Rightarrow> bool" where
  "sent_line line \<longleftrightarrow> trim line \<noteq> [] \<and> trim line \<noteq> exit_text \<and> length (as_bytes (trim line)) < 2 ^ 32"

lemma typed_sendable: "sent_line line \<Longrightarrow> sendable chat_should_collect (typed line)"
  by (cases "as_bytes (trim line)")
    (auto simp: sent_line_def typed_def sendable_def chat_should_collect_def Suc_le_eq)

lemma chat_input_sends:
  "list_all sent_line lines \<Longrightarrow>
   chat_input b wakes (map LineRead lines) g =
     (case send_all b (map typed lines) g of
        None \<Rightarrow> None | Some Panics \<Rightarrow> Some Panics | Some (Returns g1) \<Rightarrow> Some (Returns (False, g1)))"
  by (induction lines arbitrary: g)
    (auto simp: sent_line_def typed_def split: option.split outcome.split)

lemma typed_wanted: "sent_line line \<Longrightarrow> wanted chat_should_collect (typed line) \<longleftrightarrow> hd (as_bytes (trim line)) = 97"
  by (cases "as_bytes (trim line)") (auto simp: sent_line_def typed_def wanted_def chat_should_collect_def)

lemma typed_filter:
  "list_all sent_line lines \<Longrightarrow>
   map fst (filter (wanted chat_should_collect) (map typed lines)) =
     filter (\<lambda>p. hd p = 97) (map (\<lambda>line. as_bytes (trim line)) lines)"
  by (induction lines) (auto simp: typed_wanted, auto simp: typed_def)

section \<open>Two clients\<close>

text \<open>
  C14: What is typed at one client and starts with \<open>a\<close> is shown at the other, line by line, trimmed, once and in
  order, and no other line is. The lines go through \<open>send_stream\<close> of the tokio layer, the pages of the mesh,
  \<open>recv_stream\<close> with the client's callback, the receiver task and the queue; blank lines and \<open>exit\<close> are
  excluded (\<open>sent_line\<close>). The hypotheses are those of \<open>end_to_end\<close>.
\<close>

theorem chat_shows_what_is_typed:
  assumes "lossless (iox2_lib b) cells log (\<lambda>_. 0)" and "\<And>w. draw_identification (iox2_lib b) w \<noteq> None"
    and "has_iox2 b" and "send_tx g" and "send_actor g = Serving cells"
    and "list_all sent_line lines"
    and "\<And>pages. mesh_buffer (iox2_lib rb) sub q (\<lambda>w. (coming pages w, out w))"
    and "\<And>pages. quiet_gateway rb st q (\<lambda>w. (coming pages w, out w)) broadcasting" and "receiving_tx st \<noteq> None"
    and "\<And>pages. brings_pages (env pages) q (coming pages) out"
    and "iox2_sub rcells = Some sub" and "iox2_liste rcells \<noteq> None" and "merge_allocs rcells = Map.empty"
    and "\<And>pages. receiving rb chat_should_collect st rcells (rg pages)"
    and "\<And>pages. q (world (rg pages)) @ coming pages (world (rg pages)) = pages"
    and "shown = filter (\<lambda>p. hd p = 97) (map (\<lambda>line. as_bytes (trim line)) lines)"
    and "consumer_at (one_consumer ad i) 0 = Some c"
  shows "\<exists>g1 pages results rg1 q1 s1 rest. chat_input b wakes (map LineRead lines) g = Some (Returns (False, g1)) \<and>
    log (world g1) = log (world g) @ pages \<and>
    receive_all rb (env pages) (length shown) (rg pages) = Some (Returns (results, rg1)) \<and>
    receiver_task results (sy_queue (one_consumer ad i), sy_store (one_consumer ad i)) = Some (Returns (q1, s1)) \<and>
    chat_receive ready NextStart c s1 = Some (shown, rest)"
proof -
  let ?msgs = "map typed lines" and ?sc = chat_should_collect
  have "list_all (sendable ?sc) ?msgs" using assms(6) by (auto simp: list_all_iff typed_sendable)
  from sent_is_received [OF assms(1-5) this assms(7-15), of ad i] obtain g1 pages results rg1 y1 where
    sent: "send_all b ?msgs g = Some (Returns g1)" "log (world g1) = log (world g) @ pages"
    and received: "receive_all rb (env pages) (length (filter (wanted ?sc) ?msgs)) (rg pages) = Some (Returns (results, rg1))"
      "receiver_task results (sy_queue (one_consumer ad i), sy_store (one_consumer ad i)) = Some (Returns (sy_queue y1, sy_store y1))"
    and same: "sy_consumers y1 = sy_consumers (one_consumer ad i)"
    and run: "map_option fst (run_events sys_step (replicate (length (filter (wanted ?sc) ?msgs) + 1) (TryNext 0)) y1) =
      Some (map (\<lambda>m. Delivered 0 (Some (fst m))) (filter (wanted ?sc) ?msgs) @ [Nothing 0])"
    by blast
  have shown: "shown = map fst (filter (wanted ?sc) ?msgs)" using typed_filter [OF assms(6)] assms(16) by simp
  have "consumer_at y1 0 = Some c" using assms(17) same by (simp add: consumer_at_def split: if_splits)
  with chat_receive_shows [of shown y1 c ready] run obtain rest where
    "chat_receive ready NextStart c (sy_store y1) = Some (shown, rest)"
    by (auto simp: shown comp_def)
  with sent received chat_input_sends [OF assms(6), of b wakes g] shown show ?thesis
    by (intro exI [of _ g1] exI [of _ pages] exI [of _ results] exI [of _ rg1] exI [of _ "sy_queue y1"]
        exI [of _ "sy_store y1"] exI [of _ rest]) simp
qed

text \<open>Three lines: \<open>" ab\n"\<close>, \<open>"xyz"\<close> and \<open>"a"\<close>.\<close>

theorem chat_shows_what_is_typed_witness:
  "\<exists>g1 pages results rg1 c q1 s1 rest.
    chat_input calm_build True (map LineRead [[32, 97, 98, 10], [120, 121, 122], [97]]) calm_sender = Some (Returns (False, g1)) \<and>
    published (world g1) = [] @ pages \<and>
    receive_all idle_build (trickle pages) 2 (idle_receiver chat_should_collect pages) = Some (Returns (results, rg1)) \<and>
    receiver_task results (sy_queue (one_consumer True 7), sy_store (one_consumer True 7)) = Some (Returns (q1, s1)) \<and>
    consumer_at (one_consumer True 7) 0 = Some c \<and>
    chat_receive (<) NextStart c s1 = Some ([[97, 98], [97]], rest)"
proof -
  let ?lines = "[[32, 97, 98, 10], [120, 121, 122], [97]] :: code_points list"
  obtain c where c: "consumer_at (one_consumer True 7) 0 = Some c"
    by (simp add: consumer_at_def one_consumer_def split_def Let_def)
  have trimmed: "map trim ?lines = [[97, 98], [120, 121, 122], [97]]"
    by (simp add: trim_def white_space_def)
  then have lines: "list_all sent_line ?lines"
    by (simp add: sent_line_def exit_text_def as_bytes_def utf8_char_def)
  have "[[97, 98], [97]] = filter (\<lambda>p. hd p = 97) (map as_bytes (map trim ?lines))"
    unfolding trimmed by (simp add: as_bytes_def utf8_char_def)
  then have "[[97, 98], [97]] = filter (\<lambda>p. hd p = 97) (map (\<lambda>line. as_bytes (trim line)) ?lines)"
    by (simp add: comp_def)
  from chat_shows_what_is_typed [OF concrete_run lines concrete_receiver this c, where ready = "(<)" and wakes = True] c
  show ?thesis by (simp add: calm_sends(4) numeral_2_eq_2)
qed

section \<open>What stops a client\<close>

text \<open>
  The loop that reads lines panics on ordinary input: on a blank line, because the header of one byte that it
  announces is longer than the message, and on any line after \<open>exit\<close>, because the loop goes on after \<open>close\<close>
  and then sends with a runtime that is not initialised.
\<close>

theorem chat_input_panics:
  assumes "has_iox2 b" and "send_tx g" and "send_actor g = Serving cells" and "trim blank = []"
    and "combined_close b wakes g = Some (Returns g1)" and "trim leave = exit_text" and "trim line \<noteq> exit_text"
  shows "chat_input b wakes (LineRead blank # rs) g = Some Panics \<and>
    chat_input b wakes (LineRead leave # LineRead line # rs) g = Some Panics"
proof
  have "iox2_send_stream (iox2_lib b) cells [] 1 (world g) =
      Some (Returns (Inl (PayloadHeaderSizeExceedsPayloadLength 1 0), world g))"
    by (simp add: iox2_send_stream_def)
  then have "tokio_send_stream b [] 1 g = Some Panics"
    using assms(1-3) by (simp add: tokio_send_step [of b "[]"] combined_send_stream_def actor_call_def transient_def)
  moreover have "as_bytes [] = []" by simp
  ultimately show "chat_input b wakes (LineRead blank # rs) g = Some Panics"
    using assms(4) by (simp add: exit_text_def del: as_bytes_Nil)
next
  have "\<not> send_tx g1"
    using assms(1,5) by (auto simp: combined_close_def Let_def split: option.splits outcome.splits)
  then have "tokio_send_stream b p 1 g1 = Some Panics" for p
    using assms(1) by (simp add: tokio_send_step [of b p] combined_send_stream_def actor_call_def transient_def)
  with assms(5-7) show "chat_input b wakes (LineRead leave # LineRead line # rs) g = Some Panics" by simp
qed

theorem chat_input_panics_witness:
  "chat_input calm_build True [LineRead [10]] calm_sender = Some Panics \<and>
   chat_input calm_build True [LineRead [101, 120, 105, 116, 10], LineRead [97]] calm_sender = Some Panics"
proof -
  obtain g1 where close: "combined_close calm_build True calm_sender = Some (Returns g1)"
    by (simp add: combined_close_def signal_until_sent.simps combined_shutdown_signal_def actor_call_def calm_build_def
        calm_sender_def bus_build_def waiting_runtime_def combined_start_def send_close_def join_actor_def Let_def
        iox2_shutdown_signal_def notify_def bus_api_def full_cells_eq)
  have "trim [10] = []" "trim [101, 120, 105, 116, 10] = exit_text" "trim [97] \<noteq> exit_text"
    by (simp_all add: trim_def white_space_def exit_text_def)
  from chat_input_panics [OF calm_sends(1-3) this(1) close this(2,3)] show ?thesis by blast
qed

text \<open>
  C37: Anybody on the mesh can stop every client with one message whose header is empty: when the page of such a
  message, with a payload of at most 1000 bytes, is the next one in the buffer of a client that receives, the callback
  of the client indexes the header, its panic ends the actor thread, \<open>recv_stream\<close> reports the crash, and the
  receiver task of the library panics on that.
\<close>

theorem empty_header_stops_client:
  assumes "receiving b chat_should_collect st cells g" and "iox2_sub cells = Some sub"
    and "mesh_buffer (iox2_lib b) sub q x" and "quiet_gateway b st q x note"
    and "length payload \<le> 1000" and "single_page payload 0 = Some page" and "q (world g) = page # later"
  shows "\<exists>g1. blocking_recv_stream b env g =
      Some (Returns (Inl (BackingCrashedOrNotStarted ''IOX2_RECV_SENDER_TX''), g1)) \<and> recv_actor g1 = Gone \<and>
    (\<forall>results qs. receiver_task (Inl (BackingCrashedOrNotStarted ''IOX2_RECV_SENDER_TX'') # results) qs = Some Panics)"
proof -
  have "length payload + 24 \<le> PRESET_N" using assms(5) by (simp add: PRESET_N_def)
  from handle_single_page [OF this _ assms(6), of "overflow_checks b" chat_should_collect "merge_allocs cells"]
  have "handle_page (overflow_checks b) chat_should_collect page (merge_allocs cells) = None"
    by (simp add: chat_should_collect_def)
  from round_crash [OF assms(1-4,7) this] recv_until_ask(2) [of b g] show ?thesis
    by (fastforce simp: blocking_recv_stream_def recv_retried_def)
qed

theorem empty_header_stops_client_witness:
  "\<exists>page g1. single_page [7] 0 = Some page \<and>
    blocking_recv_stream idle_build (trickle [])
      ((idle_receiver chat_should_collect [])\<lparr>world := \<lparr>published = [page], failures = 0, relayed = []\<rparr>\<rparr>) =
      Some (Returns (Inl (BackingCrashedOrNotStarted ''IOX2_RECV_SENDER_TX''), g1)) \<and> recv_actor g1 = Gone \<and>
    (\<forall>results qs. receiver_task (Inl (BackingCrashedOrNotStarted ''IOX2_RECV_SENDER_TX'') # results) qs = Some Panics)"
proof -
  obtain page where page: "single_page [7] 0 = Some page"
    using single_page_eq [of "[7]" 0] by (auto simp: PRESET_N_def)
  let ?g = "(idle_receiver chat_should_collect [])\<lparr>world := \<lparr>published = [page], failures = 0, relayed = []\<rparr>\<rparr>"
  have "receiving idle_build chat_should_collect idle_statics full_cells ?g"
    using idle_receives(1) by (rule receiving_update(2))
  from empty_header_stops_client [OF this cells_receive(1) trickle_buffer [of "[]"] trickle_gateway _ page, of "[]"] page
  show ?thesis by fastforce
qed

end
