(* ===== verification/Gateway_Props.thy ===== *)
theory Gateway_Props
  imports Recv_Props
begin

text \<open>
  What becomes of the frames websocket clients send: forwarded to the mesh when they are well-formed, and
  otherwise the end of the receiving thread.
\<close>

section \<open>Frames\<close>

text \<open>The body of a frame and the header size in its last 8 bytes.\<close>

definition frame_body :: "byte list \<Rightarrow> byte list" where
  "frame_body frame = take (length frame - 8) frame"

definition frame_header_size :: "byte list \<Rightarrow> nat" where
  "frame_header_size frame = unat (u64_from_le (drop (length frame - 8) frame))"

text \<open>A frame whose body can be sent into the mesh with that header size.\<close>

definition well_formed_frame :: "byte list \<Rightarrow> bool" where
  "well_formed_frame frame \<longleftrightarrow>
     8 \<le> length frame \<and> frame_header_size frame \<le> length (frame_body frame) \<and>
     (length (frame_body frame) \<le> 1000 \<or> frame_header_size frame < 992)"

lemma split_frame:
  "8 \<le> length frame \<Longrightarrow> length frame < 2 ^ 64 \<Longrightarrow>
   split_trailer ov frame = Some (frame_body frame, frame_header_size frame)"
  by (simp add: split_trailer_def usize_sub_ok subslice_def frame_body_def frame_header_size_def)

lemma to_le_from_le: "length bs = n \<Longrightarrow> to_le n (from_le bs) = bs \<and> from_le bs < 256 ^ n"
proof (induction bs arbitrary: n)
  case (Cons x bs)
  then obtain m where m: "n = Suc m" "length bs = m" by auto
  have "unat x < 256" using unat_less [of x] by simp
  with Cons.IH [OF m(2)] m(1) show ?case by simp
qed simp

lemma u64_le_again: "length bs = 8 \<Longrightarrow> u64_to_le (u64_from_le bs) = bs"
  using to_le_from_le [of bs 8] by (simp add: u64_to_le_def u64_from_le_def unsigned_of_nat take_bit_nat_eq_self)

lemma frame_again:
  assumes "8 \<le> length frame"
  shows "frame_body frame @ u64_to_le (word_of_nat (frame_header_size frame)) = frame"
  using assms by (simp add: frame_body_def frame_header_size_def u64_le_again)

text \<open>Taking a frame when the gateway has its turn.\<close>

definition gateway_turn :: "('w, 'h) build \<Rightarrow> byte list \<Rightarrow> 'w \<Rightarrow> ('w, 'h) combined \<Rightarrow> bool" where
  "gateway_turn b frame w1 g \<longleftrightarrow>
     has_ws b \<and> fst (current_backing g) = WsGateway \<and>
     clock b (world g) - snd (current_backing g) \<le> 10000 \<and>
     length (wait_stream_locks g) = 2 \<and> \<not> wait_stream_locks g ! 1 \<and> wait_rx g = Some [] \<and>
     (\<exists>rx. receiving_rx (ws_st g) = Some rx \<and> rx_try_recv (ws_lib b) rx (world g) = (Inr frame, w1))"

lemma gateway_turn_delivers:
  assumes "gateway_turn b frame w1 g"
  shows "combined_try_recv_stream b held g = deliver b WsGateway frame 0 (g\<lparr>world := w1\<rparr>)"
proof -
  from assms obtain t rx where t: "current_backing g = (WsGateway, t)" "clock b (world g) - t \<le> 10000"
    and rx: "receiving_rx (ws_st g) = Some rx" "rx_try_recv (ws_lib b) rx (world g) = (Inr frame, w1)"
    by (cases "current_backing g") (auto simp: gateway_turn_def)
  with assms have "query_backing b c WsGateway g = Some (Returns (Inr (NewCompleted frame 0), g\<lparr>world := w1\<rparr>))" for c
    by (simp add: gateway_turn_def query_backing_def ws_try_recv_copy_def)
  moreover have "wait_stream_drain held g = (Inr (), g)"
    using assms by (simp add: gateway_turn_def wait_stream_drain_def)
  ultimately show ?thesis
    using assms t
    by (simp add: gateway_turn_def combined_try_recv_stream_def choose_backing_def numeral_2_eq_2 bit_at_def
        backing_index_def)
qed

text \<open>
  C36: A websocket client can stop the receiver with any malformed frame: one of fewer than 8 bytes, one whose
  trailer gives a header longer than the body, or one with a long body and a header that leaves no room for a
  fragment makes \<open>try_recv_stream\<close> panic, in every build profile: the mesh refuses it, and the loop that
  forwards frames answers every refusal with a panic.
\<close>

theorem malformed_frame_panics:
  assumes "gateway_turn b frame w1 g" and "\<not> well_formed_frame frame" and "length frame < 2 ^ 64"
    and "has_iox2 b" and "send_tx g" and "send_actor g = Serving cells"
  shows "combined_try_recv_stream b held g = Some Panics"
proof (cases "8 \<le> length frame")
  case True
  let ?body = "frame_body frame" and ?hs = "frame_header_size frame"
  from assms(2) True obtain e where
    "iox2_send_stream (iox2_lib b) cells ?body ?hs w1 = Some (Returns (Inl e, w1))" "\<not> transient (Iox2IpcError e)"
    by (cases "length ?body < ?hs") (auto simp: well_formed_frame_def iox2_send_stream_def PRESET_N_def transient_def)
  then have "forward_to_mesh b ?body ?hs (g\<lparr>world := w1\<rparr>) = Some Panics"
    using assms(4-6) by (subst forward_to_mesh.simps) (simp add: combined_send_stream_def actor_call_def)
  with gateway_turn_delivers [OF assms(1)] split_frame [OF True assms(3)] assms(4) show ?thesis
    by (simp add: deliver_def)
next
  case False
  then have "\<not> (2 ^ 64 + length frame - 8) mod 2 ^ 64 \<le> length frame" by simp
  with False have "split_trailer ov frame = None" for ov
    by (auto simp: split_trailer_def usize_sub_def subslice_def)
  with gateway_turn_delivers [OF assms(1)] show ?thesis by (simp add: deliver_def)
qed

lemma frame_published:
  assumes "gateway_turn b frame w1 g" and "well_formed_frame frame" and "length frame < 2 ^ 32"
    and "lossless (iox2_lib b) cells log (\<lambda>_. 0)" and "\<And>w. draw_identification (iox2_lib b) w \<noteq> None"
    and "has_iox2 b" and "send_tx g" and "send_actor g = Serving cells"
  obtains g1 pages where "combined_try_recv_stream b held g = Some (Returns (Inr PotentiallyAvailable, g1))"
    "log (world g1) = log w1 @ pages" "pages_of (frame_body frame) (frame_header_size frame) pages"
proof -
  let ?body = "frame_body frame" and ?hs = "frame_header_size frame"
  have long: "8 \<le> length frame" and ok: "?hs \<le> length ?body" "length ?body \<le> 1000 \<or> ?hs < 992" "length ?body < 2 ^ 32"
    using assms(2,3) by (simp_all add: well_formed_frame_def frame_body_def)
  from sent_pages [where w = w1 and trouble = "\<lambda>_. 0", OF assms(4) ok refl assms(5)]
  obtain w' pages where sent: "iox2_send_stream (iox2_lib b) cells ?body ?hs w1 = Some (Returns (Inr (), w'))"
    and pages: "log w' = log w1 @ pages" "pages_of ?body ?hs pages"
    by blast
  let ?g1 = "g\<lparr>send_actor := Serving cells, world := w'\<rparr>"
  have "forward_to_mesh b ?body ?hs (g\<lparr>world := w1\<rparr>) = Some (Returns ?g1)"
    using assms(6-8) sent by (subst forward_to_mesh.simps) (simp add: combined_send_stream_def actor_call_def)
  with gateway_turn_delivers [OF assms(1)] split_frame [OF long] assms(3,6)
  have "combined_try_recv_stream b held g = Some (Returns (Inr PotentiallyAvailable, ?g1))"
    by (simp add: deliver_def)
  with pages show thesis by (intro that [of ?g1 pages]) simp_all
qed

text \<open>
  C13: What a websocket client of one process sends, everybody on the mesh gets. A well-formed frame makes
  \<open>try_recv_stream\<close> publish pages and report \<open>PotentiallyAvailable\<close>, not the message. In any process that receives
  these pages, buffered or while it waits, and wants the message, \<open>recv_stream\<close> returns the body of the frame, and
  the websocket clients of that process are sent the very bytes of the frame, once; the process that forwarded the
  frame hears its own echo like the others.
\<close>

theorem frame_reaches_everybody:
  assumes "gateway_turn b frame w1 g" and "well_formed_frame frame" and "length frame < 2 ^ 32"
    and "lossless (iox2_lib b) cells log (\<lambda>_. 0)" and "\<And>w. draw_identification (iox2_lib b) w \<noteq> None"
    and "has_iox2 b" and "send_tx g" and "send_actor g = Serving cells"
    and "\<And>pages. mesh_buffer (iox2_lib rb) sub q (\<lambda>w. (coming pages w, out w))"
    and "\<And>pages. quiet_gateway rb st q (\<lambda>w. (coming pages w, out w)) broadcasting" and "receiving_tx st \<noteq> None"
    and "\<And>pages. brings_pages (env pages) q (coming pages) out"
    and "iox2_sub rcells = Some sub" and "iox2_liste rcells \<noteq> None" and "merge_allocs rcells = Map.empty"
    and "\<And>pages. receiving rb sc st rcells (rg pages)"
    and "\<And>pages. q (world (rg pages)) @ coming pages (world (rg pages)) = pages"
    and "sc (take (frame_header_size frame) (frame_body frame)) = Some True"
  shows "\<exists>g1 pages rg1. combined_try_recv_stream b held g = Some (Returns (Inr PotentiallyAvailable, g1)) \<and>
    log (world g1) = log w1 @ pages \<and>
    blocking_recv_stream rb (env pages) (rg pages) = Some (Returns (Inr (frame_body frame), rg1)) \<and>
    out (world rg1) = out (world (rg pages)) @ [frame]"
proof -
  let ?body = "frame_body frame" and ?hs = "frame_header_size frame"
  have long: "8 \<le> length frame" and ok: "?hs \<le> length ?body" "length ?body \<le> 1000 \<or> ?hs < 992" "length ?body < 2 ^ 32"
    using assms(2,3) by (simp_all add: well_formed_frame_def frame_body_def)
  obtain g1 pages where sent: "combined_try_recv_stream b held g = Some (Returns (Inr PotentiallyAvailable, g1))"
    "log (world g1) = log w1 @ pages" and pages: "pages_of ?body ?hs pages"
    by (rule frame_published [OF assms(1-8)])
  have run: "run_events (handle_page (overflow_checks rb) sc) pages (merge_allocs rcells) =
      Some (replicate (length pages - 1) None @ [Some (?body, ?hs)], Map.empty)"
    using pages_complete [where sc = sc, OF pages ok assms(18) refl] assms(15) by simp
  have "q (world (rg pages)) @ coming pages (world (rg pages)) = pages @ []" using assms(17) by simp
  from recv_delivers [OF assms(9-12) run assms(16) this assms(13,14)] obtain rg1 where
    "blocking_recv_stream rb (env pages) (rg pages) = Some (Returns (Inr ?body, rg1))"
    "out (world rg1) = out (world (rg pages)) @ [ws_frame ?body ?hs]"
    unfolding blocking_recv_stream_def by blast
  with sent show ?thesis
    by (intro exI [of _ g1] exI [of _ pages] exI [of _ rg1]) (simp add: ws_frame_def frame_again [OF long])
qed

section \<open>A client's frames, concretely\<close>

text \<open>The gateway has the turn and hands out \<open>frame\<close>; nothing fails.\<close>

definition frame_build :: "byte list \<Rightarrow> (bus, nat) build" where
  "frame_build frame = (bus_build True)\<lparr>ws_lib := bus_ws\<lparr>rx_try_recv := (\<lambda>_ w. (Inr frame, w))\<rparr>,
     iox2_lib := bus_api\<lparr>loan_uninit := (\<lambda>_ w. (Inr 8, w))\<rparr>\<rparr>"

definition frame_runtime :: "(bus, nat) combined" where
  "frame_runtime = waiting_runtime
     \<lparr>current_backing := (WsGateway, 0), send_tx := True, send_actor := Serving full_cells,
      ws_st := \<lparr>broadcast_tx = 21, receiving_tx = Some 21, receiving_rx = Some 22\<rparr>\<rparr>"

lemma frame_turn: "gateway_turn (frame_build frame) frame (world frame_runtime) frame_runtime"
  by (simp add: gateway_turn_def frame_build_def frame_runtime_def waiting_runtime_def bus_build_def bus_ws_def
      combined_start_def)

lemma frame_sender: "has_iox2 (frame_build frame)" "send_tx frame_runtime"
  "send_actor frame_runtime = Serving full_cells"
  by (simp_all add: frame_build_def frame_runtime_def bus_build_def)

theorem malformed_frame_panics_witness:
  "combined_try_recv_stream (frame_build [1, 2]) False frame_runtime = Some Panics \<and>
   combined_try_recv_stream (frame_build ([7] @ u64_to_le 2)) False frame_runtime = Some Panics"
proof -
  have "\<not> well_formed_frame [1, 2]" by (simp add: well_formed_frame_def)
  moreover have "\<not> well_formed_frame ([7] @ u64_to_le 2)"
    by (simp add: well_formed_frame_def frame_body_def frame_header_size_def)
  ultimately show ?thesis
    using malformed_frame_panics [OF frame_turn _ _ frame_sender] by simp
qed

theorem frame_reaches_everybody_witness:
  "\<exists>g1 pages rg1. combined_try_recv_stream (frame_build ([5, 6, 7] @ u64_to_le 1)) False frame_runtime =
      Some (Returns (Inr PotentiallyAvailable, g1)) \<and>
    published (world g1) = published (world frame_runtime) @ pages \<and>
    blocking_recv_stream idle_build (trickle pages) (idle_receiver (\<lambda>h. Some (h = [5])) pages) =
      Some (Returns (Inr [5, 6, 7], rg1)) \<and>
    relayed (world rg1) = [[5, 6, 7] @ u64_to_le 1]"
proof -
  let ?f = "5 # 6 # 7 # u64_to_le 1"
  have f: "frame_body ?f = [5, 6, 7]" "frame_header_size ?f = 1"
    by (simp_all add: frame_body_def frame_header_size_def)
  have mesh: "lossless (iox2_lib (frame_build ?f)) full_cells published (\<lambda>_. 0)"
    by (auto simp: lossless_def frame_build_def full_cells_eq bus_api_def send_page_def node_pause_def notify_def)
  have draw: "draw_identification (iox2_lib (frame_build ?f)) w \<noteq> None" for w
    by (simp add: draw_identification.simps bus_api_def frame_build_def)
  have "well_formed_frame ?f" unfolding well_formed_frame_def f by simp
  from frame_reaches_everybody [OF frame_turn [of ?f] this _ mesh draw frame_sender concrete_receiver,
      of "\<lambda>h. Some (h = [5])" False] f idle_receives(3)
  show ?thesis by simp
qed

end
