(* ===== verification/Gateway_Wakeup.thy ===== *)
theory Gateway_Wakeup
  imports Recv_Props
begin

text \<open>
  The receiving process against the websocket clients: frames come into the receiving channel while
  \<open>recv_stream\<close> runs, is about to wait, or waits. The gateway's \<open>wait_stream\<close> waits on a subscription that it
  takes when it is polled first, and a subscription gives only what is sent after it was taken.
\<close>

section \<open>Clients, subscription, receiver\<close>

text \<open>\<open>gs_news\<close>: the subscription of the current wait, and whether a frame came since it was taken.\<close>

record ('w, 'h) gateway_state =
  gs_runtime :: "('w, 'h) combined"
  gs_receiver :: recv_future
  gs_news :: "bool option"

text \<open>
  A turn of \<open>recv_stream\<close>: a first poll of the wait takes the subscription, which has no news then; the end
  of the wait drops it. After a result it is called again.
\<close>

inductive gs_own :: "('w, 'h) build \<Rightarrow> ('w, 'h) gateway_state \<Rightarrow> ('w, 'h) gateway_state \<Rightarrow> bool" for b where
  turn: "recv_turn b ws_first (gs_news m = Some True) (gs_receiver m) (gs_runtime m) = Some (Returns (Inl fut, g)) \<Longrightarrow>
    gs_own b m (m\<lparr>gs_runtime := g, gs_receiver := fut,
      gs_news := (if gs_receiver m = RecvWaiting \<and> fut = RecvWaiting then Some (gs_news m = Some True) else None)\<rparr>)"
| result: "recv_turn b ws_first (gs_news m = Some True) (gs_receiver m) (gs_runtime m) = Some (Returns (Inr r, g)) \<Longrightarrow>
    gs_own b m (m\<lparr>gs_runtime := g, gs_receiver := RecvAsking, gs_news := None\<rparr>)"

text \<open>Steps without clients and senders; \<open>frames\<close> is what the receiving channel holds.\<close>

inductive gs_quiet ::
  "('w, 'h) build \<Rightarrow> ('w \<Rightarrow> byte list list) \<Rightarrow> ('w, 'h) gateway_state \<Rightarrow> ('w, 'h) gateway_state \<Rightarrow> bool" for b frames where
  own: "gs_own b m m' \<Longrightarrow> gs_quiet b frames m m'"
| elsewhere: "frames w = frames (world (gs_runtime m)) \<Longrightarrow>
    gs_quiet b frames m (m\<lparr>gs_runtime := with_world (gs_runtime m) w\<rparr>)"

definition frame_comes :: "'w \<Rightarrow> ('w, 'h) gateway_state \<Rightarrow> ('w, 'h) gateway_state" where
  "frame_comes w m =
     m\<lparr>gs_runtime := with_world (gs_runtime m) w, gs_news := map_option (\<lambda>_. True) (gs_news m)\<rparr>"

inductive gs_step ::
  "('w, 'h) build \<Rightarrow> ('w \<Rightarrow> byte list list) \<Rightarrow> ('w, 'h) gateway_state \<Rightarrow> ('w, 'h) gateway_state \<Rightarrow> bool" for b frames where
  frame: "frames w = frames (world (gs_runtime m)) @ [p] \<Longrightarrow> gs_step b frames m (frame_comes w m)"
| wake: "recv_actor (gs_runtime m) = WaitingEvent cells qs \<Longrightarrow>
    gs_step b frames m (m\<lparr>gs_runtime := wait_ends (Inr ()) (gs_runtime m)\<rparr>)"
| quiet: "gs_quiet b frames m m' \<Longrightarrow> gs_step b frames m m'"

section \<open>A frame that nobody notices\<close>

text \<open>The receiver is about to wait or waits, and what it waits on has nothing for it.\<close>

definition overlooks ::
  "('w, 'h) build \<Rightarrow> should_collect \<Rightarrow> 'h ws_statics \<Rightarrow> 'h \<Rightarrow> ('w \<Rightarrow> byte list list) \<Rightarrow> byte list list \<Rightarrow>
     ('w, 'h) gateway_state \<Rightarrow> bool" where
  "overlooks b sc st sub frames fs m \<longleftrightarrow>
     frames (world (gs_runtime m)) = fs \<and> gs_news m \<noteq> Some True \<and>
     (\<exists>ph. in_use b sc st sub ph (gs_runtime m) \<and>
        (gs_receiver m = RecvRegistering \<and> ph \<noteq> Woken \<or> gs_receiver m = RecvWaiting \<and> ph = Asleep))"

lemma asleep_pending:
  assumes "in_use b sc st sub Asleep g" and "receiving_tx st \<noteq> None"
  shows "wait_poll b ws_first False g = (PollPending, g)"
  using assms by (auto simp: wait_poll_def in_use_def receive_results_def split: actor.splits)

lemma overlooks_own:
  assumes up: "receiving_tx st \<noteq> None" and o: "overlooks b sc st sub frames fs m" and st: "gs_own b m m'"
  shows "overlooks b sc st sub frames fs m'"
proof -
  from o obtain ph where use: "in_use b sc st sub ph (gs_runtime m)" and news: "gs_news m \<noteq> Some True"
    and fs: "frames (world (gs_runtime m)) = fs"
    and rc: "gs_receiver m = RecvRegistering \<and> ph \<noteq> Woken \<or> gs_receiver m = RecvWaiting \<and> ph = Asleep"
    by (auto simp: overlooks_def)
  have "\<exists>g. recv_turn b f False (gs_receiver m) (gs_runtime m) = Some (Returns (Inl RecvWaiting, g)) \<and>
      in_use b sc st sub Asleep g \<and> world g = world (gs_runtime m)" for f
    using rc
  proof
    assume r: "gs_receiver m = RecvRegistering \<and> ph \<noteq> Woken"
    from registering_turn [OF use] obtain g where "wait_register b (gs_runtime m) = (Inr (), g)"
      "in_use b sc st sub (if ph = Free then Asleep else ph) g" "world g = world (gs_runtime m)" by blast
    with r show ?thesis by (cases ph) (auto simp: recv_turn_def)
  next
    assume "gs_receiver m = RecvWaiting \<and> ph = Asleep"
    with asleep_pending [of b sc st sub "gs_runtime m" f, OF _ up] use show ?thesis by (auto simp: recv_turn_def)
  qed
  note turn_waits = this
  from news have no: "(gs_news m = Some True) = False" by simp
  from st show ?thesis
  proof (cases rule: gs_own.cases)
    case (turn f fut g)
    with turn_waits [of f] no fs show ?thesis by (auto simp: overlooks_def)
  next
    case (result f r g)
    with turn_waits [of f] no show ?thesis by auto
  qed
qed

lemma overlooks_run:
  "(gs_quiet b frames)\<^sup>*\<^sup>* m m' \<Longrightarrow> receiving_tx st \<noteq> None \<Longrightarrow> overlooks b sc st sub frames fs m \<Longrightarrow>
   overlooks b sc st sub frames fs m'"
proof (induction rule: rtranclp_induct)
  case (step y z)
  then have o: "overlooks b sc st sub frames fs y" by blast
  from step(2) show ?case
  proof (cases rule: gs_quiet.cases)
    case own
    with overlooks_own [OF step.prems(1) o] show ?thesis by blast
  next
    case (elsewhere w)
    with o in_use_world show ?thesis by (fastforce simp: overlooks_def with_world_def)
  qed
qed

text \<open>A frame that comes while the wait has its subscription is noticed: the receiver asks again.\<close>

lemma subscribed_notices:
  assumes "in_use b sc st sub Asleep (gs_runtime m)" and "gs_receiver m = RecvWaiting" and "gs_news m = Some False"
    and "gs_own b (frame_comes w m) m'"
  shows "gs_receiver m' = RecvAsking"
proof -
  let ?g = "with_world (gs_runtime m) w"
  have "in_use b sc st sub Asleep ?g" using assms(1) by (rule in_use_world)
  then have "wait_poll b f True ?g = (PollReady (Inr ()), ?g)" for f
    by (auto simp: wait_poll_def in_use_def receive_results_def)
  then have "recv_turn b f True RecvWaiting ?g = Some (Returns (Inl RecvAsking, ?g))" for f
    by (simp add: recv_turn_def)
  with assms(2-4) show ?thesis by (auto simp: frame_comes_def elim!: gs_own.cases)
qed

text \<open>
  C12: A websocket frame can be overlooked. The future of \<open>wait_stream\<close> that \<open>recv_stream\<close> takes before it looks
  does nothing until it is awaited. So a frame that comes after the last look and before the wait has subscribed
  stays in the channel: \<open>recv_stream\<close> waits and does not return, whatever time passes and however often it is
  polled, until another frame or a message on the mesh happens to come.
\<close>

theorem gateway_frame_overlooked:
  assumes "in_use b sc st sub ph (gs_runtime m)" and "receiving_tx st \<noteq> None"
    and "gs_receiver m = RecvRegistering \<and> ph \<noteq> Woken \<or> gs_receiver m = RecvWaiting \<and> ph = Asleep" and "gs_news m = None"
    and "frames w = frames (world (gs_runtime m)) @ [p]" and "(gs_quiet b frames)\<^sup>*\<^sup>* (frame_comes w m) m'"
  shows "(gs_receiver m' = RecvRegistering \<or> gs_receiver m' = RecvWaiting) \<and>
    frames (world (gs_runtime m')) = frames (world (gs_runtime m)) @ [p]"
proof -
  have "in_use b sc st sub ph (with_world (gs_runtime m) w)" using assms(1) by (rule in_use_world)
  with assms(3-5) have "overlooks b sc st sub frames (frames (world (gs_runtime m)) @ [p]) (frame_comes w m)"
    by (auto simp: overlooks_def frame_comes_def with_world_def)
  from overlooks_run [OF assms(6,2) this] show ?thesis by (auto simp: overlooks_def)
qed

section \<open>A receiver that overlooks a frame\<close>

text \<open>The channel holds the frames that clients sent; the receiver finds it empty, then a frame comes.\<close>

record frame_bus = bus +
  sent_frames :: "byte list list"

definition frame_ws :: "(frame_bus, nat) ws_api" where
  "frame_ws = \<lparr>tcp_bind = (\<lambda>_ w. (Inr 20, w)), broadcast_channel = (\<lambda>_ w. ((21, 22), w)),
     spawn_accept_loop = (\<lambda>_ w. w), tx_subscribe = (\<lambda>_ w. (23, w)),
     rx_try_recv = (\<lambda>_ w. case sent_frames w of
        [] \<Rightarrow> (Inl Pending, w) | f # fs \<Rightarrow> (Inr f, w\<lparr>sent_frames := fs\<rparr>)),
     rx_recv = (\<lambda>_ w. None), tx_blocking_send = (\<lambda>_ v w. Some (True, w))\<rparr>"

definition frame_bus_build :: "(frame_bus, nat) build" where
  "frame_bus_build = \<lparr>has_iox2 = True, has_ws = True, overflow_checks = True, iox2_lib = bus_api,
     ws_lib = frame_ws, clock = (\<lambda>_. 0), sleep_ms = (\<lambda>_ w. w)\<rparr>"

definition frame_start :: "(frame_bus, nat) gateway_state" where
  "frame_start = \<lparr>gs_runtime = idle_runtime \<lparr>published = [], failures = 0, sent_frames = []\<rparr>,
     gs_receiver = RecvAsking, gs_news = None\<rparr>"

theorem gateway_frame_overlooked_witness:
  "\<exists>m w. (gs_step frame_bus_build sent_frames)\<^sup>*\<^sup>* frame_start (frame_comes w m) \<and>
     sent_frames (world (gs_runtime (frame_comes w m))) = [[5]] \<and>
     (\<forall>m'. (gs_quiet frame_bus_build sent_frames)\<^sup>*\<^sup>* (frame_comes w m) m' \<longrightarrow>
        gs_receiver m' \<noteq> RecvAsking \<and> sent_frames (world (gs_runtime m')) = [[5]])"
proof -
  let ?b = frame_bus_build
  let ?w = "\<lparr>published = [], failures = 0, sent_frames = [[5]]\<rparr> :: frame_bus"
  note defs = frame_start_def idle_runtime_def combined_start_def frame_bus_build_def idle_statics_def
  let ?g = "(idle_runtime \<lparr>published = [], failures = 0, sent_frames = []\<rparr>)\<lparr>current_backing := (Iox2, 0)\<rparr>"
  have "\<exists>t. recv_turn ?b False False RecvAsking (gs_runtime frame_start) =
      Some (Returns (Inl RecvRegistering, (gs_runtime frame_start)\<lparr>current_backing := t\<rparr>))"
    by (simp add: defs recv_turn_def recv_stream_round_def combined_try_recv_stream_def choose_backing_def
        enter_backing_def wait_stream_drain_def numeral_2_eq_2 bit_at_def backing_index_def query_backing_def
        actor_call_def iox2_try_recv_stream_def recv_page_def bus_api_def full_cells_eq frame_ws_def ws_try_recv_copy_def)
  then obtain t where t: "recv_turn ?b False False RecvAsking (gs_runtime frame_start) =
      Some (Returns (Inl RecvRegistering, (gs_runtime frame_start)\<lparr>current_backing := t\<rparr>))" by blast
  let ?m = "frame_start\<lparr>gs_runtime := (gs_runtime frame_start)\<lparr>current_backing := t\<rparr>, gs_receiver := RecvRegistering,
    gs_news := None\<rparr>"
  have "gs_own ?b frame_start ?m"
    using gs_own.turn [of ?b False frame_start RecvRegistering] t by (simp add: frame_start_def)
  then have "gs_step ?b sent_frames frame_start ?m" by (intro gs_step.quiet gs_quiet.own)
  moreover have "gs_step ?b sent_frames ?m (frame_comes ?w ?m)" by (rule gs_step.frame) (simp add: defs)
  ultimately have run: "(gs_step ?b sent_frames)\<^sup>*\<^sup>* frame_start (frame_comes ?w ?m)" by auto
  have use: "in_use ?b (\<lambda>_. Some True) idle_statics 7 Free (gs_runtime ?m)"
    by (simp add: in_use_def defs full_cells_eq)
  have ?thesis if "(gs_step ?b sent_frames)\<^sup>*\<^sup>* frame_start (frame_comes ?w ?m)"
    using that gateway_frame_overlooked [OF use, where frames = sent_frames and w = ?w and p = "[5]"]
    by (intro exI [of _ ?m] exI [of _ ?w]) (fastforce simp: defs frame_comes_def with_world_def)
  with run show ?thesis by blast
qed

end
