(* ===== verification/Lmq_Locks.thy ===== *)
theory Lmq_Locks
  imports Lmq_System
begin

text \<open>
  The queue with its locks, for any number of threads: the pusher, one thread per consumer, and
  threads that claim. A step is what a thread does with the locks it holds until it asks for another:
  \<open>push\<close> walks to the last node one lock at a time; \<open>try_next\<close> keeps the mutex of its node, checks the
  automatic drop, takes the payload's write lock, and then locks one further node per turn of its
  loop; dropping a consumer locks its node once. A step that needs a mutex another thread holds is not
  enabled (\<open>None\<close>).

  A payload's write lock is held for longer than a step only by a \<open>try_next\<close>; readers are momentary
  (\<^verbatim>\<open>Lmq_Views\<close> adds readers that hold a view). The drop check changes the node under its mutex, so it may wait for the
  payload before it does so as well as in between. A message is found unclaimed and delivered in one
  step, with the mutex of its node; its claim by somebody else may be the next step. What \<open>push\<close> does
  after its last lock (the record of the last node, the notification) no other thread here reads.
\<close>

section \<open>Threads\<close>

text \<open>
  Where a consumer's thread is: between calls; in \<open>try_next\<close> before the mutex of its node, before the
  drop check, before the payload's write lock, or in the loop with its local variables
  \<open>current_is_claimed\<close> and \<open>next\<close>; in the destructor before the mutex; or dropped.
\<close>

datatype phase = Resting | Locking | Checking | Guarding | Pruning bool "nref option" | Leaving | Gone

text \<open>\<open>lk_push\<close> is the pusher's new node and the node whose mutex it asks for.\<close>

record lmq_locks =
  lk_queue :: link_message_queue
  lk_store :: lmq_store
  lk_push :: "(nref \<times> nref) option"
  lk_consumers :: "(message_consumer \<times> phase) list"
  lk_held :: "next_message list"

datatype lk_op =
    CallPush "byte list" | StepPush
  | CallNew u64
  | CallNext nat | StepNext nat
  | CallClaim nat
  | CallDrop nat | StepDrop nat

datatype lk_event =
    LkSilent | LkPushed | LkCreated | LkDelivered nat "byte list option" | LkNothing nat
  | LkClaimed nat "byte list option" | LkDropped nat

fun holds_node :: "phase \<Rightarrow> bool" where
  "holds_node Checking = True"
| "holds_node Guarding = True"
| "holds_node (Pruning _ _) = True"
| "holds_node _ = False"

fun holds_payload :: "phase \<Rightarrow> bool" where
  "holds_payload (Pruning _ _) = True"
| "holds_payload _ = False"

definition node_locked :: "lmq_locks \<Rightarrow> nref \<Rightarrow> bool" where
  "node_locked g x \<longleftrightarrow> list_ex (\<lambda>(c, ph). holds_node ph \<and> mc_current c = x) (lk_consumers g)"

definition payload_locked :: "lmq_locks \<Rightarrow> pref \<Rightarrow> bool" where
  "payload_locked g r \<longleftrightarrow>
     list_ex (\<lambda>(c, ph). holds_payload ph \<and> payload_ref (nodes (lk_store g) (mc_current c)) = r) (lk_consumers g)"

definition set_consumer :: "nat \<Rightarrow> message_consumer \<Rightarrow> phase \<Rightarrow> lmq_locks \<Rightarrow> lmq_locks" where
  "set_consumer i c ph g = g\<lparr>lk_consumers := (lk_consumers g)[i := (c, ph)]\<rparr>"

section \<open>\<open>push\<close>\<close>

definition push_begins :: "byte list \<Rightarrow> lmq_locks \<Rightarrow> lmq_locks" where
  "push_begins v g =
     (let (p, s) = alloc_payload (Some v) (lk_store g);
          (new_node, s) = alloc_node
             \<lparr>payload_ref = p, next_ref = Some (q_tail (lk_queue g)),
              target_consumers = (if autodrop s then Some (active s) else None)\<rparr> s
      in g\<lparr>lk_store := s, lk_push := Some (new_node, q_last (lk_queue g))\<rparr>)"

text \<open>The mutex of \<open>x\<close> is taken: append there, or let it go and ask for the next one.\<close>

definition push_at :: "nref \<Rightarrow> nref \<Rightarrow> lmq_locks \<Rightarrow> lk_event \<times> lmq_locks" where
  "push_at new_node x g =
     (let q = lk_queue g; s = lk_store g;
          append = (let s = set_next x (Some new_node) s in
            (LkPushed, g\<lparr>lk_queue := q\<lparr>q_last := new_node\<rparr>, lk_push := None,
               lk_store := s\<lparr>notified := (notified s)(q_notify q := Suc (notified s (q_notify q)))\<rparr>\<rparr>))
      in case nxt s x of
           None \<Rightarrow> append
         | Some n \<Rightarrow> if n = q_tail q then append else (LkSilent, g\<lparr>lk_push := Some (new_node, n)\<rparr>))"

section \<open>\<open>try_next\<close>\<close>

text \<open>One turn of the loop with the mutexes of the current node and of \<open>n\<close>.\<close>

definition prune_turn ::
  "nat \<Rightarrow> message_consumer \<Rightarrow> bool \<Rightarrow> nref \<Rightarrow> lmq_locks \<Rightarrow> lk_event \<times> lmq_locks" where
  "prune_turn i c current_is_claimed n g =
     (let s = lk_store g; cur = mc_current c in
      if \<not> is_claimed s (nodes s n) \<or> nxt s n = None then
        (let s = set_next cur (Some n) s; g = g\<lparr>lk_store := s\<rparr> in
         if nxt s n \<noteq> None
         then (LkDelivered i (read_message s (nodes s n)),
               (set_consumer i (c\<lparr>mc_current := n\<rparr>) Resting g)\<lparr>lk_held := lk_held g @ [nodes s n]\<rparr>)
         else (LkNothing i, set_consumer i c Resting g))
      else
        (let new_next = nxt s n;
             s = (case new_next of Some nn \<Rightarrow> set_next cur (Some nn) s | None \<Rightarrow> s);
             s = (if \<not> current_is_claimed then set_next n (Some cur) s else s)
         in (LkSilent, set_consumer i c (Pruning current_is_claimed new_next) (g\<lparr>lk_store := s\<rparr>))))"

definition next_turn :: "nat \<Rightarrow> message_consumer \<Rightarrow> phase \<Rightarrow> lmq_locks \<Rightarrow> (lk_event \<times> lmq_locks) option" where
  "next_turn i c ph g =
     (let s = lk_store g; cur = mc_current c in
      case ph of
        Locking \<Rightarrow> if node_locked g cur then None else Some (LkSilent, set_consumer i c Checking g)
      | Checking \<Rightarrow>
          if autodrop s \<and> payload_locked g (payload_ref (nodes s cur)) then None
          else Some (LkSilent, set_consumer i c Guarding
            (g\<lparr>lk_store := if autodrop s then check_should_now_autodrop (mc_id c) cur s else s\<rparr>))
      | Guarding \<Rightarrow>
          if payload_locked g (payload_ref (nodes s cur)) then None
          else Some (LkSilent, set_consumer i c (Pruning (is_claimed s (nodes s cur)) (nxt s cur)) g)
      | Pruning cl None \<Rightarrow> Some (LkNothing i, set_consumer i c Resting g)
      | Pruning cl (Some n) \<Rightarrow>
          if node_locked g n \<or> payload_locked g (payload_ref (nodes s n)) then None
          else Some (prune_turn i c cl n g)
      | _ \<Rightarrow> None)"

section \<open>The system\<close>

definition drop_begins :: "nat \<Rightarrow> message_consumer \<Rightarrow> lmq_locks \<Rightarrow> lk_event \<times> lmq_locks" where
  "drop_begins i c g =
     (let s = lk_store g in
      if autodrop s
      then (LkSilent, set_consumer i c Leaving (g\<lparr>lk_store := s\<lparr>active := hm_remove (mc_id c) (active s)\<rparr>\<rparr>))
      else (LkDropped i, set_consumer i c Gone g))"

definition drop_ends :: "nat \<Rightarrow> message_consumer \<Rightarrow> lmq_locks \<Rightarrow> lk_event \<times> lmq_locks" where
  "drop_ends i c g =
     (let s = check_should_now_autodrop (mc_id c) (mc_current c) (lk_store g)
      in (LkDropped i, set_consumer i c Gone (g\<lparr>lk_store := s\<lparr>live := (live s)(mc_tracker c := False)\<rparr>\<rparr>)))"

definition lk_at :: "lmq_locks \<Rightarrow> nat \<Rightarrow> (message_consumer \<times> phase) option" where
  "lk_at g i = (if i < length (lk_consumers g) then Some (lk_consumers g ! i) else None)"

text \<open>\<open>push\<close> needs the queue for itself (\<open>&mut self\<close>): no consumer is created meanwhile.\<close>

fun lk_step :: "lk_op \<Rightarrow> lmq_locks \<Rightarrow> (lk_event \<times> lmq_locks) option" where
  "lk_step (CallPush v) g = (if lk_push g = None then Some (LkSilent, push_begins v g) else None)"
| "lk_step StepPush g =
     (case lk_push g of
        Some (new_node, x) \<Rightarrow> if node_locked g x then None else Some (push_at new_node x g)
      | None \<Rightarrow> None)"
| "lk_step (CallNew cid) g =
     (if lk_push g = None then
        (case create_consumer cid (lk_queue g) (lk_store g) of
           (c, s) \<Rightarrow> Some (LkCreated, g\<lparr>lk_store := s, lk_consumers := lk_consumers g @ [(c, Resting)]\<rparr>))
      else None)"
| "lk_step (CallNext i) g =
     (case lk_at g i of
        Some (c, Resting) \<Rightarrow> Some (LkSilent, set_consumer i c Locking g)
      | _ \<Rightarrow> None)"
| "lk_step (StepNext i) g = (case lk_at g i of Some (c, ph) \<Rightarrow> next_turn i c ph g | None \<Rightarrow> None)"
| "lk_step (CallClaim k) g =
     (if k < length (lk_held g) \<and> \<not> payload_locked g (payload_ref (lk_held g ! k)) then
        (case claim (lk_held g ! k) (lk_store g) of (v, s) \<Rightarrow> Some (LkClaimed k v, g\<lparr>lk_store := s\<rparr>))
      else None)"
| "lk_step (CallDrop i) g =
     (case lk_at g i of Some (c, Resting) \<Rightarrow> Some (drop_begins i c g) | _ \<Rightarrow> None)"
| "lk_step (StepDrop i) g =
     (case lk_at g i of
        Some (c, Leaving) \<Rightarrow>
          if node_locked g (mc_current c) \<or>
             payload_locked g (payload_ref (nodes (lk_store g) (mc_current c))) then None
          else Some (drop_ends i c g)
      | _ \<Rightarrow> None)"

definition lk_start :: "bool \<Rightarrow> lmq_locks" where
  "lk_start ad =
     (case lmq_new (empty_store ad) of
        (q, s) \<Rightarrow> \<lparr>lk_queue = q, lk_store = s, lk_push = None, lk_consumers = [], lk_held = []\<rparr>)"

section \<open>The invariant\<close>

definition push_ok :: "lmq_locks \<Rightarrow> bool" where
  "push_ok g \<longleftrightarrow>
     (case lk_push g of
        None \<Rightarrow> True
      | Some (new_node, x) \<Rightarrow>
          new_node < node_count (lk_store g) \<and> nxt (lk_store g) new_node = Some (q_tail (lk_queue g)) \<and>
          (\<forall>y. nxt (lk_store g) y \<noteq> Some new_node) \<and> new_node \<noteq> x \<and> x \<noteq> q_tail (lk_queue g) \<and>
          x < node_count (lk_store g) \<and> ends_at (nxt (lk_store g)) x (q_tail (lk_queue g)) \<and>
          (\<forall>c ph. (c, ph) \<in> set (lk_consumers g) \<longrightarrow> mc_current c \<noteq> new_node))"

definition phase_ok :: "lmq_store \<Rightarrow> message_consumer \<Rightarrow> phase \<Rightarrow> bool" where
  "phase_ok s c ph \<longleftrightarrow> (case ph of Pruning cl n \<Rightarrow> n = nxt s (mc_current c) | _ \<Rightarrow> True)"

definition exclusive :: "(message_consumer \<times> phase) list \<Rightarrow> bool" where
  "exclusive cs \<longleftrightarrow>
     (\<forall>i j. i < length cs \<and> j < length cs \<and> i \<noteq> j \<and> holds_node (snd (cs ! i)) \<and> holds_node (snd (cs ! j)) \<longrightarrow>
        mc_current (fst (cs ! i)) \<noteq> mc_current (fst (cs ! j)))"

definition lk_ok :: "lmq_locks \<Rightarrow> bool" where
  "lk_ok g \<longleftrightarrow>
     store_ok (lk_store g) \<and> queue_ok (lk_store g) (lk_queue g) \<and> push_ok g \<and> exclusive (lk_consumers g) \<and>
     (\<forall>c ph. (c, ph) \<in> set (lk_consumers g) \<longrightarrow>
        consumer_ok (lk_queue g) (lk_store g) c \<and> phase_ok (lk_store g) c ph) \<and>
     (\<forall>m \<in> set (lk_held g). message_ok (lk_store g) m)"

end
