(* ===== verification/Lmq_Locks_Props.thy ===== *)
theory Lmq_Locks_Props
  imports Lmq_Locks
begin

text \<open>
  The queue under any interleaving of its threads at the granularity of its locks: the pointer
  invariant survives every step, some thread can always go on (no deadlock), and every call ends.
\<close>

section \<open>Pointers and locks\<close>

text \<open>Linking the node \<open>n\<close> in between \<open>l\<close> and the tail.\<close>

lemma insert_ends_at:
  assumes "f l = Some t" and "f t = None" and "f n = Some t" and "n \<noteq> l" and "ends_at f x u"
  shows "ends_at (f(l := Some n)) x u"
  using assms(5)
proof (induction rule: ends_at_induct)
  case terminal
  from assms(5) have "f u = None" by (rule ends_at_None)
  with assms(1) have "(f(l := Some n)) u = None" by auto
  then show ?case by (rule ends_at_self)
next
  case (step x z)
  show ?case
  proof (cases "x = l")
    case True
    have "ends_at f l t" using assms(1,2) by (blast intro: ends_at_step ends_at_self)
    with step True have "u = t" by (blast intro: ends_at_step dest: ends_at_unique)
    have "(f(l := Some n)) t = None" using assms(1,2) by auto
    then have "ends_at (f(l := Some n)) t t" by (rule ends_at_self)
    then have "ends_at (f(l := Some n)) n t" using assms(3,4) by (auto intro: ends_at_step)
    then have "ends_at (f(l := Some n)) l t" by (rule ends_at_step [rotated]) simp
    with True \<open>u = t\<close> show ?thesis by (simp only:)
  qed (use step in \<open>auto intro: ends_at_step\<close>)
qed

lemma insert_keeps_ends:
  assumes "store_ok s" and "nxt s l = Some t" and "nxt s t = None" and "nxt s n = Some t" and "n \<noteq> l"
  shows "keeps_ends ((nxt s)(l := Some n)) s"
  using insert_ends_at [where f = "nxt s"] store_okD(2,3) [OF assms(1)] assms
  by (auto simp: keeps_ends_def split: if_splits)

lemma lk_at_Some:
  "lk_at g i = Some (c, ph) \<longleftrightarrow> i < length (lk_consumers g) \<and> lk_consumers g ! i = (c, ph)"
  by (auto simp: lk_at_def)

lemma lk_at_set: "lk_at g i = Some (c, ph) \<Longrightarrow> (c, ph) \<in> set (lk_consumers g)"
  unfolding lk_at_Some by (metis nth_mem)

lemma node_locked_iff:
  "node_locked g x \<longleftrightarrow> (\<exists>c ph. (c, ph) \<in> set (lk_consumers g) \<and> holds_node ph \<and> mc_current c = x)"
  by (auto simp: node_locked_def list_ex_iff)

lemma payload_locked_iff:
  "payload_locked g r \<longleftrightarrow> (\<exists>c ph. (c, ph) \<in> set (lk_consumers g) \<and> holds_payload ph \<and>
     payload_ref (nodes (lk_store g) (mc_current c)) = r)"
  by (auto simp: payload_locked_def list_ex_iff)

lemma holds_payload_node: "holds_payload ph \<Longrightarrow> holds_node ph"
  by (cases ph) auto

lemma exclusive_update:
  assumes "exclusive cs" and "i < length cs"
    and "holds_node ph \<Longrightarrow> (\<And>j. j < length cs \<Longrightarrow> j \<noteq> i \<Longrightarrow> holds_node (snd (cs ! j)) \<Longrightarrow>
           mc_current (fst (cs ! j)) \<noteq> mc_current c)"
  shows "exclusive (cs[i := (c, ph)])"
  using assms unfolding exclusive_def by (auto simp: nth_list_update) metis

lemma exclusive_keep:
  "exclusive (lk_consumers g) \<Longrightarrow> lk_at g i = Some (c, ph) \<Longrightarrow> (holds_node ph' \<Longrightarrow> holds_node ph) \<Longrightarrow>
   exclusive ((lk_consumers g)[i := (c, ph')])"
  by (intro exclusive_update) (force simp: lk_at_Some exclusive_def)+

lemma exclusive_unlock:
  "exclusive (lk_consumers g) \<Longrightarrow> lk_at g i = Some (c, ph) \<Longrightarrow> \<not> holds_node ph' \<Longrightarrow>
   exclusive ((lk_consumers g)[i := (c', ph')])"
  by (intro exclusive_update) (auto simp: lk_at_Some)

lemma exclusive_lock:
  "exclusive (lk_consumers g) \<Longrightarrow> lk_at g i = Some (c, ph) \<Longrightarrow> \<not> node_locked g (mc_current c) \<Longrightarrow>
   exclusive ((lk_consumers g)[i := (c, ph')])"
  by (rule exclusive_update) (auto simp: lk_at_Some node_locked_iff dest: nth_mem)

section \<open>The invariant\<close>

lemma lk_okD:
  assumes "lk_ok g"
  shows "store_ok (lk_store g)" and "queue_ok (lk_store g) (lk_queue g)" and "push_ok g"
    and "exclusive (lk_consumers g)"
    and "(c, ph) \<in> set (lk_consumers g) \<Longrightarrow> consumer_ok (lk_queue g) (lk_store g) c"
    and "(c, ph) \<in> set (lk_consumers g) \<Longrightarrow> phase_ok (lk_store g) c ph"
    and "m \<in> set (lk_held g) \<Longrightarrow> message_ok (lk_store g) m"
  using assms by (auto simp: lk_ok_def)

lemma phase_ok_nxt: "nxt s (mc_current c) = nxt s' (mc_current c) \<Longrightarrow> phase_ok s c ph = phase_ok s' c ph"
  by (simp add: phase_ok_def split: phase.splits)

lemma phase_ok_Resting [simp]: "phase_ok s c Resting"
  by (simp add: phase_ok_def)

text \<open>A step that changes the store in a way the graph invariants survive.\<close>

definition pushing :: "lmq_locks \<Rightarrow> nref \<Rightarrow> bool" where
  "pushing g n \<longleftrightarrow> (\<exists>x. lk_push g = Some (n, x))"

definition store_steps :: "lmq_locks \<Rightarrow> lmq_store \<Rightarrow> bool" where
  "store_steps g s \<longleftrightarrow>
     store_ok s \<and> queue_ok s (lk_queue g) \<and> node_count s = node_count (lk_store g) \<and>
     (\<forall>c. consumer_ok (lk_queue g) (lk_store g) c \<longrightarrow> consumer_ok (lk_queue g) s c) \<and>
     (\<forall>m. message_ok (lk_store g) m \<longrightarrow> message_ok s m) \<and>
     (\<forall>x t. ends_at (nxt (lk_store g)) x t \<longrightarrow> ends_at (nxt s) x t) \<and>
     (\<forall>n. pushing g n \<longrightarrow> nxt s n = nxt (lk_store g) n \<and> (\<forall>y. nxt s y \<noteq> Some n))"

lemma same_shape_steps:
  assumes "lk_ok g" and "same_shape (lk_store g) s"
  shows "store_steps g s"
  using lk_okD(1-3) [OF assms(1)] assms(2)
  by (auto simp: store_steps_def same_shape_store_ok same_shape_queue_ok same_shape_consumer_ok
      same_shape_message_ok same_shapeD push_ok_def pushing_def split: option.splits)

lemma keeps_ends_steps:
  assumes "lk_ok g" and "keeps_ends f (lk_store g)"
    and "\<And>n. pushing g n \<Longrightarrow> f n = nxt (lk_store g) n \<and> (\<forall>y. f y \<noteq> Some n)"
  shows "store_steps g (with_next f (lk_store g))"
  using lk_okD(1-3) [OF assms(1)] assms(2,3)
  by (auto simp: store_steps_def with_next_store_ok with_next_queue_ok with_next_consumer_ok
      with_next_message_ok)
    (simp add: keeps_ends_def)

lemma steps_lk_ok:
  assumes g: "lk_ok g" and s: "store_steps g s" and ex: "exclusive cs"
    and cs: "\<And>c ph. (c, ph) \<in> set cs \<Longrightarrow>
      consumer_ok (lk_queue g) s c \<and> phase_ok s c ph \<and> \<not> pushing g (mc_current c)"
    and ms: "\<And>m. m \<in> set ms \<Longrightarrow> m \<in> set (lk_held g) \<or> message_ok s m"
  shows "lk_ok (g\<lparr>lk_store := s, lk_consumers := cs, lk_held := ms\<rparr>)"
proof -
  have "push_ok (g\<lparr>lk_store := s, lk_consumers := cs, lk_held := ms\<rparr>)"
    using lk_okD(3) [OF g] s cs
    by (auto simp: push_ok_def store_steps_def pushing_def split: option.splits)
  then show ?thesis
    using g s ex cs ms by (simp add: lk_ok_def store_steps_def) blast
qed


section \<open>Every step keeps the invariant\<close>

text \<open>A delivered message is readable when it is delivered.\<close>

definition lk_readable :: "lk_event \<Rightarrow> bool" where
  "lk_readable ev \<longleftrightarrow> (case ev of LkDelivered i v \<Rightarrow> v \<noteq> None | _ \<Rightarrow> True)"

lemma pushing_free:
  assumes "lk_ok g" and "(c, ph) \<in> set (lk_consumers g)"
  shows "\<not> pushing g (mc_current c)"
proof
  assume "pushing g (mc_current c)"
  then obtain x where "lk_push g = Some (mc_current c, x)" by (auto simp: pushing_def)
  with lk_okD(3) [OF assms(1)] assms(2) show False by (auto simp: push_ok_def)
qed

text \<open>A thread that changes its phase and what its node points to nobody else relies on.\<close>

lemma turn_lk_ok:
  assumes g: "lk_ok g" and i: "lk_at g i = Some (c, ph)" and s: "store_steps g s"
    and held: "\<And>x. node_locked g x \<Longrightarrow> x \<noteq> mc_current c \<Longrightarrow> nxt s x = nxt (lk_store g) x"
    and ex: "exclusive ((lk_consumers g)[i := (c', ph')])"
    and own: "consumer_ok (lk_queue g) s c'" "phase_ok s c' ph'" "\<not> pushing g (mc_current c')"
    and lock: "nxt s (mc_current c) = nxt (lk_store g) (mc_current c) \<or> holds_node ph"
    and ms: "\<And>m. m \<in> set ms \<Longrightarrow> m \<in> set (lk_held g) \<or> message_ok s m"
  shows "lk_ok (g\<lparr>lk_store := s, lk_consumers := (lk_consumers g)[i := (c', ph')], lk_held := ms\<rparr>)"
proof (rule steps_lk_ok [OF g s ex _ ms])
  fix d p assume "(d, p) \<in> set ((lk_consumers g)[i := (c', ph')])"
  then obtain j where j: "j < length (lk_consumers g)" "(lk_consumers g)[i := (c', ph')] ! j = (d, p)"
    by (auto simp: in_set_conv_nth)
  show "consumer_ok (lk_queue g) s d \<and> phase_ok s d p \<and> \<not> pushing g (mc_current d)"
  proof (cases "j = i")
    case True
    with j own show ?thesis by simp
  next
    case False
    with j have d: "(d, p) \<in> set (lk_consumers g)" by (metis nth_list_update_neq nth_mem)
    have "phase_ok s d p"
    proof (cases "holds_node p")
      case True
      have "node_locked g (mc_current d)" using d True by (auto simp: node_locked_iff)
      moreover have "mc_current d \<noteq> mc_current c \<or> \<not> holds_node ph"
        using lk_okD(4) [OF g] i j False True by (force simp: exclusive_def lk_at_Some)
      ultimately have "nxt s (mc_current d) = nxt (lk_store g) (mc_current d)"
        using held lock by metis
      then show ?thesis using lk_okD(6) [OF g d] by (simp add: phase_ok_def split: phase.splits)
    qed (auto simp: phase_ok_def split: phase.splits)
    then show ?thesis
      using d s lk_okD(5) [OF g d] pushing_free [OF g d] by (auto simp: store_steps_def)
  qed
qed

lemma lk_simps [simp]:
  "lk_store (set_consumer i c ph g) = lk_store g" "lk_push (set_consumer i c ph g) = lk_push g"
  "lk_queue (set_consumer i c ph g) = lk_queue g" "lk_held (set_consumer i c ph g) = lk_held g"
  "lk_consumers (set_consumer i c ph g) = (lk_consumers g)[i := (c, ph)]"
  by (simp_all add: set_consumer_def)

text \<open>Steps that leave every pointer.\<close>

lemma quiet_lk_ok:
  assumes g: "lk_ok g" and i: "lk_at g i = Some (c, ph)" and s: "same_shape (lk_store g) s"
    and ex: "exclusive ((lk_consumers g)[i := (c, ph')])" and ph: "phase_ok s c ph'"
  shows "lk_ok (set_consumer i c ph' (g\<lparr>lk_store := s\<rparr>))"
proof -
  note st = same_shape_steps [OF g s] and c = lk_okD(5) [OF g lk_at_set [OF i]]
  have "lk_ok (g\<lparr>lk_store := s, lk_consumers := (lk_consumers g)[i := (c, ph')], lk_held := lk_held g\<rparr>)"
    using st c pushing_free [OF g lk_at_set [OF i]] ph same_shapeD(1) [OF s]
    by (intro turn_lk_ok [OF g i st _ ex]) (auto simp: store_steps_def)
  then show ?thesis by (simp add: set_consumer_def)
qed

lemma quiet_phase:
  "lk_ok g \<Longrightarrow> lk_at g i = Some (c, ph) \<Longrightarrow> exclusive ((lk_consumers g)[i := (c, ph')]) \<Longrightarrow>
   phase_ok (lk_store g) c ph' \<Longrightarrow> lk_ok (set_consumer i c ph' g)"
  using quiet_lk_ok [of g i c ph "lk_store g" ph'] by simp


lemma lk_next_free:
  assumes "lk_ok g" and "pushing g m"
  shows "nxt (lk_store g) x \<noteq> Some m"
  using lk_okD(3) [OF assms(1)] assms(2) by (auto simp: push_ok_def pushing_def)

lemma next_other: "store_ok s \<Longrightarrow> nxt s x = Some n \<Longrightarrow> n \<noteq> x"
proof
  assume "store_ok s" "nxt s x = Some n" "n = x"
  moreover from this obtain as t where "chain (nxt s) x as t" "nxt s t = None"
    using store_okD(1) by (metis ends_atE)
  moreover from calculation have "chain (nxt s) x (x # as) t" by simp
  ultimately show False by (metis chain_unique not_Cons_self)
qed

text \<open>A turn of the loop, with what the consumer remembers of its node true.\<close>

lemma prune_turn_eq:
  assumes "nxt (lk_store g) (mc_current c) = Some n" and "n \<noteq> mc_current c"
  shows "prune_turn i c cl n g =
    (if is_claimed (lk_store g) (nodes (lk_store g) n) \<and> nxt (lk_store g) n \<noteq> None then
       (LkSilent, set_consumer i c (Pruning cl (nxt (lk_store g) n))
          (g\<lparr>lk_store := with_next (redirect (nxt (lk_store g)) (mc_current c) cl [n]
             (the (nxt (lk_store g) n))) (lk_store g)\<rparr>))
     else if nxt (lk_store g) n \<noteq> None then
       (LkDelivered i (read_message (lk_store g) (nodes (lk_store g) n)),
        (set_consumer i (c\<lparr>mc_current := n\<rparr>) Resting g)
          \<lparr>lk_held := lk_held g @ [nodes (lk_store g) n]\<rparr>)
     else (LkNothing i, set_consumer i c Resting g))"
proof -
  let ?s = "lk_store g" and ?cur = "mc_current c"
  have same: "set_next ?cur (Some n) ?s = ?s"
    using assms fun_upd_triv [of "nxt ?s" ?cur] by (simp add: set_next_conv)
  have "set_next n (Some ?cur) (set_next ?cur (Some nn) ?s) = with_next (redirect (nxt ?s) ?cur False [n] nn) ?s"
    if "n \<noteq> ?cur" for nn
    using that by (auto simp: set_next_conv redirect_def intro!: arg_cong [where f = "\<lambda>f. with_next f ?s"])
  moreover have "set_next ?cur (Some nn) ?s = with_next (redirect (nxt ?s) ?cur True [n] nn) ?s" for nn
    by (auto simp: set_next_conv redirect_def intro!: arg_cong [where f = "\<lambda>f. with_next f ?s"])
  ultimately show ?thesis
    using same assms by (cases cl; cases "nxt ?s n") (auto simp: prune_turn_def Let_def)
qed


lemma turn_chain:
  assumes "lk_ok g" and "lk_at g i = Some (c, Pruning cl (Some n))" and "nxt (lk_store g) n = Some nn"
  shows "chain (nxt (lk_store g)) (mc_current c) (mc_current c # [n]) nn"
  using lk_okD(6) [OF assms(1) lk_at_set [OF assms(2)]] assms(3) by (simp add: phase_ok_def)

lemma prune_turn_lk_ok:
  assumes g: "lk_ok g" and i: "lk_at g i = Some (c, Pruning cl (Some n))" and free: "\<not> node_locked g n"
  shows "lk_ok (snd (prune_turn i c cl n g)) \<and> lk_readable (fst (prune_turn i c cl n g))"
proof -
  let ?s = "lk_store g" and ?cur = "mc_current c" and ?q = "lk_queue g"
  note ok = lk_okD(1) [OF g] and c = lk_okD(5) [OF g lk_at_set [OF i]]
  have cur: "nxt ?s ?cur = Some n" using lk_okD(6) [OF g lk_at_set [OF i]] by (simp add: phase_ok_def)
  have n: "n \<noteq> ?cur" "\<not> pushing g n" "n < node_count ?s"
    using next_other [OF ok cur] lk_next_free [OF g] cur store_okD(3) [OF ok cur] by auto
  note eq = prune_turn_eq [OF cur n(1)]
  show ?thesis
  proof (cases "nxt ?s n")
    case None
    with eq have "prune_turn i c cl n g = (LkNothing i, set_consumer i c Resting g)" by simp
    moreover have "lk_ok (set_consumer i c Resting g)"
      using lk_okD(4) [OF g] i by (intro quiet_phase [OF g i] exclusive_unlock) (auto simp: phase_ok_def)
    ultimately show ?thesis by (simp add: lk_readable_def)
  next
    case (Some nn)
    show ?thesis
    proof (cases "is_claimed ?s (nodes ?s n)")
      case True
      let ?f = "redirect (nxt ?s) ?cur cl [n] nn"
      have keeps: "keeps_ends ?f ?s" by (rule redirect_keeps_ends [OF ok turn_chain [OF g i Some]])
      have "store_steps g (with_next ?f ?s)"
        using n lk_next_free [OF g] pushing_free [OF g lk_at_set [OF i]] Some
        by (intro keeps_ends_steps [OF g keeps]) (auto simp: redirect_def)
      moreover have "exclusive ((lk_consumers g)[i := (c, Pruning cl (Some nn))])"
        using lk_okD(4) [OF g] i by (intro exclusive_keep) auto
      ultimately have "lk_ok (g\<lparr>lk_store := with_next ?f ?s,
          lk_consumers := (lk_consumers g)[i := (c, Pruning cl (Some nn))], lk_held := lk_held g\<rparr>)"
        using free c pushing_free [OF g lk_at_set [OF i]]
        by (intro turn_lk_ok [OF g i]) (auto simp: store_steps_def phase_ok_def redirect_def)
      with eq Some True show ?thesis by (simp add: lk_readable_def set_consumer_def)
    next
      case False
      let ?c = "c\<lparr>mc_current := n\<rparr>"
      have ends: "ends_at (nxt ?s) n (q_tail ?q)"
        using store_okD(1) [OF ok, of n] c cur
        by (metis consumer_ok_def ends_at_step ends_at_unique)
      then have "consumer_ok ?q ?s ?c"
        using c n Some by (auto simp: consumer_ok_def dest: ends_at_None)
      moreover have "message_ok ?s (nodes ?s n)" using n Some by (auto simp: message_ok_def)
      moreover have "exclusive ((lk_consumers g)[i := (?c, Resting)])"
        using lk_okD(4) [OF g] i by (intro exclusive_unlock) auto
      ultimately have "lk_ok (g\<lparr>lk_store := ?s, lk_consumers := (lk_consumers g)[i := (?c, Resting)],
          lk_held := lk_held g @ [nodes ?s n]\<rparr>)"
        using n same_shape_steps [OF g] by (intro turn_lk_ok [OF g i]) (auto simp: phase_ok_def)
      moreover have "read_message ?s (nodes ?s n) \<noteq> None"
        using False by (auto simp: is_claimed_def read_message_def split: option.splits)
      ultimately show ?thesis
        using eq Some False by (simp add: lk_readable_def set_consumer_def)
    qed
  qed
qed

lemma next_turn_lk_ok:
  assumes g: "lk_ok g" and i: "lk_at g i = Some (c, ph)" and t: "next_turn i c ph g = Some (ev, g')"
  shows "lk_ok g' \<and> lk_readable ev"
proof (cases ph)
  case Locking
  with t i show ?thesis
    by (auto simp: next_turn_def lk_readable_def phase_ok_def split: if_splits
        intro!: quiet_phase [OF g i] exclusive_lock lk_okD(4) [OF g])
next
  case Checking
  let ?s = "if autodrop (lk_store g) then check_should_now_autodrop (mc_id c) (mc_current c) (lk_store g)
            else lk_store g"
  have "lk_ok (set_consumer i c Guarding (g\<lparr>lk_store := ?s\<rparr>))"
    using check_same_shape i Checking
    by (intro quiet_lk_ok [OF g i] exclusive_keep lk_okD(4) [OF g]) (auto simp: phase_ok_def)
  with t Checking show ?thesis by (auto simp: next_turn_def Let_def lk_readable_def split: if_splits)
next
  case Guarding
  with t i show ?thesis
    by (auto simp: next_turn_def lk_readable_def phase_ok_def Let_def split: if_splits
        intro!: quiet_phase [OF g i] exclusive_keep lk_okD(4) [OF g])
next
  case (Pruning cl n)
  show ?thesis
  proof (cases n)
    case None
    with t i Pruning show ?thesis
      by (auto simp: next_turn_def lk_readable_def phase_ok_def
          intro!: quiet_phase [OF g i] exclusive_unlock lk_okD(4) [OF g])
  next
    case (Some m)
    with t i Pruning prune_turn_lk_ok [OF g, of i c cl m] show ?thesis
      by (auto simp: next_turn_def split: if_splits)
  qed
qed (use t in \<open>auto simp: next_turn_def\<close>)


section \<open>\<open>push\<close> step by step\<close>

text \<open>The store with the new node, which nothing points to yet.\<close>

definition with_node :: "byte list \<Rightarrow> nref \<Rightarrow> lmq_store \<Rightarrow> lmq_store" where
  "with_node v t s =
     s\<lparr>payloads := (payloads s)(payload_count s := Some v), payload_count := Suc (payload_count s),
       nodes := (nodes s)(node_count s :=
         \<lparr>payload_ref = payload_count s, next_ref = Some t,
          target_consumers = (if autodrop s then Some (active s) else None)\<rparr>),
       node_count := Suc (node_count s)\<rparr>"

lemma push_begins_eq:
  "push_begins v g =
     g\<lparr>lk_store := with_node v (q_tail (lk_queue g)) (lk_store g),
       lk_push := Some (node_count (lk_store g), q_last (lk_queue g))\<rparr>"
  by (simp add: push_begins_def alloc_payload_def alloc_node_def with_node_def Let_def)

lemma with_node_simps [simp]:
  "nxt (with_node v t s) = (nxt s)(node_count s := Some t)"
  "node_count (with_node v t s) = Suc (node_count s)"
  "payload_count (with_node v t s) = Suc (payload_count s)"
  "payloads (with_node v t s) = (payloads s)(payload_count s := Some v)"
  "payload_ref (nodes (with_node v t s) x) =
     (if x = node_count s then payload_count s else payload_ref (nodes s x))"
  by (auto simp: with_node_def nxt_def fun_eq_iff)

lemma with_node_ends_at:
  assumes s: "store_ok s" and t: "nxt s t = None" "t < node_count s"
    and x: "ends_at (nxt s) x u" "x < node_count s"
  shows "ends_at ((nxt s)(node_count s := Some t)) x u"
  using x
proof (induction rule: ends_at_induct)
  case terminal
  have "u < node_count s" using ends_at_allocated [OF s x] .
  with x(1) have "((nxt s)(node_count s := Some t)) u = None" by (auto dest: ends_at_None)
  then show ?case by (rule ends_at_self)
next
  case (step x z)
  then have "z < node_count s" using store_okD(3) [OF s] by blast
  with step show ?case by (intro ends_at_step [of _ x z]) auto
qed

lemma with_node_new:
  assumes s: "store_ok s" and t: "nxt s t = None" "t < node_count s"
  shows "ends_at ((nxt s)(node_count s := Some t)) (node_count s) t"
  using with_node_ends_at [OF s t ends_at_self t(2)] t(1) by (auto intro: ends_at_step)

lemma with_node_claimed:
  assumes "store_ok s" and "x < node_count s"
  shows "is_claimed (with_node v t s) (nodes (with_node v t s) x) = is_claimed s (nodes s x)"
  using assms store_okD(4) [OF assms(1), of x] by (simp add: is_claimed_def)

lemma with_node_store_ok:
  assumes s: "store_ok s" and t: "nxt s t = None" "t < node_count s"
  shows "store_ok (with_node v t s)"
proof -
  let ?s = "with_node v t s" and ?n = "node_count s"
  have "\<exists>u. ends_at (nxt ?s) x u" for x
  proof -
    consider "x < ?n" | "x = ?n" | "x > ?n" by linarith
    then show ?thesis
    proof cases
      case 1
      then show ?thesis using with_node_ends_at [OF s t] store_okD(1) [OF s, of x] by auto
    next
      case 2
      then show ?thesis using with_node_new [OF s t] by auto
    next
      case 3
      then have "nxt ?s x = None" using fresh_nxt [OF s, of x] by simp
      then show ?thesis by (blast intro: ends_at_self)
    qed
  qed
  moreover have "x < Suc ?n \<and> z < Suc ?n" if "nxt ?s x = Some z" for x z
    using that t store_okD(2,3) [OF s] by (fastforce simp: less_Suc_eq split: if_splits)
  moreover have "payload_ref (nodes ?s x) < Suc (payload_count s)" if "x < Suc ?n" for x
    using that store_okD(4) [OF s] by (auto simp: less_Suc_eq)
  moreover have "x = y"
    if "x < Suc ?n" "y < Suc ?n" "payload_ref (nodes ?s x) = payload_ref (nodes ?s y)" for x y
    using that store_okD(4,5) [OF s] by (fastforce simp: less_Suc_eq split: if_splits)
  moreover have "is_claimed ?s (nodes ?s x)" if "x < Suc ?n" "nxt ?s x = None" for x
    using that store_okD(6) [OF s, of x] with_node_claimed [OF s, of x] by (simp add: less_Suc_eq split: if_splits)
  ultimately show ?thesis unfolding store_ok_def with_node_simps(2,3) by blast
qed

lemma with_node_queue_ok:
  assumes s: "store_ok s" and t: "nxt s t = None" "t < node_count s" and "q_tail q = t" "queue_ok s q"
  shows "queue_ok (with_node v t s) q"
  using assms(4,5) with_node_ends_at [OF s t] with_node_claimed [OF s] by (auto simp: queue_ok_def)

lemma with_node_consumer_ok:
  assumes s: "store_ok s" and t: "nxt s t = None" "t < node_count s" and "consumer_ok q s c"
  shows "consumer_ok q (with_node v t s) c"
  using assms(4) with_node_ends_at [OF s t] by (auto simp: consumer_ok_def)

lemma with_node_message_ok:
  assumes "message_ok s m"
  shows "message_ok (with_node v t s) m"
proof -
  from assms obtain x where
    "x < node_count s" "nxt s x \<noteq> None" "payload_ref m = payload_ref (nodes s x)"
    by (auto simp: message_ok_def)
  then show ?thesis unfolding message_ok_def by (intro exI [of _ x]) auto
qed

lemma push_begins_lk_ok:
  assumes g: "lk_ok g" and free: "lk_push g = None"
  shows "lk_ok (push_begins v g)"
proof -
  let ?s = "lk_store g" and ?q = "lk_queue g"
  note ok = lk_okD(1,2) [OF g]
  have t: "nxt ?s (q_tail ?q) = None" "q_tail ?q < node_count ?s"
    using ok(2) queue_ok_tail by (auto simp: queue_ok_def)
  have "phase_ok (with_node v (q_tail ?q) ?s) c ph" if "(c, ph) \<in> set (lk_consumers g)" for c ph
    using lk_okD(5,6) [OF g that] by (auto simp: phase_ok_def consumer_ok_def split: phase.splits)
  moreover have "push_ok (push_begins v g)"
  proof -
    have "nxt ?s y \<noteq> Some (node_count ?s)" for y using store_okD(3) [OF ok(1), of y] by auto
    then show ?thesis
      using ok t lk_okD(5) [OF g] with_node_ends_at [OF ok(1) t]
      by (fastforce simp: push_ok_def push_begins_eq queue_ok_def consumer_ok_def)
  qed
  ultimately show ?thesis
    using with_node_store_ok [OF ok(1) t] with_node_queue_ok [OF ok(1) t refl ok(2)] lk_okD(4) [OF g]
      with_node_consumer_ok [OF ok(1) t] with_node_message_ok lk_okD(5,7) [OF g]
    by (auto simp: lk_ok_def push_begins_eq)
qed


lemma push_at_lk_ok:
  assumes g: "lk_ok g" and p: "lk_push g = Some (n, x)" and free: "\<not> node_locked g x"
  shows "lk_ok (snd (push_at n x g)) \<and> lk_readable (fst (push_at n x g))"
proof -
  let ?s = "lk_store g" and ?q = "lk_queue g"
  let ?t = "q_tail ?q"
  note ok = lk_okD(1,2) [OF g]
  have push: "n < node_count ?s" "nxt ?s n = Some ?t" "\<And>y. nxt ?s y \<noteq> Some n" "n \<noteq> x" "x \<noteq> ?t"
    "x < node_count ?s" "ends_at (nxt ?s) x ?t"
    "\<And>c ph. (c, ph) \<in> set (lk_consumers g) \<Longrightarrow> mc_current c \<noteq> n"
    using lk_okD(3) [OF g] p by (auto simp: push_ok_def)
  obtain m where m: "nxt ?s x = Some m"
    using push(5,7) by (metis ends_at_self ends_at_unique option.exhaust)
  have m_ends: "ends_at (nxt ?s) m ?t"
    using store_okD(1) [OF ok(1), of m] m push(7) by (metis ends_at_step ends_at_unique)
  show ?thesis
  proof (cases "m = ?t")
    case True
    let ?s' = "with_next ((nxt ?s)(x := Some n)) ?s"
    have tail: "nxt ?s ?t = None" using ok(2) by (rule queue_ok_tail)
    have keeps: "keeps_ends ((nxt ?s)(x := Some n)) ?s"
      using insert_keeps_ends [OF ok(1), of x ?t n] m True tail push(2,4) by simp
    let ?s'' = "?s'\<lparr>notified := (notified ?s)(q_notify ?q := Suc (notified ?s (q_notify ?q)))\<rparr>"
    have nx: "nxt ?s'' = (nxt ?s)(x := Some n)" by (simp add: nxt_def with_next_def fun_eq_iff)
    then have same: "same_shape ?s' ?s''" by (simp add: same_shape_def)
    note with_next_store_ok [OF keeps ok(1)] with_next_queue_ok [OF keeps ok(2)]
      with_next_consumer_ok [OF keeps] with_next_message_ok [OF keeps]
    note same_shape_store_ok [OF same this(1)] same_shape_queue_ok [OF same this(2)]
      same_shape_consumer_ok [OF same this(3)] same_shape_message_ok [OF same this(4)]
    moreover have "ends_at (nxt ?s'') n ?t"
      using keeps ends_at_step [OF push(2) ends_at_self [of "nxt ?s", OF tail]]
      unfolding nx keeps_ends_def by blast
    moreover have "phase_ok ?s'' c ph" if "(c, ph) \<in> set (lk_consumers g)" for c ph
    proof (cases "holds_node ph")
      case True
      with free that have "mc_current c \<noteq> x" by (auto simp: node_locked_iff)
      then have "nxt ?s'' (mc_current c) = nxt ?s (mc_current c)" by (simp add: nx)
      then show ?thesis using lk_okD(6) [OF g that] phase_ok_nxt by blast
    qed (auto simp: phase_ok_def split: phase.splits)
    ultimately have "lk_ok (g\<lparr>lk_queue := ?q\<lparr>q_last := n\<rparr>, lk_push := None, lk_store := ?s''\<rparr>)"
      using push lk_okD(4,5,7) [OF g]
      by (auto simp: lk_ok_def queue_ok_def consumer_ok_def push_ok_def)
    with m True show ?thesis by (simp add: push_at_def set_next_conv lk_readable_def Let_def)
  next
    case False
    with push m m_ends store_okD(3) [OF ok(1) m] have "push_ok (g\<lparr>lk_push := Some (n, m)\<rparr>)"
      by (auto simp: push_ok_def)
    then have "lk_ok (g\<lparr>lk_push := Some (n, m)\<rparr>)" using g by (auto simp: lk_ok_def)
    with m False show ?thesis by (simp add: push_at_def lk_readable_def Let_def)
  qed
qed

section \<open>The other calls\<close>

lemma new_consumer_lk_ok:
  assumes g: "lk_ok g" and free: "lk_push g = None" and c: "create_consumer cid (lk_queue g) (lk_store g) = (c, s)"
  shows "lk_ok (g\<lparr>lk_store := s, lk_consumers := lk_consumers g @ [(c, Resting)]\<rparr>)"
proof -
  have same: "same_shape (lk_store g) s"
    using create_consumer_same_shape [of "lk_store g" cid "lk_queue g"] c by simp
  have own: "consumer_ok (lk_queue g) s c"
    using create_consumer_ok [OF lk_okD(2) [OF g], of cid] c by simp
  have "exclusive (lk_consumers g @ [(c, Resting)])"
    using lk_okD(4) [OF g] by (auto simp: exclusive_def nth_append less_Suc_eq)
  then have "lk_ok (g\<lparr>lk_store := s, lk_consumers := lk_consumers g @ [(c, Resting)], lk_held := lk_held g\<rparr>)"
    using own lk_okD(5,6) [OF g] same_shape_consumer_ok [OF same] free
    by (intro steps_lk_ok [OF g same_shape_steps [OF g same]])
      (auto simp: phase_ok_nxt [OF fun_cong [OF same_shapeD(1) [OF same]]] pushing_def)
  then show ?thesis by simp
qed

lemma claim_lk_ok:
  assumes g: "lk_ok g"
  shows "lk_ok (g\<lparr>lk_store := snd (claim m (lk_store g))\<rparr>)"
proof -
  note same = claim_same_shape [of "lk_store g" m]
  have "lk_ok (g\<lparr>lk_store := snd (claim m (lk_store g)), lk_consumers := lk_consumers g, lk_held := lk_held g\<rparr>)"
    using lk_okD(4-6) [OF g] same_shape_consumer_ok [OF same] pushing_free [OF g]
    by (intro steps_lk_ok [OF g same_shape_steps [OF g same]])
      (auto simp: phase_ok_nxt [OF fun_cong [OF same_shapeD(1) [OF same]]])
  then show ?thesis by simp
qed

lemma drop_begins_lk_ok:
  assumes g: "lk_ok g" and i: "lk_at g i = Some (c, Resting)"
  shows "lk_ok (snd (drop_begins i c g))"
proof -
  have ex: "exclusive ((lk_consumers g)[i := (c, ph)])" if "\<not> holds_node ph" for ph
    using that lk_okD(4) [OF g] i by (intro exclusive_unlock)
  show ?thesis
    using quiet_lk_ok [OF g i _ ex] quiet_phase [OF g i ex]
    by (simp add: drop_begins_def Let_def phase_ok_def)
qed

lemma drop_ends_lk_ok:
  assumes g: "lk_ok g" and i: "lk_at g i = Some (c, Leaving)"
  shows "lk_ok (snd (drop_ends i c g))"
proof -
  have ex: "exclusive ((lk_consumers g)[i := (c, Gone)])"
    using lk_okD(4) [OF g] i by (intro exclusive_unlock) auto
  let ?s = "check_should_now_autodrop (mc_id c) (mc_current c) (lk_store g)"
  have "same_shape (lk_store g) (?s\<lparr>live := (live ?s)(mc_tracker c := False)\<rparr>)"
    using check_same_shape consumers_same_shape(2) by (rule same_shape_trans)
  then show ?thesis
    using quiet_lk_ok [OF g i _ ex] by (simp add: drop_ends_def Let_def phase_ok_def)
qed

lemma lk_step_ok:
  assumes g: "lk_ok g" and st: "lk_step x g = Some (ev, g')"
  shows "lk_ok g' \<and> lk_readable ev"
proof (cases x)
  case (CallPush v)
  with st push_begins_lk_ok [OF g] show ?thesis by (auto simp: lk_readable_def split: if_splits)
next
  case StepPush
  with st push_at_lk_ok [OF g] show ?thesis by (fastforce split: option.splits if_splits)
next
  case (CallNew cid)
  with st new_consumer_lk_ok [OF g] show ?thesis by (auto simp: lk_readable_def split: if_splits prod.splits)
next
  case (CallNext i)
  then obtain c where i: "lk_at g i = Some (c, Resting)" and "g' = set_consumer i c Locking g" "ev = LkSilent"
    using st by (auto split: option.splits phase.splits)
  then show ?thesis
    using lk_okD(4) [OF g] quiet_phase [OF g i] exclusive_unlock [OF _ i]
    by (simp add: phase_ok_def lk_readable_def)
next
  case (StepNext i)
  with st next_turn_lk_ok [OF g] show ?thesis by (auto split: option.splits)
next
  case (CallClaim k)
  with st claim_lk_ok [OF g] show ?thesis
    by (auto simp: lk_readable_def split: if_splits prod.splits) (metis snd_conv)
next
  case (CallDrop i)
  then obtain c where i: "lk_at g i = Some (c, Resting)" and "drop_begins i c g = (ev, g')"
    using st by (auto split: option.splits phase.splits)
  with drop_begins_lk_ok [OF g i] show ?thesis
    by (auto simp: drop_begins_def lk_readable_def Let_def split: if_splits)
next
  case (StepDrop i)
  then obtain c where i: "lk_at g i = Some (c, Leaving)" and "drop_ends i c g = (ev, g')"
    using st by (auto split: option.splits phase.splits if_splits)
  with drop_ends_lk_ok [OF g i] show ?thesis by (auto simp: drop_ends_def lk_readable_def Let_def)
qed

lemma lk_ok_start: "lk_ok (lk_start ad)"
  using lmq_new_ok [OF store_ok_empty, of ad]
  by (simp add: lk_start_def lk_ok_def push_ok_def exclusive_def split_def)


interpretation lk: guarded_machine lk_step lk_ok lk_readable
  by standard (rule lk_step_ok)

section \<open>No deadlock\<close>

text \<open>A step of a call that has begun; a call in progress.\<close>

fun internal :: "lk_op \<Rightarrow> bool" where
  "internal StepPush = True"
| "internal (StepNext i) = True"
| "internal (StepDrop i) = True"
| "internal _ = False"

definition busy :: "lmq_locks \<Rightarrow> bool" where
  "busy g \<longleftrightarrow> lk_push g \<noteq> None \<or> list_ex (\<lambda>(c, ph). ph \<noteq> Resting \<and> ph \<noteq> Gone) (lk_consumers g)"

lemma payload_locked_node:
  assumes g: "lk_ok g" and x: "x < node_count (lk_store g)"
    and p: "payload_locked g (payload_ref (nodes (lk_store g) x))"
  shows "\<exists>c cl n. (c, Pruning cl n) \<in> set (lk_consumers g) \<and> mc_current c = x"
proof -
  from p obtain c ph where c: "(c, ph) \<in> set (lk_consumers g)" "holds_payload ph"
    "payload_ref (nodes (lk_store g) (mc_current c)) = payload_ref (nodes (lk_store g) x)"
    by (auto simp: payload_locked_iff)
  moreover have "mc_current c < node_count (lk_store g)"
    using lk_okD(5) [OF g c(1)] by (simp add: consumer_ok_def)
  ultimately have "mc_current c = x" using x store_okD(5) [OF lk_okD(1) [OF g]] by blast
  with c show ?thesis by (cases ph) auto
qed

lemma payload_locked_locked:
  "lk_ok g \<Longrightarrow> x < node_count (lk_store g) \<Longrightarrow> payload_locked g (payload_ref (nodes (lk_store g) x)) \<Longrightarrow>
   node_locked g x"
  using payload_locked_node by (fastforce simp: node_locked_iff)

lemma own_payload_free:
  assumes g: "lk_ok g" and i: "lk_at g i = Some (c, ph)" and ph: "holds_node ph" "\<not> holds_payload ph"
  shows "\<not> payload_locked g (payload_ref (nodes (lk_store g) (mc_current c)))"
proof
  assume "payload_locked g (payload_ref (nodes (lk_store g) (mc_current c)))"
  moreover have "mc_current c < node_count (lk_store g)"
    using lk_okD(5) [OF g lk_at_set [OF i]] by (simp add: consumer_ok_def)
  ultimately obtain d cl n where d: "(d, Pruning cl n) \<in> set (lk_consumers g)" "mc_current d = mc_current c"
    using payload_locked_node [OF g] by blast
  from d(1) obtain j where "j < length (lk_consumers g)" "lk_consumers g ! j = (d, Pruning cl n)"
    by (auto simp: in_set_conv_nth)
  with d(2) i ph lk_okD(4) [OF g] show False
    unfolding exclusive_def lk_at_Some by (metis fst_conv snd_conv holds_node.simps(3) holds_payload.simps(1))
qed

text \<open>Locks are waited for along the \<open>next\<close> pointers only, and these end.\<close>

lemma holder_goes_on:
  assumes g: "lk_ok g" and "node_locked g x"
  shows "\<exists>i. lk_step (StepNext i) g \<noteq> None"
proof -
  let ?s = "lk_store g"
  note ok = lk_okD(1) [OF g]
  obtain t where t: "ends_at (nxt ?s) x t" using store_okD(1) [OF ok] by blast
  then have "node_locked g x \<longrightarrow> (\<exists>i. lk_step (StepNext i) g \<noteq> None)"
  proof (induction rule: ends_at_induct)
    case terminal
    have "nxt ?s t = None" using t by (rule ends_at_None)
    then have "\<not> node_locked g t"
      using lk_okD(5) [OF g] by (fastforce simp: node_locked_iff consumer_ok_def
          dest: ends_at_unique [OF ends_at_self])
    then show ?case by simp
  next
    case (step x z)
    show ?case
    proof
      assume "node_locked g x"
      then obtain c ph where c: "(c, ph) \<in> set (lk_consumers g)" "holds_node ph" "mc_current c = x"
        by (auto simp: node_locked_iff)
      then obtain i where i: "lk_at g i = Some (c, ph)" unfolding lk_at_Some by (auto simp: in_set_conv_nth)
      have z: "z < node_count ?s" using store_okD(3) [OF ok step(1)] .
      show "\<exists>i. lk_step (StepNext i) g \<noteq> None"
      proof (cases "node_locked g z")
        case True
        with step.IH show ?thesis by blast
      next
        case False
        with payload_locked_locked [OF g z] have "\<not> payload_locked g (payload_ref (nodes ?s z))" by blast
        moreover have "phase_ok ?s c ph" by (rule lk_okD(6) [OF g c(1)])
        ultimately have "lk_step (StepNext i) g \<noteq> None"
          using i c step(1) False own_payload_free [OF g i]
          by (cases ph) (auto simp: next_turn_def phase_ok_def Let_def)
        then show ?thesis by blast
      qed
    qed
  qed
  with assms(2) show ?thesis by blast
qed

lemma busy_goes_on:
  assumes g: "lk_ok g" and "busy g"
  shows "\<exists>y. internal y \<and> lk_step y g \<noteq> None"
proof (rule ccontr)
  assume stuck: "\<nexists>y. internal y \<and> lk_step y g \<noteq> None"
  then have none: "\<not> node_locked g x" for x
    using holder_goes_on [OF g, of x] internal.simps(2) by blast
  then have free: "\<not> payload_locked g (payload_ref (nodes (lk_store g) x))" if "x < node_count (lk_store g)" for x
    using payload_locked_locked [OF g that] by blast
  show False
  proof (cases "lk_push g")
    case (Some p)
    then have "lk_step StepPush g \<noteq> None" using none by (auto split: prod.splits)
    with stuck show ?thesis using internal.simps(1) by blast
  next
    case None
    with \<open>busy g\<close> obtain c ph where c: "(c, ph) \<in> set (lk_consumers g)" "ph \<noteq> Resting" "ph \<noteq> Gone"
      by (auto simp: busy_def list_ex_iff)
    then obtain i where i: "lk_at g i = Some (c, ph)" unfolding lk_at_Some by (auto simp: in_set_conv_nth)
    have "mc_current c < node_count (lk_store g)" using lk_okD(5) [OF g c(1)] by (simp add: consumer_ok_def)
    moreover have "\<not> holds_node ph" using none [of "mc_current c"] c(1) by (auto simp: node_locked_iff)
    ultimately have "lk_step (StepNext i) g \<noteq> None \<or> lk_step (StepDrop i) g \<noteq> None"
      using i c none free by (cases ph) (auto simp: next_turn_def)
    with stuck show ?thesis using internal.simps(2,3) by blast
  qed
qed

section \<open>Every call ends\<close>

text \<open>
  \<open>seg f P x\<close>: the nodes one passes from \<open>x\<close> while \<open>P\<close> holds. The turns a \<open>try_next\<close> still has before
  it meets a lock or an unclaimed message are at most those of its own segment.
\<close>

definition seg :: "(nref \<Rightarrow> nref option) \<Rightarrow> (nref \<Rightarrow> bool) \<Rightarrow> nref \<Rightarrow> nref set" where
  "seg f P x = {m. \<exists>as y. chain f x (as @ [m]) y \<and> (\<forall>a \<in> set (as @ [m]). P a)}"

lemma seg_self: "P x \<Longrightarrow> f x = Some z \<Longrightarrow> x \<in> seg f P x"
  unfolding seg_def by (auto intro!: exI [of _ "[]"])

lemma seg_mono_step: "f x = Some z \<Longrightarrow> P x \<Longrightarrow> seg f P z \<subseteq> seg f P x"
proof
  fix m assume "f x = Some z" "P x" "m \<in> seg f P z"
  then obtain as y where "chain f z (as @ [m]) y" "\<forall>a \<in> set (as @ [m]). P a" by (auto simp: seg_def)
  with \<open>f x = Some z\<close> \<open>P x\<close> show "m \<in> seg f P x"
    unfolding seg_def by (auto intro!: exI [of _ "x # as"] exI [of _ y])
qed

lemma seg_dom: "m \<in> seg f P x \<Longrightarrow> f m \<noteq> None"
  unfolding seg_def using chain_dom by fastforce

lemma seg_acyclic:
  assumes "store_ok s" and "nxt s x = Some z"
  shows "x \<notin> seg (nxt s) P z"
proof
  assume "x \<in> seg (nxt s) P z"
  then obtain as y where "chain (nxt s) z (as @ [x]) y" by (auto simp: seg_def)
  with assms(2) have loop: "chain (nxt s) z (as @ [x]) z" by (auto simp: chain_append)
  obtain bs t where bs: "chain (nxt s) z bs t" "nxt s t = None"
    using store_okD(1) [OF assms(1), of z] by (auto elim: ends_atE)
  with loop have "chain (nxt s) z ((as @ [x]) @ bs) t" unfolding chain_append by blast
  with bs have "bs = (as @ [x]) @ bs" by (blast dest: chain_unique)
  then show False by simp
qed

lemma seg_finite: "store_ok s \<Longrightarrow> finite (seg (nxt s) P x) \<and> card (seg (nxt s) P x) \<le> node_count s"
proof -
  assume "store_ok s"
  then have sub: "seg (nxt s) P x \<subseteq> {..<node_count s}"
    using store_okD(2) seg_dom by fastforce
  then show ?thesis using card_mono [OF _ sub] finite_subset [OF sub] by simp
qed

lemma seg_shrinks:
  assumes "store_ok s" and "nxt s x = Some z" and "P x"
  shows "card (seg (nxt s) P z) < card (seg (nxt s) P x)"
proof (rule psubset_card_mono)
  show "finite (seg (nxt s) P x)" using seg_finite [OF assms(1)] by blast
  show "seg (nxt s) P z \<subset> seg (nxt s) P x"
    using seg_mono_step [of "nxt s"] seg_self [of P x "nxt s"] seg_acyclic [OF assms(1,2)] assms by blast
qed

text \<open>Another thread's turn shortens a segment or leaves it: it redirects to a locked node.\<close>

lemma seg_redirect:
  assumes cur: "\<not> P cur" and n: "f n \<noteq> None"
  shows "seg (redirect f cur cl [n] nn) P x \<subseteq> seg f P x"
proof
  let ?f = "redirect f cur cl [n] nn"
  have "m \<in> seg f P x" if "chain ?f x (as @ [m]) y" "\<forall>a \<in> set (as @ [m]). P a" for m as y x
    using that
  proof (induction as arbitrary: x)
    case Nil
    then have "f m \<noteq> None" using cur n by (auto simp: redirect_def split: if_splits)
    then show ?case using Nil by (auto intro: seg_self)
  next
    case (Cons b as)
    then obtain z where z: "?f b = Some z" "chain ?f z (as @ [m]) y" and b: "x = b" "P b" by auto
    have "z \<in> set (as @ [m])" using z(2) by (cases as) auto
    with Cons.prems cur b z have "f b = Some z" by (auto simp: redirect_def split: if_splits)
    moreover have "m \<in> seg f P z" using Cons.IH [OF z(2)] Cons.prems(2) by simp
    ultimately show ?case using b seg_mono_step by blast
  qed
  then show "m \<in> seg f P x" if "m \<in> seg ?f P x" for m using that by (auto simp: seg_def)
qed


fun rank :: "phase \<Rightarrow> nat" where
  "rank Locking = 4"
| "rank Checking = 3"
| "rank Guarding = 2"
| "rank (Pruning _ _) = 1"
| "rank Leaving = 1"
| "rank Resting = 0"
| "rank Gone = 0"

definition ranks :: "lmq_locks \<Rightarrow> nat" where
  "ranks g = sum_list (map (rank \<circ> snd) (lk_consumers g)) + (if lk_push g = None then 0 else 1)"

definition open_node :: "lmq_locks \<Rightarrow> nref \<Rightarrow> bool" where
  "open_node g z \<longleftrightarrow> is_claimed (lk_store g) (nodes (lk_store g) z) \<and> \<not> node_locked g z"

definition turns_of :: "lmq_locks \<Rightarrow> message_consumer \<times> phase \<Rightarrow> nat" where
  "turns_of g = (\<lambda>(c, ph). case ph of
     Pruning cl (Some n) \<Rightarrow> card (seg (nxt (lk_store g)) (open_node g) n) | _ \<Rightarrow> 0)"

definition turns :: "lmq_locks \<Rightarrow> nat" where
  "turns g = sum_list (map (turns_of g) (lk_consumers g))"

definition walk :: "lmq_locks \<Rightarrow> nat" where
  "walk g = (case lk_push g of None \<Rightarrow> 0 | Some (n, x) \<Rightarrow> card (seg (nxt (lk_store g)) (\<lambda>_. True) x))"

lemma sum_list_less:
  assumes "length xs = length ys" and "\<And>j. j < length xs \<Longrightarrow> xs ! j \<le> ys ! j"
    and "i < length xs" and "xs ! i < (ys ! i :: nat)"
  shows "sum_list xs < sum_list ys"
  unfolding sum_list_sum_nth using assms by (auto intro!: sum_strict_mono_ex1)

lemma ranks_update:
  assumes "lk_at g i = Some (c, ph)" and "rank ph' < rank ph"
    and "lk_consumers g' = (lk_consumers g)[i := (c', ph')]" and "lk_push g' = lk_push g"
  shows "ranks g' < ranks g"
proof -
  have "sum_list (map (rank \<circ> snd) (lk_consumers g')) < sum_list (map (rank \<circ> snd) (lk_consumers g))"
    using assms by (intro sum_list_less [where i = i]) (auto simp: lk_at_Some nth_list_update)
  with assms(4) show ?thesis by (simp add: ranks_def)
qed

lemma next_turn_cases:
  assumes g: "lk_ok g" and i: "lk_at g i = Some (c, ph)" and t: "next_turn i c ph g = Some (ev, g')"
  obtains (advance) c' ph' where "lk_consumers g' = (lk_consumers g)[i := (c', ph')]" "rank ph' < rank ph"
      "lk_push g' = lk_push g" "node_count (lk_store g') = node_count (lk_store g)"
    | (turn) cl n nn where "ph = Pruning cl (Some n)" "is_claimed (lk_store g) (nodes (lk_store g) n)"
      "nxt (lk_store g) n = Some nn" "\<not> node_locked g n"
      "g' = set_consumer i c (Pruning cl (Some nn))
         (g\<lparr>lk_store := with_next (redirect (nxt (lk_store g)) (mc_current c) cl [n] nn) (lk_store g)\<rparr>)"
proof (cases ph)
  case (Pruning cl m)
  show thesis
  proof (cases m)
    case None
    with t Pruning advance show thesis by (auto simp: next_turn_def)
  next
    case (Some n)
    with t Pruning have free: "\<not> node_locked g n" and pt: "prune_turn i c cl n g = (ev, g')"
      by (auto simp: next_turn_def split: if_splits)
    have cur: "nxt (lk_store g) (mc_current c) = Some n"
      using lk_okD(6) [OF g lk_at_set [OF i]] Pruning Some by (simp add: phase_ok_def)
    have "n \<noteq> mc_current c" using next_other [OF lk_okD(1) [OF g] cur] .
    note eq = pt [unfolded prune_turn_eq [OF cur this]]
    show thesis
    proof (cases "is_claimed (lk_store g) (nodes (lk_store g) n) \<and> nxt (lk_store g) n \<noteq> None")
      case True
      with eq Some Pruning free turn show thesis by auto
    next
      case False
      with eq Pruning show thesis
        by (cases "nxt (lk_store g) n") (auto intro: advance)
    qed
  qed
qed (use t in \<open>auto simp: next_turn_def Let_def same_shapeD(2) [OF check_same_shape] split: if_splits
      intro: advance\<close>)

lemma node_locked_map:
  "node_locked g x \<longleftrightarrow> (x, True) \<in> set (map (\<lambda>(c, ph). (mc_current c, holds_node ph)) (lk_consumers g))"
  by (force simp: node_locked_iff)

lemma turn_shortens:
  assumes g: "lk_ok g" and i: "lk_at g i = Some (c, Pruning cl (Some n))"
    and n: "is_claimed (lk_store g) (nodes (lk_store g) n)" "nxt (lk_store g) n = Some nn" "\<not> node_locked g n"
    and g': "g' = set_consumer i c (Pruning cl (Some nn))
         (g\<lparr>lk_store := with_next (redirect (nxt (lk_store g)) (mc_current c) cl [n] nn) (lk_store g)\<rparr>)"
  shows "turns g' < turns g" and "ranks g' = ranks g"
proof -
  let ?s = "lk_store g" and ?f = "redirect (nxt (lk_store g)) (mc_current c) cl [n] nn"
  note ok = lk_okD(1) [OF g]
  have len: "i < length (lk_consumers g)" "lk_consumers g ! i = (c, Pruning cl (Some n))"
    using i by (auto simp: lk_at_Some)
  let ?h = "\<lambda>(c, ph). (mc_current c, holds_node ph)"
  have "map ?h (lk_consumers g') = map ?h (lk_consumers g)"
    using len by (intro nth_equalityI) (auto simp: g' nth_list_update)
  then have "node_locked g' = node_locked g" by (intro ext) (simp only: node_locked_map)
  then have opn: "open_node g' = open_node g" by (simp add: open_node_def g' fun_eq_iff)
  have cur: "\<not> open_node g (mc_current c)"
    using lk_at_set [OF i] by (force simp: open_node_def node_locked_iff)
  have sub: "seg ?f (open_node g) x \<subseteq> seg (nxt ?s) (open_node g) x" for x
    using n(2) by (intro seg_redirect [where P = "open_node g", OF cur]) simp
  have le: "card (seg ?f (open_node g) x) \<le> card (seg (nxt ?s) (open_node g) x)" for x
    using seg_finite [OF ok] sub by (blast intro: card_mono)
  have "open_node g n" using n by (simp add: open_node_def)
  with seg_shrinks [OF ok n(2)] le have less:
    "card (seg ?f (open_node g) nn) < card (seg (nxt ?s) (open_node g) n)"
    by (meson order.strict_trans1)
  have cs: "lk_consumers g' = (lk_consumers g)[i := (c, Pruning cl (Some nn))]" by (simp add: g')
  have nx: "nxt (lk_store g') = ?f" by (simp add: g')
  have "turns_of g' (lk_consumers g' ! j) \<le> turns_of g (lk_consumers g ! j)"
    if "j < length (lk_consumers g)" for j
    using that len less le
    by (auto simp: cs opn nx turns_of_def nth_list_update split: phase.split option.split prod.split)
  then show "turns g' < turns g"
    unfolding turns_def using len less
    by (intro sum_list_less [where i = i]) (auto simp: cs opn nx turns_of_def)
  have "map (rank \<circ> snd) (lk_consumers g') = map (rank \<circ> snd) (lk_consumers g)"
    using len by (intro nth_equalityI) (auto simp: g' nth_list_update)
  then show "ranks g' = ranks g" by (simp add: ranks_def g')
qed


definition lk_measure :: "lmq_locks \<Rightarrow> nat" where
  "lk_measure g =
     (let T = length (lk_consumers g); N = node_count (lk_store g)
      in (ranks g * Suc (T * N) + turns g) * Suc N + walk g)"

lemma lexicographic:
  assumes "b' \<le> B" and "c' \<le> C" and "a' < a \<or> a' = a \<and> (b' < b \<or> b' = b \<and> c' < c)"
  shows "(a' * Suc B + b') * Suc C + c' < (a * Suc B + b) * Suc C + (c :: nat)"
proof -
  have block: "u * Suc K + v < w * Suc K" if "u < w" "v \<le> K" for u v w K :: nat
  proof -
    have "u * Suc K + v < Suc u * Suc K" using that by simp
    also have "\<dots> \<le> w * Suc K" using that by (intro mult_le_mono1) simp
    finally show ?thesis .
  qed
  show ?thesis
  proof (cases "a' = a \<and> b' = b")
    case False
    with assms block [of a' a b' B] have "a' * Suc B + b' < a * Suc B + b" by auto
    then show ?thesis using block [OF _ assms(2)] by (meson trans_less_add1)
  qed (use assms in simp)
qed

lemma turns_bounded:
  assumes "lk_ok g"
  shows "turns g \<le> length (lk_consumers g) * node_count (lk_store g)"
proof -
  have "turns_of g p \<le> node_count (lk_store g)" for p
    using seg_finite [OF lk_okD(1) [OF assms]]
    by (auto simp: turns_of_def split: prod.split phase.split option.split)
  then show ?thesis
    unfolding turns_def using sum_list_mono [of "lk_consumers g" "turns_of g" "\<lambda>_. node_count (lk_store g)"]
    by (simp add: sum_list_triv)
qed

lemma walk_bounded: "lk_ok g \<Longrightarrow> walk g \<le> node_count (lk_store g)"
  using seg_finite [OF lk_okD(1)] by (auto simp: walk_def split: option.split)

text \<open>Each internal step decreases the measure and allocates nothing.\<close>

lemma internal_decreases:
  assumes g: "lk_ok g" and x: "internal x" and st: "lk_step x g = Some (ev, g')"
  shows "node_count (lk_store g') = node_count (lk_store g)"
    and "length (lk_consumers g') = length (lk_consumers g)"
    and "ranks g' < ranks g \<or> ranks g' = ranks g \<and> (turns g' < turns g \<or> turns g' = turns g \<and> walk g' < walk g)"
proof -
  let ?Q = "node_count (lk_store g') = node_count (lk_store g) \<and> length (lk_consumers g') = length (lk_consumers g) \<and>
    (ranks g' < ranks g \<or> ranks g' = ranks g \<and> (turns g' < turns g \<or> turns g' = turns g \<and> walk g' < walk g))"
  have ?Q
  proof (cases x)
    case StepPush
    with st obtain n y where p: "lk_push g = Some (n, y)" and at: "push_at n y g = (ev, g')"
      by (auto split: option.splits if_splits)
    show ?thesis
    proof (cases "lk_push g' = None")
      case True
      with p at show ?thesis
        by (auto simp: push_at_def ranks_def set_next_def Let_def split: option.splits if_splits)
    next
      case False
      then obtain m where "nxt (lk_store g) y = Some m" and g': "g' = g\<lparr>lk_push := Some (n, m)\<rparr>"
        using at by (auto simp: push_at_def Let_def split: option.splits if_splits)
      then have "walk g' < walk g"
        using p seg_shrinks [OF lk_okD(1) [OF g]] by (simp add: walk_def)
      moreover have "open_node g' = open_node g" by (simp add: fun_eq_iff open_node_def node_locked_def g')
      then have "turns_of g' = turns_of g" unfolding turns_of_def by (simp add: g')
      ultimately show ?thesis using p g' by (simp add: turns_def ranks_def)
    qed
  next
    case (StepNext i)
    with st obtain c ph where i: "lk_at g i = Some (c, ph)" and t: "next_turn i c ph g = Some (ev, g')"
      by (auto split: option.splits)
    from g i t show ?thesis
    proof (cases rule: next_turn_cases)
      case advance
      with ranks_update [OF i] show ?thesis by simp
    next
      case turn
      with turn_shortens [OF g] i show ?thesis by simp
    qed
  next
    case (StepDrop i)
    with st obtain c where i: "lk_at g i = Some (c, Leaving)" and d: "drop_ends i c g = (ev, g')"
      by (auto split: option.splits phase.splits if_splits)
    then show ?thesis
      using ranks_update [OF i, of Gone g' c]
      by (auto simp: drop_ends_def Let_def same_shapeD(2) [OF check_same_shape])
  qed (use x in simp_all)
  then show "node_count (lk_store g') = node_count (lk_store g)"
    and "length (lk_consumers g') = length (lk_consumers g)"
    and "ranks g' < ranks g \<or> ranks g' = ranks g \<and> (turns g' < turns g \<or> turns g' = turns g \<and> walk g' < walk g)"
    by blast+
qed


lemma measure_decreases:
  assumes "lk_ok g" "internal x" "lk_step x g = Some (ev, g')"
  shows "lk_measure g' < lk_measure g"
proof -
  note d = internal_decreases [OF assms]
  have "lk_ok g'" using lk.step_keeps assms by blast
  with turns_bounded [OF this] walk_bounded [OF this] d show ?thesis
    unfolding lk_measure_def Let_def by (intro lexicographic [THEN order.strict_trans2]) auto
qed

lemma ranks_bounded: "ranks g \<le> Suc (4 * length (lk_consumers g))"
proof -
  have "rank ph \<le> 4" for ph by (cases ph) auto
  then have "sum_list (map (\<lambda>p. rank (snd p)) (lk_consumers g)) \<le> 4 * length (lk_consumers g)"
    using sum_list_mono [of "lk_consumers g" "\<lambda>p. rank (snd p)" "\<lambda>_. 4"] by (simp add: sum_list_triv)
  then show ?thesis unfolding ranks_def o_def by simp
qed

text \<open>The number of steps that suffices for all the calls in progress.\<close>

definition steps_bound :: "lmq_locks \<Rightarrow> nat" where
  "steps_bound g =
     (let T = length (lk_consumers g); N = node_count (lk_store g)
      in (4 * T + 2) * Suc (T * N) * Suc N)"

lemma measure_bounded:
  assumes "lk_ok g"
  shows "lk_measure g \<le> steps_bound g"
proof -
  let ?T = "length (lk_consumers g)" and ?N = "node_count (lk_store g)"
  have "(ranks g * Suc (?T * ?N) + turns g) * Suc ?N + walk g < ((4 * ?T + 2) * Suc (?T * ?N) + 0) * Suc ?N + 0"
    using ranks_bounded [of g] by (intro lexicographic turns_bounded walk_bounded assms) auto
  then show ?thesis unfolding lk_measure_def steps_bound_def Let_def add_0_right by (rule less_imp_le)
qed

text \<open>
  C5: Threads that push, create consumers, call \<open>try_next\<close>, claim and drop consumers, none of which reads
  or holds a view of a message. Whatever they did before and however they are scheduled now: the messages they were
  given were readable when delivered; the calls in progress are completed after at most
  \<open>steps_bound g\<close> further steps unless a new call is made; and as long as a call is in progress, some
  thread can go on. None of these calls waits for ever for a lock, and no traversal runs in circles.
  (With readers and views: \<^verbatim>\<open>Lmq_Views_Progress\<close>.)
\<close>

theorem every_call_returns:
  assumes "run_events lk_step xs (lk_start ad) = Some (es, g)"
    and "list_all internal ys" and "run_events lk_step ys g = Some (fs, g')"
  shows "list_all lk_readable (es @ fs) \<and> length ys \<le> steps_bound g \<and>
    (busy g' \<longrightarrow> (\<exists>y. internal y \<and> lk_step y g' \<noteq> None))"
proof -
  have g: "lk_ok g" "list_all lk_readable es" using lk.run_keeps [OF lk_ok_start assms(1)] by auto
  have g': "lk_ok g'" "list_all lk_readable fs" using lk.run_keeps [OF g(1) assms(3)] by auto
  have "length ys + lk_measure g' \<le> lk_measure g"
    using measure_decreases by (rule lk.run_bounded [OF _ g(1) assms(2,3)])
  with measure_bounded [OF g(1)] g g' busy_goes_on [OF g'(1)] show ?thesis by auto
qed

text \<open>
  A push and two \<open>try_next\<close> calls at the same time, the second waiting for the mutex the first one
  holds, and a schedule that completes them.
\<close>

definition race_ops :: "lk_op list" where
  "race_ops = [CallNew 1, CallNew 2, CallPush [7], StepPush, CallNext 1, StepNext 1, StepNext 1,
     CallNext 0, CallPush [8]]"

definition race_rest :: "lk_op list" where
  "race_rest = [StepNext 1, StepNext 1, StepPush, StepNext 0, StepNext 0, StepNext 0, StepNext 0]"

theorem every_call_returns_witness:
  "\<exists>es g fs g'. run_events lk_step race_ops (lk_start False) = Some (es, g) \<and>
     busy g \<and> lk_step (StepNext 0) g = None \<and>
     run_events lk_step race_rest g = Some (fs, g') \<and> \<not> busy g' \<and>
     LkDelivered 0 (Some [7]) \<in> set fs \<and> list_all lk_readable (es @ fs) \<and> 7 \<le> steps_bound g"
proof -
  have "case run_events lk_step race_ops (lk_start False) of None \<Rightarrow> False | Some (es, g) \<Rightarrow>
      busy g \<and> Option.is_none (lk_step (StepNext 0) g) \<and>
      (case run_events lk_step race_rest g of None \<Rightarrow> False | Some (fs, g') \<Rightarrow>
        \<not> busy g' \<and> LkDelivered 0 (Some [7]) \<in> set fs)"
    by code_simp
  then obtain es g fs g' where r: "run_events lk_step race_ops (lk_start False) = Some (es, g)"
    "run_events lk_step race_rest g = Some (fs, g')" "busy g" "Option.is_none (lk_step (StepNext 0) g)" "\<not> busy g'"
    "LkDelivered 0 (Some [7]) \<in> set fs"
    by (auto split: option.splits simp del: lk_step.simps)
  have "list_all internal race_rest" by (simp add: race_rest_def)
  from every_call_returns [OF r(1) this r(2)] r(1-5) r(6) show ?thesis
    by (auto simp del: lk_step.simps simp: race_rest_def Option.is_none_def)
qed

end
