(* ===== verification/Lmq_Read_Lock.thy ===== *)
theory Lmq_Read_Lock
  imports Sc_Prelude
begin

text \<open>
  The lock of one payload (\<^verbatim>\<open>lmq/src/lib.rs\<close>, \<open>NextMessage::read\<close> and \<open>claim\<close>) with any number of threads.
  \<open>read\<close> takes the read lock twice, and gives the first guard back only after it has the second;
  \<open>parking_lot\<close> makes a reader wait while a writer waits.
\<close>

section \<open>Threads at one payload\<close>

text \<open>
  Where a thread is: in \<open>read\<close> before its first and before its second lock, with the \<open>MessageRef\<close> that \<open>read\<close>
  returned, or in \<open>claim\<close> waiting for the write lock.
\<close>

datatype payload_phase = Away | ReadFirst | ReadSecond | Viewing | ClaimWaits

record payload_lock =
  stored :: "byte list option"
  phase :: "nat \<Rightarrow> payload_phase"

definition writer_waits :: "payload_lock \<Rightarrow> bool" where
  "writer_waits l \<longleftrightarrow> (\<exists>u. phase l u = ClaimWaits)"

definition read_locked :: "payload_lock \<Rightarrow> bool" where
  "read_locked l \<longleftrightarrow> (\<exists>u. phase l u = ReadSecond \<or> phase l u = Viewing)"

definition goes :: "nat \<Rightarrow> payload_phase \<Rightarrow> payload_lock \<Rightarrow> payload_lock" where
  "goes t p l = l\<lparr>phase := (phase l)(t := p)\<rparr>"

text \<open>Thread \<open>t\<close> takes a step; \<open>claims\<close> is the whole of \<open>payload.write().take()\<close>.\<close>

inductive payload_step :: "nat \<Rightarrow> payload_lock \<Rightarrow> payload_lock \<Rightarrow> bool" for t where
  calls_read: "phase l t = Away \<Longrightarrow> payload_step t l (goes t ReadFirst l)"
| calls_claim: "phase l t = Away \<Longrightarrow> payload_step t l (goes t ClaimWaits l)"
| finds_none: "phase l t = ReadFirst \<Longrightarrow> \<not> writer_waits l \<Longrightarrow> stored l = None \<Longrightarrow>
    payload_step t l (goes t Away l)"
| finds_some: "phase l t = ReadFirst \<Longrightarrow> \<not> writer_waits l \<Longrightarrow> stored l = Some v \<Longrightarrow>
    payload_step t l (goes t ReadSecond l)"
| returns_ref: "phase l t = ReadSecond \<Longrightarrow> \<not> writer_waits l \<Longrightarrow> payload_step t l (goes t Viewing l)"
| drops_ref: "phase l t = Viewing \<Longrightarrow> payload_step t l (goes t Away l)"
| claims: "phase l t = ClaimWaits \<Longrightarrow> \<not> read_locked l \<Longrightarrow>
    payload_step t l ((goes t Away l)\<lparr>stored := None\<rparr>)"

definition any_step :: "payload_lock \<Rightarrow> payload_lock \<Rightarrow> bool" where
  "any_step l l1 \<longleftrightarrow> (\<exists>t. payload_step t l l1)"

inductive_cases payload_stepE: "payload_step t l l1"

text \<open>\<open>MessageRef::deref\<close>: the payload behind the guard; \<open>None\<close> is the panic of its \<open>unwrap\<close>.\<close>

definition message_deref :: "payload_lock \<Rightarrow> byte list option" where
  "message_deref l = stored l"

text \<open>It does not happen: while anybody holds a view, the payload stays as it was when the view was taken.\<close>

definition views_ok :: "payload_lock \<Rightarrow> bool" where
  "views_ok l \<longleftrightarrow> (read_locked l \<longrightarrow> message_deref l \<noteq> None)"

lemma views_ok_step: "views_ok l \<Longrightarrow> payload_step t l l1 \<Longrightarrow> views_ok l1"
  by (erule payload_stepE) (auto simp: views_ok_def message_deref_def read_locked_def goes_def split: if_splits)

lemma deref_never_panics:
  "any_step\<^sup>*\<^sup>* l l1 \<Longrightarrow> \<not> read_locked l \<Longrightarrow> phase l1 t = Viewing \<Longrightarrow> message_deref l1 \<noteq> None"
proof -
  assume run: "any_step\<^sup>*\<^sup>* l l1" and "\<not> read_locked l" and t: "phase l1 t = Viewing"
  then have "views_ok l" by (simp add: views_ok_def)
  with run have "views_ok l1"
    by (induction rule: rtranclp_induct) (auto simp: any_step_def intro: views_ok_step)
  with t show "message_deref l1 \<noteq> None" by (auto simp: views_ok_def read_locked_def)
qed

lemma view_stable:
  "payload_step u l l1 \<Longrightarrow> phase l t = Viewing \<Longrightarrow> message_deref l1 = message_deref l"
  by (erule payload_stepE) (auto simp: message_deref_def read_locked_def goes_def)

section \<open>The deadlock\<close>

text \<open>A reader between its two locks and a writer that waits.\<close>

definition entangled :: "nat \<Rightarrow> nat \<Rightarrow> payload_lock \<Rightarrow> bool" where
  "entangled r w l \<longleftrightarrow> phase l r = ReadSecond \<and> phase l w = ClaimWaits"

lemma entangled_step: "entangled r w l \<Longrightarrow> payload_step t l l1 \<Longrightarrow> entangled r w l1"
  by (erule payload_stepE) (auto simp: entangled_def goes_def writer_waits_def read_locked_def)

lemma entangled_run: "any_step\<^sup>*\<^sup>* l l1 \<Longrightarrow> entangled r w l \<Longrightarrow> entangled r w l1"
  by (induction rule: rtranclp_induct) (auto simp: any_step_def intro: entangled_step)

definition in_call :: "payload_phase \<Rightarrow> bool" where
  "in_call p \<longleftrightarrow> p = ReadFirst \<or> p = ReadSecond \<or> p = ClaimWaits"

section \<open>Calls that can return\<close>

lemma step_run: "payload_step t l l1 \<Longrightarrow> any_step\<^sup>*\<^sup>* l1 l2 \<Longrightarrow> any_step\<^sup>*\<^sup>* l l2"
  by (rule converse_rtranclp_into_rtranclp) (auto simp: any_step_def)

lemma some_counted: "Suc n = card {u. P u} \<Longrightarrow> \<exists>t. P t"
  by (cases "{u. P u} = {}") auto

text \<open>All views are dropped.\<close>

lemma drop_views:
  "finite {u. phase l u = Viewing} \<Longrightarrow>
   \<exists>l1. any_step\<^sup>*\<^sup>* l l1 \<and> phase l1 = (\<lambda>u. if phase l u = Viewing then Away else phase l u)"
proof (induction "card {u. phase l u = Viewing}" arbitrary: l)
  case 0
  then have "phase l u \<noteq> Viewing" for u by auto
  then show ?case by (intro exI [of _ l]) auto
next
  case (Suc n)
  obtain t where t: "phase l t = Viewing" using some_counted [OF Suc.hyps(2)] by blast
  let ?l = "goes t Away l"
  have "{u. phase ?l u = Viewing} = {u. phase l u = Viewing} - {t}" by (auto simp: goes_def)
  with Suc t have "n = card {u. phase ?l u = Viewing}" "finite {u. phase ?l u = Viewing}" by simp_all
  from Suc.hyps(1) [OF this] obtain l1 where l1: "any_step\<^sup>*\<^sup>* ?l l1"
    "phase l1 = (\<lambda>u. if phase ?l u = Viewing then Away else phase ?l u)"
    by blast
  from step_run [OF drops_ref [OF t] l1(1)] l1(2) t show ?case
    by (intro exI [of _ l1]) (auto simp: goes_def fun_eq_iff)
qed

text \<open>All waiting claims are done, when nobody holds a read lock.\<close>

lemma claims_done:
  "finite {u. phase l u = ClaimWaits} \<Longrightarrow> \<not> read_locked l \<Longrightarrow>
   \<exists>l1. any_step\<^sup>*\<^sup>* l l1 \<and> phase l1 = (\<lambda>u. if phase l u = ClaimWaits then Away else phase l u)"
proof (induction "card {u. phase l u = ClaimWaits}" arbitrary: l)
  case 0
  then have "phase l u \<noteq> ClaimWaits" for u by auto
  then show ?case by (intro exI [of _ l]) auto
next
  case (Suc n)
  obtain t where t: "phase l t = ClaimWaits" using some_counted [OF Suc.hyps(2)] by blast
  let ?l = "(goes t Away l)\<lparr>stored := None\<rparr>"
  have "{u. phase ?l u = ClaimWaits} = {u. phase l u = ClaimWaits} - {t}" by (auto simp: goes_def)
  with Suc t have "n = card {u. phase ?l u = ClaimWaits}" "finite {u. phase ?l u = ClaimWaits}" by simp_all
  moreover have "\<not> read_locked ?l" using Suc.prems(2) by (auto simp: goes_def read_locked_def)
  ultimately obtain l1 where l1: "any_step\<^sup>*\<^sup>* ?l l1"
    "phase l1 = (\<lambda>u. if phase ?l u = ClaimWaits then Away else phase ?l u)"
    using Suc.hyps(1) by blast
  from step_run [OF claims [OF t Suc.prems(2)] l1(1)] l1(2) t show ?case
    by (intro exI [of _ l1]) (auto simp: goes_def fun_eq_iff)
qed

lemma read_returns:
  assumes "phase l t = ReadFirst \<or> phase l t = ReadSecond" and "\<not> writer_waits l"
  shows "\<exists>l1. any_step\<^sup>*\<^sup>* l l1 \<and> \<not> in_call (phase l1 t)"
proof -
  have second: "\<exists>l1. any_step\<^sup>*\<^sup>* l l1 \<and> \<not> in_call (phase l1 t)"
    if "phase l t = ReadSecond" "\<not> writer_waits l" for l
    using step_run [OF returns_ref [OF that]] by (intro exI [of _ "goes t Viewing l"]) (simp add: goes_def in_call_def)
  show ?thesis
  proof (cases "phase l t = ReadSecond \<or> stored l = None")
    case True
    with assms second show ?thesis
      using step_run [OF finds_none [of l t]]
      by (cases "phase l t = ReadSecond") (auto simp: goes_def in_call_def intro!: exI [of _ "goes t Away l"])
  next
    case False
    then obtain v where v: "phase l t = ReadFirst" "stored l = Some v" using assms by auto
    have "\<not> writer_waits (goes t ReadSecond l)" using assms(2) by (auto simp: writer_waits_def goes_def)
    with second [of "goes t ReadSecond l"] step_run [OF finds_some [OF v(1) assms(2) v(2)]] show ?thesis
      by (auto simp: goes_def)
  qed
qed

lemma call_returns:
  assumes "finite {u. phase l u \<noteq> Away}" and "\<forall>r w. \<not> entangled r w l" and "in_call (phase l t)"
  shows "\<exists>l1. any_step\<^sup>*\<^sup>* l l1 \<and> \<not> in_call (phase l1 t)"
proof (cases "writer_waits l")
  case True
  with assms(2) have no_second: "phase l u \<noteq> ReadSecond" for u by (auto simp: writer_waits_def entangled_def)
  have "finite {u. phase l u = Viewing}" by (rule finite_subset [OF _ assms(1)]) auto
  from drop_views [OF this] obtain l1 where l1: "any_step\<^sup>*\<^sup>* l l1"
    "phase l1 = (\<lambda>u. if phase l u = Viewing then Away else phase l u)" by blast
  have "\<not> read_locked l1" using no_second by (auto simp: l1(2) read_locked_def)
  moreover have "finite {u. phase l1 u = ClaimWaits}"
    by (rule finite_subset [OF _ assms(1)]) (auto simp: l1(2))
  ultimately obtain l2 where l2: "any_step\<^sup>*\<^sup>* l1 l2"
    "phase l2 = (\<lambda>u. if phase l1 u = ClaimWaits then Away else phase l1 u)"
    using claims_done by blast
  have run: "any_step\<^sup>*\<^sup>* l l2" using l1(1) l2(1) by (rule rtranclp_trans)
  show ?thesis
  proof (cases "phase l t = ClaimWaits")
    case True
    with run show ?thesis by (intro exI [of _ l2]) (simp add: l1(2) l2(2) in_call_def)
  next
    case False
    then have "phase l t = ReadFirst" using assms(3) no_second by (auto simp: in_call_def)
    then have "phase l2 t = ReadFirst" by (simp add: l1(2) l2(2))
    moreover have "\<not> writer_waits l2" by (auto simp: writer_waits_def l2(2))
    ultimately obtain l3 where "any_step\<^sup>*\<^sup>* l2 l3" "\<not> in_call (phase l3 t)" using read_returns by blast
    with run show ?thesis by (blast intro: rtranclp_trans)
  qed
next
  case False
  with assms(3) read_returns [of l t] show ?thesis by (auto simp: in_call_def writer_waits_def)
qed

text \<open>
  \<open>read\<close> deadlocks with \<open>claim\<close>, and only so: some call on a payload can never return, whatever all threads do,
  exactly if a claim waits while a reader is between the two locks that \<open>read\<close> takes. In every other state each
  call that is in progress returns, once the views that are held are dropped.
\<close>

theorem read_deadlocks_with_claim:
  assumes "finite {u. phase l u \<noteq> Away}"
  shows "(\<exists>t. in_call (phase l t) \<and> (\<forall>l1. any_step\<^sup>*\<^sup>* l l1 \<longrightarrow> in_call (phase l1 t))) \<longleftrightarrow>
    (\<exists>r w. phase l r = ReadSecond \<and> phase l w = ClaimWaits)"
proof
  assume "\<exists>t. in_call (phase l t) \<and> (\<forall>l1. any_step\<^sup>*\<^sup>* l l1 \<longrightarrow> in_call (phase l1 t))"
  with call_returns [OF assms] show "\<exists>r w. phase l r = ReadSecond \<and> phase l w = ClaimWaits"
    by (auto simp: entangled_def)
next
  assume "\<exists>r w. phase l r = ReadSecond \<and> phase l w = ClaimWaits"
  then obtain r w where e: "entangled r w l" by (auto simp: entangled_def)
  with entangled_run [OF _ e] show "\<exists>t. in_call (phase l t) \<and> (\<forall>l1. any_step\<^sup>*\<^sup>* l l1 \<longrightarrow> in_call (phase l1 t))"
    by (intro exI [of _ r]) (auto simp: entangled_def in_call_def)
qed

text \<open>Two threads reach it: one is in \<open>read\<close>, and the other claims.\<close>

definition idle_payload :: payload_lock where
  "idle_payload = \<lparr>stored = Some [1], phase = (\<lambda>_. Away)\<rparr>"

theorem read_deadlocks_with_claim_witness:
  "\<exists>l t. any_step\<^sup>*\<^sup>* idle_payload l \<and> in_call (phase l t) \<and> (\<forall>l1. any_step\<^sup>*\<^sup>* l l1 \<longrightarrow> in_call (phase l1 t))"
proof -
  let ?a = "goes 0 ReadFirst idle_payload"
  let ?b = "goes 0 ReadSecond ?a"
  let ?c = "goes 1 ClaimWaits ?b"
  have a: "payload_step 0 idle_payload ?a" by (rule calls_read) (simp add: idle_payload_def)
  have b: "payload_step 0 ?a ?b"
    by (rule finds_some [where v = "[1]"]) (auto simp: idle_payload_def goes_def writer_waits_def)
  have "payload_step 1 ?b ?c" by (rule calls_claim) (simp add: idle_payload_def goes_def)
  then have run: "any_step\<^sup>*\<^sup>* idle_payload ?c" using a b by (blast intro: step_run)
  have "{u. phase ?c u \<noteq> Away} \<subseteq> {0, 1}" by (auto simp: goes_def idle_payload_def)
  then have "finite {u. phase ?c u \<noteq> Away}" by (rule finite_subset) simp
  moreover have "phase ?c 0 = ReadSecond" "phase ?c 1 = ClaimWaits" by (simp_all add: goes_def)
  ultimately have "\<exists>t. in_call (phase ?c t) \<and> (\<forall>l1. any_step\<^sup>*\<^sup>* ?c l1 \<longrightarrow> in_call (phase l1 t))"
    using read_deadlocks_with_claim by blast
  with run show ?thesis by blast
qed

end
