(* ===== verification/Lmq_Views.thy ===== *)
theory Lmq_Views
  imports Lmq_Locks_Props Lmq_Read_Lock
begin

text \<open>
  The threads of \<^verbatim>\<open>Lmq_Locks\<close> together with clients that read and claim the messages they were given,
  and that keep the view (\<open>MessageRef\<close>) of a message for as long as they like. A view is a read lock, so
  a \<open>try_next\<close>, a drop check or a claim that asks for the write lock of that payload waits for it, with the
  mutexes it has; and as \<open>parking_lot\<close> documents, a reader waits while a writer waits;
  a thread counts as waiting from the step on that asks for the lock.

  A step of \<^verbatim>\<open>Lmq_Locks\<close> is a step here when its payload is free. Two of its steps take a mutex and ask
  for a payload with it: a turn of the pruning loop, and the destructor of a consumer. Here the mutex is
  taken by a step of its own, \<open>TakeNode\<close>, and \<open>vw_ahead\<close> records it.
\<close>

section \<open>State\<close>

text \<open>
  \<open>vw_ahead i\<close> is the further node that the thread of consumer \<open>i\<close> has locked. Each client thread works at one
  message of \<open>lk_held\<close>; a message can be shared or cloned, so any number of threads may work at the same one.
\<close>

record lmq_views =
  vw_locks :: lmq_locks
  vw_ahead :: "nat \<Rightarrow> nref option"
  vw_clients :: "(nat \<times> payload_phase) list"

datatype vw_op =
    Queue lk_op | TakeNode nat
  | NewClient | CallRead nat nat | CallTake nat nat | StepClient nat | Release nat

text \<open>\<open>VwView j v\<close>: client \<open>j\<close> gets a view, behind which \<open>deref\<close> finds \<open>v\<close>.\<close>

datatype vw_event = VwQueue lk_event | VwSilent | VwGone nat | VwView nat "byte list option"

definition client_at :: "lmq_views \<Rightarrow> nat \<Rightarrow> (nat \<times> payload_phase) option" where
  "client_at v j = (if j < length (vw_clients v) then Some (vw_clients v ! j) else None)"

definition set_client :: "nat \<Rightarrow> nat \<Rightarrow> payload_phase \<Rightarrow> lmq_views \<Rightarrow> lmq_views" where
  "set_client j k p v = v\<lparr>vw_clients := (vw_clients v)[j := (k, p)]\<rparr>"

definition cell_of :: "lmq_views \<Rightarrow> nat \<Rightarrow> pref" where
  "cell_of v k = payload_ref (lk_held (vw_locks v) ! k)"

section \<open>Locks\<close>

fun reading :: "payload_phase \<Rightarrow> bool" where
  "reading ReadSecond = True"
| "reading Viewing = True"
| "reading _ = False"

definition ahead_locked :: "lmq_views \<Rightarrow> nref \<Rightarrow> bool" where
  "ahead_locked v x \<longleftrightarrow> list_ex (\<lambda>i. vw_ahead v i = Some x) [0..<length (lk_consumers (vw_locks v))]"

definition view_locked :: "lmq_views \<Rightarrow> pref \<Rightarrow> bool" where
  "view_locked v r \<longleftrightarrow> list_ex (\<lambda>(k, p). reading p \<and> cell_of v k = r) (vw_clients v)"

text \<open>Whether \<open>check_should_now_autodrop\<close> claims.\<close>

definition check_claims :: "u64 \<Rightarrow> nref \<Rightarrow> lmq_store \<Rightarrow> bool" where
  "check_claims cid cur s \<longleftrightarrow>
     (case target_consumers (nodes s cur) of
        None \<Rightarrow> False
      | Some tc \<Rightarrow> hm_all (\<lambda>t. \<not> live s t) (hm_remove cid tc))"

text \<open>Whether a consumer's thread, with the mutex of its node, asks for the payload's write lock.\<close>

fun wants_write :: "lmq_store \<Rightarrow> nref option \<Rightarrow> message_consumer \<Rightarrow> phase \<Rightarrow> bool" where
  "wants_write s a c Guarding = True"
| "wants_write s a c Checking = (autodrop s \<and> check_claims (mc_id c) (mc_current c) s)"
| "wants_write s a c Leaving = (a \<noteq> None \<and> check_claims (mc_id c) (mc_current c) s)"
| "wants_write s a c _ = False"

definition writer_at :: "lmq_views \<Rightarrow> nat \<Rightarrow> pref \<Rightarrow> bool" where
  "writer_at v i r =
     (case lk_at (vw_locks v) i of
        None \<Rightarrow> False
      | Some (c, ph) \<Rightarrow>
          wants_write (lk_store (vw_locks v)) (vw_ahead v i) c ph \<and>
          payload_ref (nodes (lk_store (vw_locks v)) (mc_current c)) = r)"

definition write_asked :: "lmq_views \<Rightarrow> pref \<Rightarrow> bool" where
  "write_asked v r \<longleftrightarrow>
     list_ex (\<lambda>(k, p). p = ClaimWaits \<and> cell_of v k = r) (vw_clients v) \<or>
     list_ex (\<lambda>i. writer_at v i r) [0..<length (lk_consumers (vw_locks v))]"

definition waits_for_view :: "lmq_views \<Rightarrow> nat \<Rightarrow> bool" where
  "waits_for_view v i =
     (case lk_at (vw_locks v) i of
        None \<Rightarrow> False
      | Some (c, ph) \<Rightarrow>
          wants_write (lk_store (vw_locks v)) (vw_ahead v i) c ph \<and>
          view_locked v (payload_ref (nodes (lk_store (vw_locks v)) (mc_current c))))"

text \<open>The node whose mutex a consumer's thread asks for in the loop and in its destructor.\<close>

definition asks_node :: "lmq_locks \<Rightarrow> nat \<Rightarrow> nref option" where
  "asks_node g i =
     (case lk_at g i of
        Some (c, Pruning cl n) \<Rightarrow> n
      | Some (c, Leaving) \<Rightarrow> Some (mc_current c)
      | _ \<Rightarrow> None)"

text \<open>When a step of \<^verbatim>\<open>Lmq_Locks\<close> does not wait for a view or for a mutex in \<open>vw_ahead\<close>.\<close>

fun vw_free :: "lk_op \<Rightarrow> lmq_views \<Rightarrow> bool" where
  "vw_free StepPush v = (case lk_push (vw_locks v) of Some (n, x) \<Rightarrow> \<not> ahead_locked v x | None \<Rightarrow> True)"
| "vw_free (StepNext i) v =
     (case lk_at (vw_locks v) i of
        None \<Rightarrow> True
      | Some (c, Locking) \<Rightarrow> \<not> ahead_locked v (mc_current c)
      | Some (c, Pruning cl (Some n)) \<Rightarrow>
          vw_ahead v i = Some n \<and> \<not> write_asked v (payload_ref (nodes (lk_store (vw_locks v)) n))
      | _ \<Rightarrow> \<not> waits_for_view v i)"
| "vw_free (StepDrop i) v = (vw_ahead v i \<noteq> None \<and> \<not> waits_for_view v i)"
| "vw_free (CallClaim k) v = False"
| "vw_free _ v = True"

section \<open>Steps\<close>

fun drops_ahead :: "lk_op \<Rightarrow> (nat \<Rightarrow> nref option) \<Rightarrow> nat \<Rightarrow> nref option" where
  "drops_ahead (StepNext i) a = a(i := None)"
| "drops_ahead (StepDrop i) a = a(i := None)"
| "drops_ahead _ a = a"

text \<open>\<open>read\<close> takes the read lock twice and keeps the second one; \<open>claim\<close> takes the write lock.\<close>

definition client_step :: "nat \<Rightarrow> nat \<Rightarrow> payload_phase \<Rightarrow> lmq_views \<Rightarrow> (vw_event \<times> lmq_views) option" where
  "client_step j k p v =
     (let g = vw_locks v; r = cell_of v k in
      case p of
        ReadFirst \<Rightarrow>
          if payload_locked g r \<or> write_asked v r then None
          else if payloads (lk_store g) r \<noteq> None then Some (VwSilent, set_client j k ReadSecond v)
          else Some (VwGone j, set_client j k Away v)
      | ReadSecond \<Rightarrow>
          if write_asked v r then None
          else Some (VwView j (payloads (lk_store g) r), set_client j k Viewing v)
      | ClaimWaits \<Rightarrow>
          if view_locked v r then None
          else (case lk_step (CallClaim k) g of
                  None \<Rightarrow> None
                | Some (e, g1) \<Rightarrow> Some (VwQueue e, set_client j k Away (v\<lparr>vw_locks := g1\<rparr>)))
      | _ \<Rightarrow> None)"

fun vw_step :: "vw_op \<Rightarrow> lmq_views \<Rightarrow> (vw_event \<times> lmq_views) option" where
  "vw_step (Queue x) v =
     (if vw_free x v then
        (case lk_step x (vw_locks v) of
           None \<Rightarrow> None
         | Some (e, g) \<Rightarrow> Some (VwQueue e, v\<lparr>vw_locks := g, vw_ahead := drops_ahead x (vw_ahead v)\<rparr>))
      else None)"
| "vw_step (TakeNode i) v =
     (case asks_node (vw_locks v) i of
        None \<Rightarrow> None
      | Some x \<Rightarrow>
          if vw_ahead v i = None \<and> \<not> node_locked (vw_locks v) x \<and> \<not> ahead_locked v x
          then Some (VwSilent, v\<lparr>vw_ahead := (vw_ahead v)(i := Some x)\<rparr>)
          else None)"
| "vw_step NewClient v = Some (VwSilent, v\<lparr>vw_clients := vw_clients v @ [(0, Away)]\<rparr>)"
| "vw_step (CallRead j k) v =
     (case client_at v j of
        Some (_, Away) \<Rightarrow>
          if k < length (lk_held (vw_locks v)) then Some (VwSilent, set_client j k ReadFirst v) else None
      | _ \<Rightarrow> None)"
| "vw_step (CallTake j k) v =
     (case client_at v j of
        Some (_, Away) \<Rightarrow>
          if k < length (lk_held (vw_locks v)) then Some (VwSilent, set_client j k ClaimWaits v) else None
      | _ \<Rightarrow> None)"
| "vw_step (StepClient j) v = (case client_at v j of Some (k, p) \<Rightarrow> client_step j k p v | None \<Rightarrow> None)"
| "vw_step (Release j) v =
     (case client_at v j of Some (k, Viewing) \<Rightarrow> Some (VwSilent, set_client j k Away v) | _ \<Rightarrow> None)"

definition vw_start :: "bool \<Rightarrow> lmq_views" where
  "vw_start ad = \<lparr>vw_locks = lk_start ad, vw_ahead = (\<lambda>_. None), vw_clients = []\<rparr>"

section \<open>The invariant\<close>

text \<open>What a reader relies on.\<close>

definition reads_ok :: "lmq_locks \<Rightarrow> pref \<Rightarrow> bool" where
  "reads_ok g r \<longleftrightarrow> payloads (lk_store g) r \<noteq> None \<and> \<not> payload_locked g r"

definition client_ok :: "lmq_locks \<Rightarrow> nat \<times> payload_phase \<Rightarrow> bool" where
  "client_ok g = (\<lambda>(k, p). p \<noteq> Away \<longrightarrow> k < length (lk_held g) \<and>
     (reading p \<longrightarrow> reads_ok g (payload_ref (lk_held g ! k))))"

definition ahead_ok :: "lmq_locks \<Rightarrow> (nat \<Rightarrow> nref option) \<Rightarrow> bool" where
  "ahead_ok g a \<longleftrightarrow>
     (\<forall>i x. a i = Some x \<longrightarrow> asks_node g i = Some x \<and> \<not> node_locked g x) \<and>
     (\<forall>i j x. a i = Some x \<and> a j = Some x \<longrightarrow> i = j)"

text \<open>Only trackers that exist are recorded, so a consumer found dead stays dead.\<close>

definition trackers_ok :: "lmq_store \<Rightarrow> bool" where
  "trackers_ok s \<longleftrightarrow>
     (\<forall>x tc kv. target_consumers (nodes s x) = Some tc \<and> kv \<in> set tc \<longrightarrow> snd kv < tracker_count s) \<and>
     (\<forall>kv \<in> set (active s). snd kv < tracker_count s)"

definition vw_ok :: "lmq_views \<Rightarrow> bool" where
  "vw_ok v \<longleftrightarrow>
     lk_ok (vw_locks v) \<and> trackers_ok (lk_store (vw_locks v)) \<and> ahead_ok (vw_locks v) (vw_ahead v) \<and>
     (\<forall>cl \<in> set (vw_clients v). client_ok (vw_locks v) cl)"

end
