(* ===== verification/Lmq_Views_Invariant.thy ===== *)
theory Lmq_Views_Invariant
  imports Lmq_Views
begin

text \<open>
  Every step of every thread of a queue with views keeps the invariant: pointers and locks as in
  \<^verbatim>\<open>Lmq_Locks_Props\<close>, the further mutexes, the trackers of the automatic drop, and what readers rely on.
\<close>

section \<open>One step of the queue\<close>

text \<open>The payloads that a step of a thread of the queue writes or locks: of the current node of a consumer that asked for it.\<close>

definition step_writer :: "lmq_locks \<Rightarrow> (nat \<Rightarrow> nref option) \<Rightarrow> lk_op \<Rightarrow> pref \<Rightarrow> bool" where
  "step_writer g a x r \<longleftrightarrow>
     (\<exists>i c ph. (x = StepNext i \<or> x = StepDrop i \<and> a i \<noteq> None) \<and> lk_at g i = Some (c, ph) \<and> wants_write (lk_store g) (a i) c ph \<and>
        payload_ref (nodes (lk_store g) (mc_current c)) = r)"

lemma check_payloads:
  assumes "payloads (check_should_now_autodrop cid x s) r \<noteq> payloads s r"
  shows "check_claims cid x s" and "payload_ref (nodes s x) = r"
  using assms by (auto simp: check_should_now_autodrop_def check_claims_def claim_def Let_def split: option.splits if_splits)

lemma payload_locked_updated:
  assumes "payload_locked g' r" and "lk_at g i = Some (c, ph)"
    and "lk_consumers g' = (lk_consumers g)[i := (c', ph')]"
    and "\<And>x. x < node_count (lk_store g) \<Longrightarrow>
      payload_ref (nodes (lk_store g') x) = payload_ref (nodes (lk_store g) x)"
    and "lk_ok g" and "holds_payload ph' \<Longrightarrow> c' = c"
  shows "payload_locked g r \<or> holds_payload ph' \<and> payload_ref (nodes (lk_store g) (mc_current c)) = r"
proof -
  from assms(1,3) obtain d p where d: "(d, p) \<in> set ((lk_consumers g)[i := (c', ph')])" "holds_payload p"
    "payload_ref (nodes (lk_store g') (mc_current d)) = r" by (auto simp: payload_locked_iff)
  have here: "e \<in> set (lk_consumers g) \<Longrightarrow>
      payload_ref (nodes (lk_store g') (mc_current (fst e))) = payload_ref (nodes (lk_store g) (mc_current (fst e)))" for e
    using assms(4) lk_okD(5) [OF assms(5), of "fst e" "snd e"] by (simp add: consumer_ok_def)
  from d(1) have "(d, p) \<in> set (lk_consumers g) \<or> (d, p) = (c', ph')"
    using set_update_subset_insert by fastforce
  then show ?thesis
  proof
    assume "(d, p) \<in> set (lk_consumers g)"
    with here [OF this] d(2,3) show ?thesis by (auto simp: payload_locked_iff)
  next
    assume "(d, p) = (c', ph')"
    with here [OF lk_at_set [OF assms(2)]] d(2,3) assms(6) show ?thesis by auto
  qed
qed

lemma set_next_cells [simp]:
  "payload_ref (nodes (set_next n r s) x) = payload_ref (nodes s x)" "payloads (set_next n r s) = payloads s"
  by (simp_all add: set_next_def)

lemma next_turn_cells:
  assumes t: "next_turn i c ph g = Some (ev, g')" and i: "lk_at g i = Some (c, ph)"
    and new: "lk_consumers g' ! i = (c', ph')"
  shows "lk_consumers g' = (lk_consumers g)[i := (c', ph')]"
    and "holds_payload ph' \<Longrightarrow> c' = c \<and> (holds_payload ph \<or> ph = Guarding)"
    and "holds_node ph' \<Longrightarrow> c' = c \<and> (holds_node ph \<or> ph = Locking)"
    and "payload_ref (nodes (lk_store g') x) = payload_ref (nodes (lk_store g) x)"
    and "payloads (lk_store g') r = payloads (lk_store g) r \<or>
       wants_write (lk_store g) b c ph \<and> payload_ref (nodes (lk_store g) (mc_current c)) = r"
proof -
  let ?Q = "lk_consumers g' = (lk_consumers g)[i := (c', ph')] \<and>
    (holds_payload ph' \<longrightarrow> c' = c \<and> (holds_payload ph \<or> ph = Guarding)) \<and>
    (holds_node ph' \<longrightarrow> c' = c \<and> (holds_node ph \<or> ph = Locking)) \<and>
    payload_ref (nodes (lk_store g') x) = payload_ref (nodes (lk_store g) x) \<and>
    (payloads (lk_store g') r = payloads (lk_store g) r \<or>
       wants_write (lk_store g) b c ph \<and> payload_ref (nodes (lk_store g) (mc_current c)) = r)"
  have ?Q
  proof (cases ph)
    case (Pruning cl n)
    with t i new show ?thesis
      by (cases n) (auto simp: lk_at_Some next_turn_def prune_turn_def Let_def set_next_def split: if_splits option.splits)
  next
    case Checking
    with t i new check_payloads [of "mc_id c" "mc_current c" "lk_store g" r] show ?thesis
      by (auto simp: lk_at_Some next_turn_def Let_def same_shapeD(3,4) [OF check_same_shape] split: if_splits)
  qed (use t i new in \<open>auto simp: lk_at_Some next_turn_def Let_def split: if_splits\<close>)
  then show "lk_consumers g' = (lk_consumers g)[i := (c', ph')]"
    and "holds_payload ph' \<Longrightarrow> c' = c \<and> (holds_payload ph \<or> ph = Guarding)"
    and "holds_node ph' \<Longrightarrow> c' = c \<and> (holds_node ph \<or> ph = Locking)"
    and "payload_ref (nodes (lk_store g') x) = payload_ref (nodes (lk_store g) x)"
    and "payloads (lk_store g') r = payloads (lk_store g) r \<or>
       wants_write (lk_store g) b c ph \<and> payload_ref (nodes (lk_store g) (mc_current c)) = r"
    by blast+
qed

lemma drop_ends_cells:
  assumes "drop_ends i c g = (ev, g')"
  shows "lk_consumers g' = (lk_consumers g)[i := (c, Gone)]"
    and "payload_ref (nodes (lk_store g') x) = payload_ref (nodes (lk_store g) x)"
    and "payloads (lk_store g') r = payloads (lk_store g) r \<or>
       check_claims (mc_id c) (mc_current c) (lk_store g) \<and> payload_ref (nodes (lk_store g) (mc_current c)) = r"
  using assms check_payloads [of "mc_id c" "mc_current c" "lk_store g" r]
  by (auto simp: drop_ends_def Let_def same_shapeD(4) [OF check_same_shape])

text \<open>A step of the queue neither changes nor locks a payload that somebody reads.\<close>

lemma queue_step_reads:
  assumes g: "lk_ok g" and st: "lk_step x g = Some (e, g')" and x: "\<forall>k. x \<noteq> CallClaim k"
    and r: "reads_ok g r" "r < payload_count (lk_store g)" "\<not> step_writer g a x r"
    and drop: "\<And>i. x = StepDrop i \<Longrightarrow> a i \<noteq> None"
  shows "reads_ok g' r \<and> payloads (lk_store g') r = payloads (lk_store g) r"
proof (cases x)
  case (StepNext i)
  with st obtain c ph where i: "lk_at g i = Some (c, ph)" and t: "next_turn i c ph g = Some (e, g')"
    by (auto split: option.splits)
  obtain c' ph' where "lk_consumers g' ! i = (c', ph')" by fastforce
  note n = next_turn_cells [OF t i this]
  have not_here: "\<not> (wants_write (lk_store g) (a i) c ph \<and> payload_ref (nodes (lk_store g) (mc_current c)) = r)"
    using r(3) i StepNext by (auto simp: step_writer_def)
  then have "\<not> (holds_payload ph' \<and> payload_ref (nodes (lk_store g) (mc_current c)) = r)"
    using n(2) r(1) lk_at_set [OF i] unfolding reads_ok_def payload_locked_iff by (metis wants_write.simps(1))
  with payload_locked_updated [OF _ i n(1) _ g] n(2,4) n(5) [of r "a i"] r(1) not_here show ?thesis
    by (auto simp: reads_ok_def)
next
  case (StepDrop i)
  with st obtain c where i: "lk_at g i = Some (c, Leaving)" and d: "drop_ends i c g = (e, g')"
    by (auto split: option.splits phase.splits if_splits)
  note n = drop_ends_cells [OF d]
  have "\<not> (check_claims (mc_id c) (mc_current c) (lk_store g) \<and> payload_ref (nodes (lk_store g) (mc_current c)) = r)"
    using r(3) i StepDrop drop by (auto simp: step_writer_def)
  with payload_locked_updated [OF _ i n(1) _ g] n(2) n(3) [of r] r(1) show ?thesis
    by (auto simp: reads_ok_def)
next
  case StepPush
  with st obtain n y where "push_at n y g = (e, g')" by (auto split: option.splits if_splits)
  then have "lk_consumers g' = lk_consumers g"
    "\<And>x. payload_ref (nodes (lk_store g') x) = payload_ref (nodes (lk_store g) x)"
    "payloads (lk_store g') = payloads (lk_store g)"
    by (auto simp: push_at_def Let_def set_next_def split: option.splits if_splits)
  with r(1) show ?thesis by (simp add: reads_ok_def payload_locked_def)
next
  case (CallPush v)
  then have g': "g' = push_begins v g" using st by (auto split: if_splits)
  have "mc_current c < node_count (lk_store g)" if "(c, ph) \<in> set (lk_consumers g)" for c ph
    using lk_okD(5) [OF g that] by (simp add: consumer_ok_def)
  with r(1,2) show ?thesis by (fastforce simp: reads_ok_def payload_locked_iff g' push_begins_eq)
next
  case (CallNew cid)
  then obtain c s where c: "create_consumer cid (lk_queue g) (lk_store g) = (c, s)"
    and g': "g' = g\<lparr>lk_store := s, lk_consumers := lk_consumers g @ [(c, Resting)]\<rparr>"
    using st by (auto split: if_splits prod.splits)
  then have "payloads s = payloads (lk_store g)" "nodes s = nodes (lk_store g)"
    by (auto simp: create_consumer_def Let_def split: if_splits)
  with r(1) show ?thesis by (auto simp: reads_ok_def payload_locked_iff g')
next
  case (CallNext i)
  with st obtain c where i: "lk_at g i = Some (c, Resting)" and "g' = set_consumer i c Locking g"
    by (auto split: option.splits phase.splits)
  then show ?thesis using payload_locked_updated [OF _ i, of g' r c Locking] g r(1) by (auto simp: reads_ok_def)
next
  case (CallDrop i)
  with st obtain c where i: "lk_at g i = Some (c, Resting)" and "drop_begins i c g = (e, g')"
    by (auto split: option.splits phase.splits)
  then show ?thesis
    using payload_locked_updated [OF _ i, of g' r c Gone] payload_locked_updated [OF _ i, of g' r c Leaving] g r(1)
    by (auto simp: reads_ok_def drop_begins_def Let_def split: if_splits)
qed (use x in simp)

text \<open>Delivered messages are kept, in their places.\<close>

lemma queue_step_held:
  assumes "lk_step x g = Some (e, g')" and "k < length (lk_held g)"
  shows "k < length (lk_held g')" and "lk_held g' ! k = lk_held g ! k"
proof -
  have "\<exists>ms. lk_held g' = lk_held g @ ms"
  proof (cases x)
    case (StepNext i)
    with assms(1) show ?thesis
      by (auto simp: next_turn_def prune_turn_def Let_def split: option.splits phase.splits if_splits)
  qed (use assms(1) in \<open>auto simp: push_begins_eq push_at_def drop_begins_def drop_ends_def Let_def
      split: option.splits phase.splits if_splits prod.splits\<close>)
  then obtain ms where "lk_held g' = lk_held g @ ms" by blast
  with assms(2) show "k < length (lk_held g')" and "lk_held g' ! k = lk_held g ! k"
    by (simp_all add: nth_append)
qed

section \<open>Trackers\<close>

lemma set_next_trackers [simp]:
  "target_consumers (nodes (set_next n r s) x) = target_consumers (nodes s x)"
  "active (set_next n r s) = active s" "live (set_next n r s) = live s"
  "tracker_count (set_next n r s) = tracker_count s" "autodrop (set_next n r s) = autodrop s"
  by (simp_all add: set_next_def)

lemma check_trackers:
  "target_consumers (nodes (check_should_now_autodrop cid x s) y) =
     (if y = x then map_option (hm_remove cid) (target_consumers (nodes s x)) else target_consumers (nodes s y))"
  "active (check_should_now_autodrop cid x s) = active s" "live (check_should_now_autodrop cid x s) = live s"
  "tracker_count (check_should_now_autodrop cid x s) = tracker_count s"
  by (auto simp: check_should_now_autodrop_def claim_def Let_def split: option.splits)

lemma trackers_check: "trackers_ok s \<Longrightarrow> trackers_ok (check_should_now_autodrop cid x s)"
  by (auto simp: trackers_ok_def check_trackers set_hm_remove split: if_splits)

lemma set_hm_insert: "set (hm_insert k t m) \<subseteq> insert (k, t) (set m)"
  unfolding hm_insert_def by (induction m) auto

lemma trackers_set_next [simp]: "trackers_ok (set_next n r s) = trackers_ok s"
  by (simp add: trackers_ok_def)

definition checks_node :: "lmq_locks \<Rightarrow> lk_op \<Rightarrow> nref \<Rightarrow> bool" where
  "checks_node g x y \<longleftrightarrow>
     (\<exists>m d. (x = StepNext m \<and> lk_at g m = Some (d, Checking) \<or> x = StepDrop m \<and> lk_at g m = Some (d, Leaving)) \<and>
        mc_current d = y)"

text \<open>What a step does to trackers: none comes back to life, and targets are removed by checks only.\<close>

definition trackers_step :: "lmq_locks \<Rightarrow> lk_op \<Rightarrow> nref \<Rightarrow> lmq_store \<Rightarrow> bool" where
  "trackers_step g x y s' \<longleftrightarrow>
     trackers_ok s' \<and> autodrop s' = autodrop (lk_store g) \<and>
     (\<forall>t < tracker_count (lk_store g). live s' t \<longrightarrow> live (lk_store g) t) \<and>
     (y < node_count (lk_store g) \<and> \<not> checks_node g x y \<longrightarrow>
        target_consumers (nodes s' y) = target_consumers (nodes (lk_store g) y))"

lemma next_turn_trackers:
  assumes t: "next_turn i c ph g = Some (ev, g')" and i: "lk_at g i = Some (c, ph)" and ok: "trackers_ok (lk_store g)"
  shows "trackers_step g (StepNext i) y (lk_store g')"
proof (cases "ph = Checking")
  case True
  with t i ok show ?thesis
    by (auto simp: next_turn_def Let_def trackers_step_def trackers_check check_trackers checks_node_def
        same_shapeD(6) [OF check_same_shape] split: if_splits)
next
  case False
  with t ok show ?thesis
    by (auto simp: next_turn_def prune_turn_def Let_def trackers_step_def split: phase.splits option.splits if_splits)
qed

lemma new_node_trackers:
  assumes "trackers_ok s" and "t \<in> {None, Some (active s)}"
  shows "trackers_ok (s\<lparr>payloads := p, payload_count := n, nodes := (nodes s)(k := \<lparr>payload_ref = r, next_ref = q, target_consumers = t\<rparr>),
    node_count := m\<rparr>)"
  using assms by (auto simp: trackers_ok_def)

lemma create_trackers:
  assumes ok: "trackers_ok s" and c: "create_consumer cid q s = (c, s')"
  shows "trackers_ok s'" and "nodes s' = nodes s" and "autodrop s' = autodrop s"
    and "t < tracker_count s \<Longrightarrow> live s' t \<Longrightarrow> live s t"
proof -
  show "nodes s' = nodes s" "autodrop s' = autodrop s" "t < tracker_count s \<Longrightarrow> live s' t \<Longrightarrow> live s t"
    using c by (auto simp: create_consumer_def Let_def split: if_splits)
  show "trackers_ok s'"
  proof (cases "autodrop s")
    case True
    let ?l = "(live s)(tracker_count s := True)"
    have act: "active s' = hm_insert cid (tracker_count s) (hm_retain ?l (active s))" "tracker_count s' = Suc (tracker_count s)"
      using c True by (auto simp: create_consumer_def Let_def)
    have "snd kv < tracker_count s'" if "kv \<in> set (active s')" for kv
      using that ok set_hm_insert [of cid "tracker_count s" "hm_retain ?l (active s)"]
      by (force simp: act trackers_ok_def hm_retain_def)
    moreover have "snd kv < tracker_count s'" if "target_consumers (nodes s' x) = Some tc" "kv \<in> set tc" for x tc kv
      using that ok unfolding \<open>nodes s' = nodes s\<close> act(2) trackers_ok_def by (blast intro: less_SucI)
    ultimately show ?thesis unfolding trackers_ok_def by blast
  next
    case False
    with ok c show ?thesis by (simp add: create_consumer_def)
  qed
qed

lemma queue_step_trackers:
  assumes st: "lk_step x g = Some (e, g')" and ok: "trackers_ok (lk_store g)"
  shows "trackers_step g x y (lk_store g')"
proof (cases x)
  case (StepNext i)
  with st next_turn_trackers [OF _ _ ok] show ?thesis by (auto split: option.splits)
next
  case (StepDrop i)
  with st obtain d where i: "lk_at g i = Some (d, Leaving)" and "drop_ends i d g = (e, g')"
    by (auto split: option.splits phase.splits if_splits)
  moreover have "trackers_ok (s\<lparr>live := l\<rparr>) = trackers_ok s" for s l by (simp add: trackers_ok_def)
  ultimately show ?thesis using ok StepDrop
    by (auto simp: drop_ends_def Let_def trackers_step_def trackers_check check_trackers checks_node_def
        same_shapeD(6) [OF check_same_shape] split: if_splits)
next
  case (CallNew cid)
  with st obtain c where "create_consumer cid (lk_queue g) (lk_store g) = (c, lk_store g')"
    by (auto split: if_splits prod.splits)
  from create_trackers [OF ok this] show ?thesis by (simp add: trackers_step_def)
next
  case (CallPush v)
  with st new_node_trackers [OF ok] show ?thesis
    by (auto simp: push_begins_eq with_node_def trackers_step_def split: if_splits)
next
  case (CallDrop i)
  have "trackers_ok (s\<lparr>active := hm_remove k (active s)\<rparr>)" if "trackers_ok s" for s k
    using that by (auto simp: trackers_ok_def set_hm_remove)
  with st ok CallDrop show ?thesis
    by (auto simp: drop_begins_def Let_def trackers_step_def split: option.splits phase.splits if_splits)
next
  case StepPush
  have "trackers_ok (s\<lparr>notified := l\<rparr>) = trackers_ok s" for s l by (simp add: trackers_ok_def)
  with st ok StepPush show ?thesis
    by (auto simp: push_at_def Let_def trackers_step_def split: option.splits if_splits)
next
  case (CallClaim k)
  have "trackers_ok (s\<lparr>payloads := l\<rparr>) = trackers_ok s" for s l by (simp add: trackers_ok_def)
  with st ok CallClaim show ?thesis by (auto simp: claim_def trackers_step_def split: if_splits)
qed (use st ok in \<open>auto simp: trackers_step_def split: option.splits phase.splits if_splits\<close>)

lemma check_claims_stays:
  assumes "trackers_ok (lk_store g)" and "trackers_step g x y s'" and "y < node_count (lk_store g)" and "\<not> checks_node g x y"
    and "check_claims cid y (lk_store g)"
  shows "check_claims cid y s'"
proof -
  obtain tc where tc: "target_consumers (nodes (lk_store g) y) = Some tc"
    and dead: "\<And>kv. kv \<in> set (hm_remove cid tc) \<Longrightarrow> \<not> live (lk_store g) (snd kv)"
    using assms(5) by (auto simp: check_claims_def hm_all_iff split: option.splits)
  have "\<not> live s' (snd kv)" if kv: "kv \<in> set (hm_remove cid tc)" for kv
  proof -
    have "snd kv < tracker_count (lk_store g)"
      using assms(1) tc kv unfolding trackers_ok_def set_hm_remove by blast
    with dead [OF kv] assms(2) show ?thesis by (auto simp: trackers_step_def)
  qed
  moreover have "target_consumers (nodes s' y) = Some tc" using assms(2-4) tc by (simp add: trackers_step_def)
  ultimately show ?thesis by (simp add: check_claims_def hm_all_iff)
qed

section \<open>The further mutex\<close>


lemma ahead_okD:
  assumes "ahead_ok g a" and "a i = Some x"
  shows "asks_node g i = Some x" and "\<not> node_locked g x" and "a j = Some x \<Longrightarrow> j = i"
  using assms unfolding ahead_ok_def by blast+

lemma ahead_locked_iff:
  "ahead_ok (vw_locks v) (vw_ahead v) \<Longrightarrow> ahead_locked v x \<longleftrightarrow> (\<exists>i. vw_ahead v i = Some x)"
  using ahead_okD(1) [of "vw_locks v" "vw_ahead v"]
  by (fastforce simp: ahead_locked_def list_ex_iff asks_node_def lk_at_def split: if_splits)

lemma ahead_keep:
  assumes "ahead_ok g a"
    and "\<And>j y. a' j = Some y \<Longrightarrow> a j = Some y \<and> lk_at g' j = lk_at g j \<and> (node_locked g' y \<longrightarrow> node_locked g y)"
  shows "ahead_ok g' a'"
  using assms unfolding ahead_ok_def asks_node_def by metis

lemma same_consumers_ahead: "ahead_ok g a \<Longrightarrow> lk_consumers g' = lk_consumers g \<Longrightarrow> ahead_ok g' a"
  unfolding ahead_ok_def asks_node_def lk_at_def node_locked_def by (simp only:)

lemma node_locked_updated:
  assumes "lk_consumers g' = (lk_consumers g)[i := (c', ph')]" and "node_locked g' x"
  shows "node_locked g x \<or> holds_node ph' \<and> mc_current c' = x"
proof -
  from assms obtain d p where "(d, p) \<in> set ((lk_consumers g)[i := (c', ph')])" "holds_node p" "mc_current d = x"
    by (auto simp: node_locked_iff)
  then show ?thesis
    using set_update_subset_insert [of "lk_consumers g" i "(c', ph')"] by (fastforce simp: node_locked_iff)
qed

lemma lk_at_updated:
  "lk_consumers g' = (lk_consumers g)[i := (c', ph')] \<Longrightarrow> j \<noteq> i \<Longrightarrow> lk_at g' j = lk_at g j"
  by (simp add: lk_at_def)

lemma thread_step_ahead:
  assumes ok: "ahead_ok g a" and i: "lk_at g i = Some (c, ph)"
    and g': "lk_consumers g' = (lk_consumers g)[i := (c', ph')]"
    and own: "a' = a(i := None) \<or> a' = a \<and> a i = None"
    and new: "holds_node ph' \<Longrightarrow> c' = c \<and> (holds_node ph \<or> (\<forall>j. a j \<noteq> Some (mc_current c)))"
  shows "ahead_ok g' a'"
proof (rule ahead_keep [OF ok])
  fix j y assume j: "a' j = Some y"
  with own have aj: "a j = Some y" "j \<noteq> i" by (auto split: if_splits)
  have "node_locked g y" if l: "node_locked g' y"
    using node_locked_updated [OF g' l]
  proof
    assume "holds_node ph' \<and> mc_current c' = y"
    with new aj(1) have "holds_node ph" "mc_current c = y" by auto
    with lk_at_set [OF i] show ?thesis by (auto simp: node_locked_iff)
  qed
  with aj lk_at_updated [OF g'] show "a j = Some y \<and> lk_at g' j = lk_at g j \<and> (node_locked g' y \<longrightarrow> node_locked g y)"
    by blast
qed

lemma queue_step_ahead:
  assumes ok: "ahead_ok (vw_locks v) (vw_ahead v)" and free: "vw_free x v"
    and st: "lk_step x (vw_locks v) = Some (e, g')"
  shows "ahead_ok g' (drops_ahead x (vw_ahead v))"
proof -
  let ?g = "vw_locks v" and ?a = "vw_ahead v"
  have idle: "?a i = None" if "lk_at ?g i = Some (c, Resting)" for i c
    using that ahead_okD(1) [OF ok, of i] by (cases "?a i") (auto simp: asks_node_def)
  show ?thesis
  proof (cases x)
    case (StepNext i)
    with st obtain c ph where i: "lk_at ?g i = Some (c, ph)" and t: "next_turn i c ph ?g = Some (e, g')"
      by (auto split: option.splits)
    obtain c' ph' where "lk_consumers g' ! i = (c', ph')" by fastforce
    note n = next_turn_cells [OF t i this]
    have "\<forall>j. ?a j \<noteq> Some (mc_current c)" if "ph = Locking"
      using free StepNext i that ahead_locked_iff [OF ok] by auto
    with n(3) StepNext show ?thesis by (intro thread_step_ahead [OF ok i n(1)]) auto
  next
    case (StepDrop i)
    with st obtain c where i: "lk_at ?g i = Some (c, Leaving)" and d: "drop_ends i c ?g = (e, g')"
      by (auto split: option.splits phase.splits if_splits)
    with StepDrop show ?thesis by (intro thread_step_ahead [OF ok i drop_ends_cells(1) [OF d]]) auto
  next
    case (CallNext i)
    with st obtain c where i: "lk_at ?g i = Some (c, Resting)" and g': "g' = set_consumer i c Locking ?g"
      by (auto split: option.splits phase.splits)
    with CallNext idle [OF i] show ?thesis by (intro thread_step_ahead [OF ok i, of g' c Locking]) auto
  next
    case (CallDrop i)
    with st obtain c where i: "lk_at ?g i = Some (c, Resting)" and "drop_begins i c ?g = (e, g')"
      by (auto split: option.splits phase.splits)
    with CallDrop idle [OF i] thread_step_ahead [OF ok i, of g' c Leaving] thread_step_ahead [OF ok i, of g' c Gone]
    show ?thesis by (auto simp: drop_begins_def Let_def split: if_splits)
  next
    case (CallNew cid)
    with st obtain c where "lk_consumers g' = lk_consumers ?g @ [(c, Resting)]" by (auto split: if_splits prod.splits)
    moreover have "lk_at g' j = lk_at ?g j" if "?a j = Some y" for j y
      using ahead_okD(1) [OF ok that] calculation
      by (auto simp: asks_node_def lk_at_def nth_append split: if_splits)
    ultimately show ?thesis using CallNew by (intro ahead_keep [OF ok]) (auto simp: node_locked_iff)
  qed (use st free in \<open>auto simp: push_begins_eq push_at_def Let_def
      intro!: same_consumers_ahead [OF ok] split: option.splits if_splits\<close>)
qed

section \<open>Every step keeps the invariant\<close>

text \<open>The \<open>unwrap\<close> of \<open>deref\<close> does not panic; a message given to a consumer was readable.\<close>

definition vw_good :: "vw_event \<Rightarrow> bool" where
  "vw_good ev \<longleftrightarrow> (case ev of VwQueue e \<Rightarrow> lk_readable e | VwView j b \<Rightarrow> b \<noteq> None | _ \<Rightarrow> True)"

lemma vw_okD:
  assumes "vw_ok v"
  shows "lk_ok (vw_locks v)" and "ahead_ok (vw_locks v) (vw_ahead v)"
    and "cl \<in> set (vw_clients v) \<Longrightarrow> client_ok (vw_locks v) cl"
    and "trackers_ok (lk_store (vw_locks v))"
  using assms by (auto simp: vw_ok_def)

lemma client_at_Some: "client_at v j = Some (k, p) \<longleftrightarrow> j < length (vw_clients v) \<and> vw_clients v ! j = (k, p)"
  by (auto simp: client_at_def)

lemma client_at_set: "client_at v j = Some (k, p) \<Longrightarrow> (k, p) \<in> set (vw_clients v)"
  unfolding client_at_Some by (metis nth_mem)

lemma client_at_ok:
  assumes "vw_ok v" and "client_at v j = Some (k, p)"
  shows "p \<noteq> Away \<Longrightarrow> k < length (lk_held (vw_locks v))"
    and "reading p \<Longrightarrow> reads_ok (vw_locks v) (cell_of v k)"
  using vw_okD(3) [OF assms(1) client_at_set [OF assms(2)]] by (cases p; simp add: client_ok_def cell_of_def)+

lemma view_locked_iff: "view_locked v r \<longleftrightarrow> (\<exists>k p. (k, p) \<in> set (vw_clients v) \<and> reading p \<and> cell_of v k = r)"
  by (auto simp: view_locked_def list_ex_iff)

lemma write_asked_iff:
  "write_asked v r \<longleftrightarrow> (\<exists>k. (k, ClaimWaits) \<in> set (vw_clients v) \<and> cell_of v k = r) \<or> (\<exists>i. writer_at v i r)"
proof -
  have "i < length (lk_consumers (vw_locks v))" if "writer_at v i r" for i
    using that by (auto simp: writer_at_def lk_at_def split: if_splits)
  then show ?thesis by (auto simp: write_asked_def list_ex_iff)
qed

lemma cell_allocated:
  assumes "lk_ok g" and "k < length (lk_held g)"
  shows "payload_ref (lk_held g ! k) < payload_count (lk_store g)"
proof -
  have "message_ok (lk_store g) (lk_held g ! k)" using lk_okD(7) [OF assms(1)] assms(2) by simp
  then show ?thesis using store_okD(4) [OF lk_okD(1) [OF assms(1)]] by (auto simp: message_ok_def)
qed

text \<open>What a guarded step of the queue leaves to a reader.\<close>

lemma free_no_writer:
  assumes "vw_free x v" and "view_locked v r"
  shows "\<not> step_writer (vw_locks v) (vw_ahead v) x r"
proof
  assume "step_writer (vw_locks v) (vw_ahead v) x r"
  then obtain i c ph where "x = StepNext i \<or> x = StepDrop i" "lk_at (vw_locks v) i = Some (c, ph)"
    "wants_write (lk_store (vw_locks v)) (vw_ahead v i) c ph"
    "payload_ref (nodes (lk_store (vw_locks v)) (mc_current c)) = r" by (auto simp: step_writer_def)
  with assms show False by (cases ph) (auto simp: waits_for_view_def)
qed

lemma free_reads:
  assumes ok: "vw_ok v" and free: "vw_free x v" and st: "lk_step x (vw_locks v) = Some (e, g')"
    and cl: "(k, p) \<in> set (vw_clients v)" "reading p"
  shows "reads_ok g' (cell_of v k) \<and> payloads (lk_store g') (cell_of v k) = payloads (lk_store (vw_locks v)) (cell_of v k)"
proof (rule queue_step_reads [OF vw_okD(1) [OF ok] st, where a = "vw_ahead v"])
  have c: "k < length (lk_held (vw_locks v))" "reads_ok (vw_locks v) (cell_of v k)"
    using vw_okD(3) [OF ok cl(1)] cl(2) by (cases p; simp add: client_ok_def cell_of_def)+
  show "\<forall>k. x \<noteq> CallClaim k" and "\<And>i. x = StepDrop i \<Longrightarrow> vw_ahead v i \<noteq> None" using free by auto
  show "reads_ok (vw_locks v) (cell_of v k)" by (fact c(2))
  show "cell_of v k < payload_count (lk_store (vw_locks v))"
    using cell_allocated [OF vw_okD(1) [OF ok] c(1)] by (simp add: cell_of_def)
  show "\<not> step_writer (vw_locks v) (vw_ahead v) x (cell_of v k)"
    using cl by (intro free_no_writer [OF free]) (auto simp: view_locked_iff)
qed

lemma claim_step:
  assumes "lk_step (CallClaim k) g = Some (e, g1)"
  shows "lk_consumers g1 = lk_consumers g" and "lk_held g1 = lk_held g" and "lk_push g1 = lk_push g"
    and "nodes (lk_store g1) = nodes (lk_store g)" and "node_count (lk_store g1) = node_count (lk_store g)"
    and "payloads (lk_store g1) = (payloads (lk_store g))(payload_ref (lk_held g ! k) := None)"
    and "payload_locked g1 = payload_locked g"
  using assms by (auto simp: claim_def payload_locked_def fun_eq_iff split: if_splits)

lemma vw_simps [simp]:
  "vw_locks (set_client j k p v) = vw_locks v" "vw_ahead (set_client j k p v) = vw_ahead v"
  "vw_clients (set_client j k p v) = (vw_clients v)[j := (k, p)]"
  by (simp_all add: set_client_def)

lemma cell_of_simps [simp]: "cell_of (set_client j k p v) = cell_of v" "cell_of (v\<lparr>vw_ahead := a\<rparr>) = cell_of v"
  "cell_of (v\<lparr>vw_clients := cs\<rparr>) = cell_of v"
  by (simp_all add: cell_of_def fun_eq_iff)

lemma set_client_ok:
  assumes "vw_ok v" and "client_ok (vw_locks v) (k, p)"
  shows "vw_ok (set_client j k p v)"
  using assms set_update_subset_insert [of "vw_clients v" j "(k, p)"] by (auto simp: vw_ok_def)

lemma queue_vw_ok:
  assumes ok: "vw_ok v" and free: "vw_free x v" and st: "lk_step x (vw_locks v) = Some (e, g')"
  shows "vw_ok (v\<lparr>vw_locks := g', vw_ahead := drops_ahead x (vw_ahead v)\<rparr>) \<and> lk_readable e"
proof -
  have "client_ok g' (k, p)" if cl: "(k, p) \<in> set (vw_clients v)" for k p
  proof -
    have "k < length (lk_held (vw_locks v))" if "p \<noteq> Away"
      using vw_okD(3) [OF ok cl] that by (simp add: client_ok_def)
    with queue_step_held [OF st, of k] free_reads [OF ok free st cl] show ?thesis
      by (auto simp: client_ok_def cell_of_def)
  qed
  then show ?thesis
    using lk_step_ok [OF vw_okD(1) [OF ok] st] queue_step_ahead [OF vw_okD(2) [OF ok] free st]
      queue_step_trackers [OF st vw_okD(4) [OF ok]]
    by (auto simp: vw_ok_def trackers_step_def)
qed

lemma take_node_ok:
  assumes "vw_ok v" and "asks_node (vw_locks v) i = Some x" and "\<not> node_locked (vw_locks v) x" and "\<not> ahead_locked v x"
  shows "vw_ok (v\<lparr>vw_ahead := (vw_ahead v)(i := Some x)\<rparr>)"
  using assms(2-4) vw_okD [OF assms(1)] ahead_locked_iff [OF vw_okD(2) [OF assms(1)], of x]
  by (auto simp: vw_ok_def ahead_ok_def)

lemma client_step_ok:
  assumes ok: "vw_ok v" and j: "client_at v j = Some (k, p)" and st: "client_step j k p v = Some (ev, v')"
  shows "vw_ok v' \<and> vw_good ev"
proof (cases p)
  case ClaimWaits
  with st obtain e g1 where free: "\<not> view_locked v (cell_of v k)" and c: "lk_step (CallClaim k) (vw_locks v) = Some (e, g1)"
    and v': "ev = VwQueue e" "v' = set_client j k Away (v\<lparr>vw_locks := g1\<rparr>)"
    by (auto simp: client_step_def simp del: lk_step.simps split: if_splits option.splits)
  note same = claim_step [OF c]
  have "client_ok g1 cl" if cl: "cl \<in> set (vw_clients v)" for cl
    using vw_okD(3) [OF ok cl] cl free
    by (auto simp: client_ok_def reads_ok_def same cell_of_def view_locked_iff split: prod.splits)
  then have "vw_ok (v\<lparr>vw_locks := g1\<rparr>)"
    using lk_step_ok [OF vw_okD(1) [OF ok] c] same_consumers_ahead [OF vw_okD(2) [OF ok] same(1)]
      queue_step_trackers [OF c vw_okD(4) [OF ok]]
    by (auto simp: vw_ok_def trackers_step_def)
  with v' lk_step_ok [OF vw_okD(1) [OF ok] c] show ?thesis
    by (auto simp: vw_good_def client_ok_def intro: set_client_ok)
next
  case ReadFirst
  with st client_at_ok [OF ok j] show ?thesis
    by (auto simp: client_step_def Let_def vw_good_def client_ok_def reads_ok_def cell_of_def
        split: if_splits intro!: set_client_ok [OF ok])
next
  case ReadSecond
  with st client_at_ok [OF ok j] show ?thesis
    by (auto simp: client_step_def Let_def vw_good_def client_ok_def reads_ok_def cell_of_def
        split: if_splits intro!: set_client_ok [OF ok])
qed (use st in \<open>auto simp: client_step_def\<close>)

lemma vw_step_ok:
  assumes ok: "vw_ok v" and st: "vw_step x v = Some (ev, v')"
  shows "vw_ok v' \<and> vw_good ev"
proof (cases x)
  case (Queue y)
  with st queue_vw_ok [OF ok] show ?thesis by (fastforce simp: vw_good_def split: if_splits option.splits)
next
  case (TakeNode i)
  with st take_node_ok [OF ok] show ?thesis by (auto simp: vw_good_def split: option.splits if_splits)
next
  case NewClient
  with st ok show ?thesis by (auto simp: vw_good_def vw_ok_def client_ok_def)
next
  case (StepClient j)
  with st client_step_ok [OF ok] show ?thesis by (auto split: option.splits)
qed (use st ok in \<open>auto simp: vw_good_def client_ok_def intro!: set_client_ok split: option.splits payload_phase.splits if_splits\<close>)

lemma vw_ok_start: "vw_ok (vw_start ad)"
  using lk_ok_start
  by (simp add: vw_ok_def vw_start_def ahead_ok_def trackers_ok_def lk_start_def lmq_new_def empty_store_def
      alloc_payload_def alloc_node_def Let_def)

interpretation vw: guarded_machine vw_step vw_ok vw_good
  by standard (rule vw_step_ok)

end
