(* ===== verification/Lmq_Views_Props.thy ===== *)
theory Lmq_Views_Props
  imports Lmq_Views_Invariant
begin

text \<open>
  What a view does: it never changes while it is held, whatever all threads do, and it stops the queue behind
  the message that is read.
\<close>

section \<open>A reader stops the queue\<close>

text \<open>A view stays as long as its client does not release it.\<close>

lemma view_remains:
  assumes ok: "vw_ok v" and st: "vw_step x v = Some (ev, v')" and j: "client_at v j = Some (k, p)"
    and p: "reading p" and keep: "p = Viewing \<Longrightarrow> x \<noteq> Release j"
  shows "\<exists>p'. client_at v' j = Some (k, p') \<and> reading p' \<and> (p = Viewing \<or> write_asked v (cell_of v k) \<longrightarrow> p' = p) \<and>
    cell_of v' k = cell_of v k \<and>
    payloads (lk_store (vw_locks v')) (cell_of v k) = payloads (lk_store (vw_locks v)) (cell_of v k)"
proof -
  have k: "k < length (lk_held (vw_locks v))" using client_at_ok(1) [OF ok j] p by fastforce
  note cl = client_at_set [OF j]
  show ?thesis
  proof (cases x)
    case (Queue y)
    with st obtain e g' where free: "vw_free y v" and y: "lk_step y (vw_locks v) = Some (e, g')"
      and v': "v' = v\<lparr>vw_locks := g', vw_ahead := drops_ahead y (vw_ahead v)\<rparr>"
      by (auto split: if_splits option.splits)
    show ?thesis
      using free_reads [OF ok free y cl p] queue_step_held [OF y k] j p by (auto simp: v' client_at_Some cell_of_def)
  next
    case (StepClient i)
    with st obtain m q where i: "client_at v i = Some (m, q)" "client_step i m q v = Some (ev, v')"
      by (auto split: option.splits)
    show ?thesis
    proof (cases q)
      case ClaimWaits
      with i(2) obtain e g1 where c: "lk_step (CallClaim m) (vw_locks v) = Some (e, g1)"
        and v': "v' = set_client i m Away (v\<lparr>vw_locks := g1\<rparr>)" and free: "\<not> view_locked v (cell_of v m)"
        by (auto simp: client_step_def simp del: lk_step.simps split: if_splits option.splits)
      have "cell_of v m \<noteq> cell_of v k" using free cl p unfolding view_locked_iff by metis
      moreover have "i \<noteq> j" using i(1) j p ClaimWaits by auto
      ultimately show ?thesis
        using j p claim_step(2,6) [OF c] by (auto simp: v' client_at_Some cell_of_def)
    qed (use i j p in \<open>auto simp: client_step_def Let_def client_at_Some nth_list_update split: if_splits\<close>)
  qed (use st j p keep in \<open>auto simp: client_at_Some nth_append nth_list_update cell_of_def
      split: option.splits payload_phase.splits if_splits\<close>)
qed

lemma queue_step_elsewhere:
  assumes g: "lk_ok g" and st: "lk_step x g = Some (e, g')"
  shows "y < node_count (lk_store g) \<Longrightarrow> payload_ref (nodes (lk_store g') y) = payload_ref (nodes (lk_store g) y)"
    and "lk_at g i = Some (c, ph) \<Longrightarrow> ph \<noteq> Resting \<Longrightarrow> x \<noteq> StepNext i \<Longrightarrow> x \<noteq> StepDrop i \<Longrightarrow>
      lk_at g' i = Some (c, ph)"
    and "lk_push g = Some p \<Longrightarrow> x \<noteq> StepPush \<Longrightarrow> lk_push g' = Some p"
proof -
  let ?Q = "(y < node_count (lk_store g) \<longrightarrow> payload_ref (nodes (lk_store g') y) = payload_ref (nodes (lk_store g) y)) \<and>
    (lk_at g i = Some (c, ph) \<and> ph \<noteq> Resting \<and> x \<noteq> StepNext i \<and> x \<noteq> StepDrop i \<longrightarrow> lk_at g' i = Some (c, ph)) \<and>
    (lk_push g = Some p \<and> x \<noteq> StepPush \<longrightarrow> lk_push g' = Some p)"
  have ?Q
  proof (cases x)
    case (StepNext j)
    with st obtain d p where j: "lk_at g j = Some (d, p)" and t: "next_turn j d p g = Some (e, g')"
      by (auto split: option.splits)
    obtain d' p' where "lk_consumers g' ! j = (d', p')" by fastforce
    note n = next_turn_cells [OF t j this]
    have "lk_push g' = lk_push g"
      using t by (auto simp: next_turn_def prune_turn_def Let_def split: phase.splits option.splits if_splits)
    then show ?thesis using n(1,4) StepNext by (auto simp: lk_at_def nth_list_update)
  next
    case (StepDrop j)
    with st obtain d where j: "lk_at g j = Some (d, Leaving)" and d: "drop_ends j d g = (e, g')"
      by (auto split: option.splits phase.splits if_splits)
    then show ?thesis
      using drop_ends_cells(1,2) [OF d] lk_at_updated [OF drop_ends_cells(1) [OF d], of i] StepDrop
      by (cases "i = j") (auto simp: drop_ends_def Let_def)
  next
    case (CallNew cid)
    with st show ?thesis
      by (auto simp: create_consumer_def Let_def lk_at_def nth_append split: if_splits)
  qed (use st in \<open>auto simp: push_begins_eq push_at_def drop_begins_def claim_def Let_def lk_at_def nth_list_update
      split: option.splits phase.splits if_splits\<close>)
  then show "y < node_count (lk_store g) \<Longrightarrow> payload_ref (nodes (lk_store g') y) = payload_ref (nodes (lk_store g) y)"
    and "lk_at g i = Some (c, ph) \<Longrightarrow> ph \<noteq> Resting \<Longrightarrow> x \<noteq> StepNext i \<Longrightarrow> x \<noteq> StepDrop i \<Longrightarrow>
      lk_at g' i = Some (c, ph)"
    and "lk_push g = Some p \<Longrightarrow> x \<noteq> StepPush \<Longrightarrow> lk_push g' = Some p"
    by blast+
qed

text \<open>
  Client \<open>j\<close> reads the message of the node \<open>mc_current c\<close>, on which the consumer \<open>i\<close> stands in \<open>try_next\<close>
  with the node's mutex, waiting for the payload; possibly \<open>push\<close> waits for that mutex.
\<close>

definition stopped :: "nat \<Rightarrow> nat \<Rightarrow> payload_phase \<Rightarrow> nat \<Rightarrow> message_consumer \<Rightarrow> (nref \<times> nref) option \<Rightarrow> lmq_views \<Rightarrow> bool" where
  "stopped j k p i c q v \<longleftrightarrow>
     client_at v j = Some (k, p) \<and> lk_at (vw_locks v) i = Some (c, Guarding) \<and>
     cell_of v k = payload_ref (nodes (lk_store (vw_locks v)) (mc_current c)) \<and>
     (q \<noteq> None \<longrightarrow> lk_push (vw_locks v) = q)"

lemma stopped_step:
  assumes ok: "vw_ok v" and s: "stopped j k p i c q v" and st: "vw_step x v = Some (ev, v')"
    and p: "reading p" and keep: "p = Viewing \<Longrightarrow> x \<noteq> Release j" and q: "\<And>n y. q = Some (n, y) \<Longrightarrow> y = mc_current c"
  shows "stopped j k p i c q v'"
    and "payloads (lk_store (vw_locks v')) (cell_of v k) = payloads (lk_store (vw_locks v)) (cell_of v k)"
    and "cell_of v' k = cell_of v k"
proof -
  let ?g = "vw_locks v"
  have s': "client_at v j = Some (k, p)" "lk_at ?g i = Some (c, Guarding)"
    "cell_of v k = payload_ref (nodes (lk_store ?g) (mc_current c))" "q \<noteq> None \<longrightarrow> lk_push ?g = q"
    using s by (auto simp: stopped_def)
  have asked: "write_asked v (cell_of v k)"
    unfolding write_asked_iff using s'(2,3) by (intro disjI2 exI [of _ i]) (simp add: writer_at_def)
  from view_remains [OF ok st s'(1) p keep] asked
  show pay: "payloads (lk_store (vw_locks v')) (cell_of v k) = payloads (lk_store ?g) (cell_of v k)"
    and cell: "cell_of v' k = cell_of v k" by auto
  from view_remains [OF ok st s'(1) p keep] asked have j: "client_at v' j = Some (k, p)" by auto
  note c = lk_at_set [OF s'(2)]
  have cur: "mc_current c < node_count (lk_store ?g)" "node_locked ?g (mc_current c)"
    using lk_okD(5) [OF vw_okD(1) [OF ok] c] c unfolding consumer_ok_def node_locked_iff
    by (blast, metis holds_node.simps(2))
  have "lk_at (vw_locks v') i = Some (c, Guarding) \<and>
    payload_ref (nodes (lk_store (vw_locks v')) (mc_current c)) = payload_ref (nodes (lk_store ?g) (mc_current c)) \<and>
    (q \<noteq> None \<longrightarrow> lk_push (vw_locks v') = q)"
  proof (cases "\<exists>y e. lk_step y ?g = Some (e, vw_locks v') \<and> y \<noteq> StepNext i \<and> (q \<noteq> None \<longrightarrow> y \<noteq> StepPush)")
    case True
    then obtain y e where y: "lk_step y ?g = Some (e, vw_locks v')" "y \<noteq> StepNext i" "q \<noteq> None \<longrightarrow> y \<noteq> StepPush" by blast
    with s'(2) have "y \<noteq> StepDrop i" by auto
    with y queue_step_elsewhere [OF vw_okD(1) [OF ok] y(1)] s' cur(1) show ?thesis by (cases q) auto
  next
    case False
    have "vw_locks v' = ?g"
    proof (cases x)
      case (Queue y)
      with st obtain e where y: "vw_free y v" "lk_step y ?g = Some (e, vw_locks v')"
        by (auto split: if_splits option.splits)
      have "y \<noteq> StepNext i"
        using y(1) s'(1-3) p client_at_set [OF s'(1)] by (auto simp: waits_for_view_def view_locked_iff)
      moreover have "y \<noteq> StepPush" if "q \<noteq> None"
        using y(2) s'(4) q cur(2) that by (auto split: option.splits if_splits)
      ultimately show ?thesis using False y(2) by blast
    next
      case (StepClient m)
      with st False show ?thesis
        by (auto simp: client_step_def Let_def simp del: lk_step.simps
            split: option.splits payload_phase.splits if_splits) fastforce
    qed (use st in \<open>auto split: option.splits payload_phase.splits if_splits\<close>)
    with s' show ?thesis by simp
  qed
  with j cell s'(3) show "stopped j k p i c q v'" by (simp add: stopped_def)
qed

lemma stopped_run:
  assumes "vw_ok v" and "stopped j k p i c q v" and "run_events vw_step ys v = Some (fs, v')"
    and "reading p" and "p = Viewing \<Longrightarrow> Release j \<notin> set ys" and "\<And>n y. q = Some (n, y) \<Longrightarrow> y = mc_current c"
  shows "stopped j k p i c q v' \<and>
    payloads (lk_store (vw_locks v')) (cell_of v' k) = payloads (lk_store (vw_locks v)) (cell_of v k)"
  using assms
proof (induction ys arbitrary: v fs)
  case (Cons x ys)
  then obtain ev v1 gs where v1: "vw_step x v = Some (ev, v1)" "run_events vw_step ys v1 = Some (gs, v')"
    by (auto split: option.splits)
  have "p = Viewing \<Longrightarrow> x \<noteq> Release j" using Cons.prems(5) by auto
  note s = stopped_step [OF Cons.prems(1,2) v1(1) Cons.prems(4) this Cons.prems(6)]
  have "vw_ok v1" using vw_step_ok Cons.prems(1) v1(1) by blast
  with Cons.IH [OF _ s(1) v1(2) Cons.prems(4) _ Cons.prems(6)] Cons.prems(5) s(2,3) show ?case by simp
qed simp

text \<open>
  C10: A reader stops the queue. While somebody has the view of a message on which another consumer stands, and
  that consumer has called \<open>try_next\<close>, this call keeps the mutex of the message's node and waits; and a \<open>push\<close>
  that comes to that node waits too. Whatever all threads do, neither goes on before the view is released; and
  if the reader is still inside \<open>read\<close>, between the two locks it takes, neither ever does.
\<close>

theorem reader_stops_queue:
  assumes "run_events vw_step xs (vw_start ad) = Some (es, v)"
    and "client_at v j = Some (k, p)" and "p = ReadSecond \<or> p = Viewing \<and> Release j \<notin> set ys"
    and "lk_at (vw_locks v) i = Some (c, Guarding)"
    and "cell_of v k = payload_ref (nodes (lk_store (vw_locks v)) (mc_current c))"
    and "lk_push (vw_locks v) = Some (n, mc_current c)"
    and "run_events vw_step ys v = Some (fs, v')"
  shows "lk_at (vw_locks v') i = Some (c, Guarding) \<and> lk_push (vw_locks v') = Some (n, mc_current c) \<and>
    client_at v' j = Some (k, p) \<and> payloads (lk_store (vw_locks v')) (cell_of v' k) \<noteq> None \<and>
    payloads (lk_store (vw_locks v')) (cell_of v' k) = payloads (lk_store (vw_locks v)) (cell_of v k)"
proof -
  have ok: "vw_ok v" using vw.run_keeps [OF vw_ok_start assms(1)] by blast
  have p: "reading p" using assms(3) by auto
  have "stopped j k p i c (Some (n, mc_current c)) v" using assms(2,4-6) by (simp add: stopped_def)
  from stopped_run [OF ok this assms(7) p] assms(3) client_at_ok(2) [OF ok assms(2) p] show ?thesis
    by (auto simp: stopped_def reads_ok_def)
qed

text \<open>
  Both consumers of a queue have received its message; one of them views it, the other one calls
  \<open>try_next\<close>, and the next \<open>push\<close> waits.
\<close>

definition both_receive :: "vw_op list" where
  "both_receive =
     [Queue (CallNew 1), Queue (CallNew 2), Queue (CallPush [7]), Queue StepPush,
      Queue (CallNext 0), Queue (StepNext 0), Queue (StepNext 0), Queue (StepNext 0), TakeNode 0, Queue (StepNext 0),
      Queue (CallNext 1), Queue (StepNext 1), Queue (StepNext 1), Queue (StepNext 1), TakeNode 1, Queue (StepNext 1)]"

definition other_moves_on :: "vw_op list" where
  "other_moves_on = [Queue (CallNext 1), Queue (StepNext 1), Queue (StepNext 1)]"

definition view_then_push :: "vw_op list" where
  "view_then_push = both_receive @ [NewClient, CallRead 0 0, StepClient 0, StepClient 0] @ other_moves_on @ [Queue (CallPush [8])]"

definition push_blocked :: "lmq_views \<Rightarrow> bool" where
  "push_blocked v \<longleftrightarrow>
     client_at v 0 = Some (0, Viewing) \<and>
     (case lk_at (vw_locks v) 1 of
        Some (c, ph) \<Rightarrow> ph = Guarding \<and> cell_of v 0 = payload_ref (nodes (lk_store (vw_locks v)) (mc_current c)) \<and>
          map_option snd (lk_push (vw_locks v)) = Some (mc_current c)
      | None \<Rightarrow> False) \<and>
     \<not> Option.is_none (run_events vw_step [Queue (CallNext 0), NewClient] v)"

lemma run_check:
  assumes "case r of None \<Rightarrow> False | Some p \<Rightarrow> P (snd p)"
  obtains es v where "r = Some (es, v)" "P v"
  using assms by (cases r) auto

theorem reader_stops_queue_witness:
  "\<exists>es v n x c fs v'. run_events vw_step view_then_push (vw_start True) = Some (es, v) \<and>
     lk_push (vw_locks v) = Some (n, x) \<and> run_events vw_step [Queue (CallNext 0), NewClient] v = Some (fs, v') \<and>
     lk_push (vw_locks v') = Some (n, x) \<and> lk_at (vw_locks v') 1 = Some (c, Guarding)"
proof -
  have "case run_events vw_step view_then_push (vw_start True) of None \<Rightarrow> False | Some p \<Rightarrow> push_blocked (snd p)"
    by code_simp
  then obtain es v where v: "run_events vw_step view_then_push (vw_start True) = Some (es, v)" "push_blocked v"
    by (rule run_check)
  from v(2) obtain c n fs v' where r: "client_at v 0 = Some (0, Viewing)" "lk_at (vw_locks v) 1 = Some (c, Guarding)"
    "cell_of v 0 = payload_ref (nodes (lk_store (vw_locks v)) (mc_current c))"
    "lk_push (vw_locks v) = Some (n, mc_current c)"
    "run_events vw_step [Queue (CallNext 0), NewClient] v = Some (fs, v')"
    by (auto simp: push_blocked_def Option.is_none_def simp del: vw_step.simps run_events.simps split: option.splits)
  have "Viewing = ReadSecond \<or> Viewing = Viewing \<and> Release 0 \<notin> set [Queue (CallNext 0), NewClient]" by simp
  from reader_stops_queue [OF v(1) r(1) this r(2-5)] v(1) r show ?thesis by blast
qed

end
