(* ===== verification/Lmq_Views_Progress.thy ===== *)
theory Lmq_Views_Progress
  imports Lmq_Views_Props
begin

text \<open>
  Which calls of the queue with views end: a bound on the steps of the calls in progress, under every
  schedule; and some schedule completes them all, exactly if no reader is caught between the two locks of \<open>read\<close>.
\<close>

section \<open>Calls in progress\<close>

fun vw_internal :: "vw_op \<Rightarrow> bool" where
  "vw_internal (Queue x) = internal x"
| "vw_internal (TakeNode i) = True"
| "vw_internal (StepClient j) = True"
| "vw_internal (Release j) = True"
| "vw_internal _ = False"

definition vw_busy :: "lmq_views \<Rightarrow> bool" where
  "vw_busy v \<longleftrightarrow> busy (vw_locks v) \<or> list_ex (\<lambda>(k, p). p \<noteq> Away) (vw_clients v)"

text \<open>A reader between the two locks of \<open>read\<close>, and a thread that waits for the write lock of that payload.\<close>

definition caught :: "lmq_views \<Rightarrow> bool" where
  "caught v \<longleftrightarrow> list_ex (\<lambda>(k, p). p = ReadSecond \<and> write_asked v (cell_of v k)) (vw_clients v)"

section \<open>A bound on the steps\<close>

fun client_rank :: "payload_phase \<Rightarrow> nat" where
  "client_rank ReadFirst = 3"
| "client_rank ReadSecond = 2"
| "client_rank Viewing = 1"
| "client_rank ClaimWaits = 1"
| "client_rank Away = 0"

definition vw_rank :: "lmq_views \<Rightarrow> nat" where
  "vw_rank v = sum_list (map (client_rank \<circ> snd) (vw_clients v))"

definition not_ahead :: "lmq_views \<Rightarrow> nat" where
  "not_ahead v = card {i. i < length (lk_consumers (vw_locks v)) \<and> vw_ahead v i = None}"

definition threads_bound :: "lmq_views \<Rightarrow> nat" where
  "threads_bound v = 2 * steps_bound (vw_locks v) + length (lk_consumers (vw_locks v))"

definition vw_measure :: "lmq_views \<Rightarrow> nat" where
  "vw_measure v = vw_rank v * Suc (threads_bound v) + (2 * lk_measure (vw_locks v) + not_ahead v)"

definition vw_bound :: "lmq_views \<Rightarrow> nat" where
  "vw_bound v = Suc (vw_rank v) * Suc (threads_bound v)"

lemma not_ahead_le: "not_ahead v \<le> length (lk_consumers (vw_locks v))"
  unfolding not_ahead_def
  using card_mono [of "{..<length (lk_consumers (vw_locks v))}"
      "{i. i < length (lk_consumers (vw_locks v)) \<and> vw_ahead v i = None}"] by auto

lemma threads_le: "vw_ok v \<Longrightarrow> 2 * lk_measure (vw_locks v) + not_ahead v \<le> threads_bound v"
  using measure_bounded [OF vw_okD(1), of v] not_ahead_le [of v] by (simp add: threads_bound_def)

lemma not_ahead_drop:
  assumes "length (lk_consumers (vw_locks v')) = length (lk_consumers (vw_locks v))"
    and "vw_ahead v' = drops_ahead x (vw_ahead v)"
  shows "not_ahead v' \<le> Suc (not_ahead v)"
proof -
  let ?A = "\<lambda>a. {i. i < length (lk_consumers (vw_locks v)) \<and> a i = None}"
  have "\<exists>i. ?A (vw_ahead v') \<subseteq> insert i (?A (vw_ahead v))"
    unfolding assms(2) by (cases x) (auto split: if_splits)
  then obtain i where "?A (vw_ahead v') \<subseteq> insert i (?A (vw_ahead v))" by blast
  then have "card (?A (vw_ahead v')) \<le> card (insert i (?A (vw_ahead v)))" by (intro card_mono) auto
  also have "\<dots> \<le> Suc (card (?A (vw_ahead v)))" by (simp add: card_insert_if)
  finally show ?thesis using assms(1) by (simp add: not_ahead_def)
qed

lemma take_node_decreases:
  assumes "vw_ahead v i = None" and "i < length (lk_consumers (vw_locks v))"
    and "v' = v\<lparr>vw_ahead := (vw_ahead v)(i := Some x)\<rparr>"
  shows "not_ahead v' < not_ahead v"
  unfolding not_ahead_def using assms by (intro psubset_card_mono) auto

lemma set_client_rank:
  assumes "client_at v j = Some (k, p)" and "client_rank p' < client_rank p" and "vw_clients v' = (vw_clients v)[j := (k, p')]"
  shows "vw_rank v' < vw_rank v"
  unfolding vw_rank_def using assms
  by (intro sum_list_less [where i = j]) (auto simp: client_at_Some nth_list_update)

lemma client_step_same:
  assumes "client_step j k p v = Some (ev, v')" and "client_at v j = Some (k, p)"
  shows "lk_consumers (vw_locks v') = lk_consumers (vw_locks v)"
    and "node_count (lk_store (vw_locks v')) = node_count (lk_store (vw_locks v))"
    and "vw_clients v' = (vw_clients v)[j := (k, snd (vw_clients v' ! j))]"
    and "client_rank (snd (vw_clients v' ! j)) < client_rank p"
  using assms claim_step(1,5)
  by (auto simp: client_step_def client_at_Some Let_def simp del: lk_step.simps split: payload_phase.splits if_splits option.splits)

lemma vw_internal_decreases:
  assumes ok: "vw_ok v" and x: "vw_internal x" and st: "vw_step x v = Some (ev, v')"
  shows "threads_bound v' = threads_bound v"
    and "vw_rank v' < vw_rank v \<or> vw_rank v' = vw_rank v \<and>
      2 * lk_measure (vw_locks v') + not_ahead v' < 2 * lk_measure (vw_locks v) + not_ahead v"
proof -
  let ?m = "\<lambda>v. 2 * lk_measure (vw_locks v) + not_ahead v"
  have "threads_bound v' = threads_bound v \<and> (vw_rank v' < vw_rank v \<or> vw_rank v' = vw_rank v \<and> ?m v' < ?m v)"
  proof (cases x)
    case (Queue y)
    with st obtain e g' where y: "lk_step y (vw_locks v) = Some (e, g')"
      and v': "v' = v\<lparr>vw_locks := g', vw_ahead := drops_ahead y (vw_ahead v)\<rparr>"
      by (auto split: if_splits option.splits)
    have iy: "internal y" using x Queue by simp
    note d = internal_decreases [OF vw_okD(1) [OF ok] iy y] measure_decreases [OF vw_okD(1) [OF ok] iy y]
    have "not_ahead v' \<le> Suc (not_ahead v)" using d(2) by (intro not_ahead_drop [of v' v y]) (simp_all add: v')
    with d show ?thesis by (simp add: v' vw_rank_def threads_bound_def steps_bound_def Let_def)
  next
    case (TakeNode i)
    with st obtain y where y: "asks_node (vw_locks v) i = Some y" "vw_ahead v i = None"
      and v': "v' = v\<lparr>vw_ahead := (vw_ahead v)(i := Some y)\<rparr>"
      by (auto split: option.splits if_splits)
    have "i < length (lk_consumers (vw_locks v))" using y(1) by (auto simp: asks_node_def lk_at_def split: if_splits)
    from take_node_decreases [OF y(2) this v'] show ?thesis by (simp add: v' vw_rank_def threads_bound_def)
  next
    case (StepClient j)
    with st obtain k p where j: "client_at v j = Some (k, p)" and c: "client_step j k p v = Some (ev, v')"
      by (auto split: option.splits)
    from client_step_same [OF c j] set_client_rank [OF j] show ?thesis
      by (auto simp: threads_bound_def steps_bound_def)
  next
    case (Release j)
    with st obtain k where j: "client_at v j = Some (k, Viewing)" and v': "v' = set_client j k Away v"
      by (auto split: option.splits payload_phase.splits)
    from set_client_rank [OF j, of Away v'] show ?thesis by (simp add: v' threads_bound_def)
  qed (use x in simp_all)
  then show "threads_bound v' = threads_bound v" and "vw_rank v' < vw_rank v \<or> vw_rank v' = vw_rank v \<and> ?m v' < ?m v"
    by blast+
qed

lemma vw_measure_decreases:
  assumes "vw_ok v" "vw_internal x" "vw_step x v = Some (ev, v')"
  shows "vw_measure v' < vw_measure v"
proof -
  have "vw_ok v'" using vw_step_ok assms(1,3) by blast
  from threads_le [OF this] vw_internal_decreases [OF assms] show ?thesis
    using lexicographic [of "2 * lk_measure (vw_locks v') + not_ahead v'" "threads_bound v" 0 0 "vw_rank v'" "vw_rank v"
        "2 * lk_measure (vw_locks v) + not_ahead v" 0]
    by (simp add: vw_measure_def)
qed

lemma vw_measure_bounded: "vw_ok v \<Longrightarrow> vw_measure v < vw_bound v"
  using threads_le [of v] by (simp add: vw_measure_def vw_bound_def)

section \<open>Somebody can go on\<close>

lemma caught_iff: "caught v \<longleftrightarrow> (\<exists>k. (k, ReadSecond) \<in> set (vw_clients v) \<and> write_asked v (cell_of v k))"
  by (auto simp: caught_def list_ex_iff)

lemma client_at_ex: "(k, p) \<in> set (vw_clients v) \<Longrightarrow> \<exists>j. client_at v j = Some (k, p)"
  unfolding client_at_Some by (auto simp: in_set_conv_nth)

lemma no_view_locked: "(\<And>k p. (k, p) \<in> set (vw_clients v) \<Longrightarrow> \<not> reading p) \<Longrightarrow> \<not> view_locked v r"
  by (auto simp: view_locked_iff)

lemma asked_node_allocated:
  assumes g: "lk_ok g" and "asks_node g i = Some x"
  shows "x < node_count (lk_store g)"
proof -
  from assms(2) obtain c ph where i: "lk_at g i = Some (c, ph)" "ph = Leaving \<and> x = mc_current c \<or> (\<exists>cl. ph = Pruning cl (Some x))"
    by (auto simp: asks_node_def split: option.splits phase.splits)
  with lk_okD(5,6) [OF g lk_at_set [OF i(1)]] store_okD(3) [OF lk_okD(1) [OF g], of "mc_current c" x] show ?thesis
    by (auto simp: consumer_ok_def phase_ok_def)
qed

text \<open>No thread of the queue but that of \<open>i\<close> itself asks for the payload of the further node of \<open>i\<close>.\<close>

lemma ahead_no_writer:
  assumes ok: "vw_ok v" and a: "vw_ahead v i = Some x" and i: "lk_at (vw_locks v) i = Some (c, Pruning cl n)"
  shows "\<not> writer_at v m (payload_ref (nodes (lk_store (vw_locks v)) x))"
proof
  let ?g = "vw_locks v"
  note g = vw_okD(1) [OF ok] and ah = ahead_okD [OF vw_okD(2) [OF ok]]
  assume "writer_at v m (payload_ref (nodes (lk_store ?g) x))"
  then obtain d ph where m: "lk_at ?g m = Some (d, ph)" "wants_write (lk_store ?g) (vw_ahead v m) d ph"
    "payload_ref (nodes (lk_store ?g) (mc_current d)) = payload_ref (nodes (lk_store ?g) x)"
    by (auto simp: writer_at_def split: option.splits)
  note d = lk_at_set [OF m(1)]
  have "mc_current d < node_count (lk_store ?g)" using lk_okD(5) [OF g d] by (simp add: consumer_ok_def)
  with m(3) asked_node_allocated [OF g ah(1) [OF a]] store_okD(5) [OF lk_okD(1) [OF g]]
  have x: "mc_current d = x" by blast
  show False
  proof (cases "ph = Leaving")
    case True
    with m(2) obtain y where y: "vw_ahead v m = Some y" by auto
    with ah(1) [OF y] m(1) True x have "vw_ahead v m = Some x" by (simp add: asks_node_def)
    with ah(3) [OF a] m(1) i True show False by auto
  next
    case False
    with m(2) have "holds_node ph" by (cases ph) auto
    with d x ah(2) [OF a] show False by (auto simp: node_locked_iff)
  qed
qed

lemma queue_step_clients: "vw_step (Queue x) v = Some (ev, v') \<Longrightarrow> vw_clients v' = vw_clients v"
  by (auto split: if_splits option.splits)

lemma claim_enabled:
  assumes "vw_ok v" and "client_at v j = Some (k, ClaimWaits)" and "\<not> view_locked v (cell_of v k)"
    and "\<not> payload_locked (vw_locks v) (cell_of v k)"
  shows "vw_step (StepClient j) v \<noteq> None"
  using client_at_ok(1) [OF assms(1,2)] assms(2-4)
  by (auto simp: client_step_def cell_of_def Let_def split: prod.splits)

text \<open>Nobody reads and some consumer has a further mutex: it goes on, or a claim for that payload does.\<close>

lemma ahead_goes_on:
  assumes ok: "vw_ok v" and a: "vw_ahead v i = Some x" and quiet: "\<And>r. \<not> view_locked v r"
  shows "(\<exists>y. internal y \<and> vw_step (Queue y) v \<noteq> None) \<or> (\<exists>j k. client_at v j = Some (k, ClaimWaits) \<and> vw_step (StepClient j) v \<noteq> None)"
proof -
  let ?g = "vw_locks v"
  note g = vw_okD(1) [OF ok] and ah = ahead_okD [OF vw_okD(2) [OF ok] a]
  have x: "x < node_count (lk_store ?g)" using asked_node_allocated [OF g ah(1)] .
  then have free: "\<not> payload_locked ?g (payload_ref (nodes (lk_store ?g) x))"
    using ah(2) payload_locked_locked [OF g x] by blast
  from ah(1) consider c cl where "lk_at ?g i = Some (c, Pruning cl (Some x))" | c where "lk_at ?g i = Some (c, Leaving)" "mc_current c = x"
    by (auto simp: asks_node_def split: option.splits prod.splits phase.splits)
  then show ?thesis
  proof cases
    case (2 c)
    then have "vw_step (Queue (StepDrop i)) v \<noteq> None"
      using a ah(2) free quiet by (auto simp: waits_for_view_def split: prod.splits)
    then show ?thesis using internal.simps(3) by blast
  next
    case (1 c cl)
    show ?thesis
    proof (cases "write_asked v (payload_ref (nodes (lk_store ?g) x))")
      case False
      with 1 a ah(2) free have "vw_step (Queue (StepNext i)) v \<noteq> None"
        by (simp add: next_turn_def split: prod.splits)
      then show ?thesis using internal.simps(2) by blast
    next
      case True
      with ahead_no_writer [OF ok a 1] obtain k where k: "(k, ClaimWaits) \<in> set (vw_clients v)" "cell_of v k = payload_ref (nodes (lk_store ?g) x)"
        by (auto simp: write_asked_iff)
      then obtain j where j: "client_at v j = Some (k, ClaimWaits)" using client_at_ex by blast
      with claim_enabled [OF ok j quiet] k(2) free j show ?thesis by auto
    qed
  qed
qed

text \<open>Nobody reads and nobody has a further mutex: as in \<^verbatim>\<open>Lmq_Locks_Props\<close>.\<close>

lemma base_goes_on:
  assumes ok: "vw_ok v" and none: "\<And>i. vw_ahead v i = None" and quiet: "\<And>r. \<not> view_locked v r" and busy: "busy (vw_locks v)"
  shows "\<exists>x. (\<exists>y. x = Queue y) \<and> vw_internal x \<and> vw_step x v \<noteq> None \<or> (\<exists>i. x = TakeNode i \<and> vw_step x v \<noteq> None)"
proof -
  let ?g = "vw_locks v"
  note g = vw_okD(1) [OF ok]
  have ahead: "\<not> ahead_locked v x" for x by (simp add: ahead_locked_def none list_ex_iff)
  obtain y where y: "internal y" "lk_step y ?g \<noteq> None" using busy_goes_on [OF g busy] by blast
  show ?thesis
  proof (cases "vw_free y v")
    case True
    with y show ?thesis by (intro exI [of _ "Queue y"]) auto
  next
    case False
    from y(1) consider "y = StepPush" | i where "y = StepNext i" | i where "y = StepDrop i" by (cases y) auto
    then show ?thesis
    proof cases
      case 1
      with False ahead show ?thesis by (auto split: option.splits)
    next
      case (2 i)
      with y(2) obtain c ph where i: "lk_at ?g i = Some (c, ph)" "next_turn i c ph ?g \<noteq> None"
        by (auto split: option.splits)
      from False 2 i ahead quiet none obtain cl n where "ph = Pruning cl (Some n)"
        by (auto simp: waits_for_view_def split: phase.splits option.splits)
      with i ahead none show ?thesis
        by (intro exI [of _ "TakeNode i"]) (auto simp: asks_node_def next_turn_def split: if_splits)
    next
      case (3 i)
      with y(2) ahead none show ?thesis
        by (intro exI [of _ "TakeNode i"]) (auto simp: asks_node_def split: option.splits phase.splits if_splits)
    qed
  qed
qed

lemma uncaught_by: "(\<And>k. (k, ReadSecond) \<in> set (vw_clients v) \<Longrightarrow> False) \<Longrightarrow> \<not> caught v"
  by (auto simp: caught_iff)

text \<open>Nobody reads, and the queue's threads have calls in progress.\<close>

lemma threads_go_on:
  assumes ok: "vw_ok v" and quiet: "\<And>k p. (k, p) \<in> set (vw_clients v) \<Longrightarrow> \<not> reading p" and busy: "busy (vw_locks v)"
  shows "\<exists>x ev v'. vw_internal x \<and> vw_step x v = Some (ev, v') \<and> \<not> caught v'"
proof -
  have free: "\<not> view_locked v r" for r using quiet by (rule no_view_locked)
  have same: "\<not> caught v'" if "vw_clients v' = vw_clients v" for v'
    using quiet that by (intro uncaught_by) fastforce
  consider (queue) y where "internal y" "vw_step (Queue y) v \<noteq> None" | (node) i where "vw_step (TakeNode i) v \<noteq> None"
    | (claim) j k where "client_at v j = Some (k, ClaimWaits)" "vw_step (StepClient j) v \<noteq> None"
  proof (cases "\<exists>i x. vw_ahead v i = Some x")
    case True
    with ahead_goes_on [OF ok _ free] show ?thesis using queue claim by blast
  next
    case False
    then have none: "vw_ahead v i = None" for i by (cases "vw_ahead v i") auto
    from base_goes_on [OF ok none free busy] show ?thesis using queue node by fastforce
  qed
  then show ?thesis
  proof cases
    case (queue y)
    then obtain ev v' where v': "vw_step (Queue y) v = Some (ev, v')" by auto
    with same [OF queue_step_clients [OF v']] queue(1) show ?thesis by (intro exI [of _ "Queue y"]) auto
  next
    case (node i)
    then obtain ev v' where v': "vw_step (TakeNode i) v = Some (ev, v')" by auto
    then have "vw_clients v' = vw_clients v" by (auto split: option.splits if_splits)
    with v' same show ?thesis by (intro exI [of _ "TakeNode i"]) auto
  next
    case (claim j k)
    then obtain ev v' where v': "vw_step (StepClient j) v = Some (ev, v')" by auto
    with claim(1) have "vw_clients v' = (vw_clients v)[j := (k, Away)]"
      by (auto simp: client_step_def Let_def simp del: lk_step.simps split: option.splits if_splits)
    with quiet have "\<not> caught v'"
      using set_update_subset_insert [of "vw_clients v" j "(k, Away)"] by (intro uncaught_by) fastforce
    with v' show ?thesis by (intro exI [of _ "StepClient j"]) auto
  qed
qed

lemma write_asked_set_client:
  assumes "write_asked (set_client j k p v) r" and "p \<noteq> ClaimWaits"
  shows "write_asked v r"
proof -
  have "writer_at (set_client j k p v) i r = writer_at v i r" for i by (simp only: writer_at_def vw_simps)
  then show ?thesis
    using assms subsetD [OF set_update_subset_insert [of "vw_clients v" j "(k, p)"]] by (auto simp: write_asked_iff)
qed

lemma caught_set_client:
  assumes "caught (set_client j k p v)" and "p \<noteq> ClaimWaits" and "p = ReadSecond \<Longrightarrow> \<not> write_asked v (cell_of v k)"
  shows "caught v"
proof -
  from assms(1) obtain m where m: "(m, ReadSecond) \<in> set ((vw_clients v)[j := (k, p)])"
    "write_asked (set_client j k p v) (cell_of v m)" by (auto simp: caught_iff)
  then have "write_asked v (cell_of v m)" using assms(2) write_asked_set_client by blast
  with m(1) assms(3) set_update_subset_insert [of "vw_clients v" j "(k, p)"] show ?thesis
    by (fastforce simp: caught_iff)
qed

lemma not_busy_free:
  assumes "\<not> busy (vw_locks v)"
  shows "\<not> payload_locked (vw_locks v) r" and "\<not> writer_at v i r"
proof -
  have "ph = Resting \<or> ph = Gone" if "(c, ph) \<in> set (lk_consumers (vw_locks v))" for c ph
    using assms that by (auto simp: busy_def list_ex_iff)
  then show "\<not> payload_locked (vw_locks v) r" and "\<not> writer_at v i r"
    using lk_at_set [of "vw_locks v" i] by (fastforce simp: payload_locked_iff writer_at_def split: option.splits)+
qed

lemma claim_goes_on:
  assumes ok: "vw_ok v" and j: "client_at v j = Some (k, ClaimWaits)"
    and quiet: "\<And>k p. (k, p) \<in> set (vw_clients v) \<Longrightarrow> \<not> reading p" and free: "\<not> payload_locked (vw_locks v) (cell_of v k)"
  shows "\<exists>x ev v'. vw_internal x \<and> vw_step x v = Some (ev, v') \<and> \<not> caught v'"
proof -
  obtain ev v' where v': "vw_step (StepClient j) v = Some (ev, v')"
    using claim_enabled [OF ok j no_view_locked free] quiet by auto
  with j have "vw_clients v' = (vw_clients v)[j := (k, Away)]"
    by (auto simp: client_step_def Let_def simp del: lk_step.simps split: option.splits if_splits)
  with quiet have "\<not> caught v'"
    using set_update_subset_insert [of "vw_clients v" j "(k, Away)"] by (intro uncaught_by) fastforce
  with v' show ?thesis by (intro exI [of _ "StepClient j"]) auto
qed

lemma reader_goes_on:
  assumes cl: "(k, p) \<in> set (vw_clients v)" "p \<in> {ReadFirst, ReadSecond, Viewing}" and free: "\<not> caught v"
    and now: "p = ReadFirst \<Longrightarrow> \<not> payload_locked (vw_locks v) (cell_of v k) \<and> \<not> write_asked v (cell_of v k)"
  shows "\<exists>x ev v'. vw_internal x \<and> vw_step x v = Some (ev, v') \<and> \<not> caught v'"
proof -
  obtain j where j: "client_at v j = Some (k, p)" using client_at_ex [OF cl(1)] by blast
  have calm: "\<not> caught (set_client j k q v)" if "q \<noteq> ClaimWaits" "q = ReadSecond \<Longrightarrow> \<not> write_asked v (cell_of v k)" for q
    using caught_set_client [OF _ that] free by blast
  consider "p = Viewing" | "p = ReadSecond" | "p = ReadFirst" using cl(2) by blast
  then show ?thesis
  proof cases
    case 1
    with j calm [of Away] show ?thesis by (intro exI [of _ "Release j"]) auto
  next
    case 2
    with free cl(1) have "\<not> write_asked v (cell_of v k)" by (auto simp: caught_iff)
    with 2 j calm [of Viewing] show ?thesis by (intro exI [of _ "StepClient j"]) (auto simp: client_step_def)
  next
    case 3
    with now j calm [of Away] calm [of ReadSecond] show ?thesis
      by (intro exI [of _ "StepClient j"]) (auto simp: client_step_def Let_def)
  qed
qed

lemma uncaught_goes_on:
  assumes ok: "vw_ok v" and busy: "vw_busy v" and free: "\<not> caught v"
  shows "\<exists>x ev v'. vw_internal x \<and> vw_step x v = Some (ev, v') \<and> \<not> caught v'"
proof (cases "\<exists>k p. (k, p) \<in> set (vw_clients v) \<and> reading p")
  case True
  then obtain k p where "(k, p) \<in> set (vw_clients v)" "p = ReadSecond \<or> p = Viewing"
    by (metis reading.elims(2))
  then show ?thesis using reader_goes_on [OF _ _ free] by blast
next
  case False
  then have quiet: "\<And>k p. (k, p) \<in> set (vw_clients v) \<Longrightarrow> \<not> reading p" by blast
  show ?thesis
  proof (cases "busy (vw_locks v)")
    case True
    from threads_go_on [OF ok _ True] quiet show ?thesis by blast
  next
    case idle: False
    show ?thesis
    proof (cases "\<exists>k. (k, ClaimWaits) \<in> set (vw_clients v)")
      case True
      then obtain k j where "client_at v j = Some (k, ClaimWaits)" using client_at_ex by blast
      then show ?thesis using claim_goes_on [OF ok _ _ not_busy_free(1) [OF idle]] quiet by blast
    next
      case False
      then have "\<not> write_asked v r" for r using not_busy_free(2) [OF idle] by (simp add: write_asked_iff)
      moreover from busy idle obtain k p where cl: "(k, p) \<in> set (vw_clients v)" "p \<noteq> Away"
        by (auto simp: vw_busy_def list_ex_iff)
      with False quiet [OF cl(1)] have "p = ReadFirst" by (cases p) auto
      ultimately show ?thesis using reader_goes_on [OF cl(1) _ free] not_busy_free(1) [OF idle] by blast
    qed
  qed
qed

lemma all_calls_end:
  assumes "vw_ok v" and "\<not> caught v"
  shows "\<exists>ys fs v'. list_all vw_internal ys \<and> run_events vw_step ys v = Some (fs, v') \<and> \<not> vw_busy v'"
  using assms
proof (induction "vw_measure v" arbitrary: v rule: less_induct)
  case less
  show ?case
  proof (cases "vw_busy v")
    case False
    then show ?thesis by (intro exI [of _ "[]"]) simp
  next
    case True
    from uncaught_goes_on [OF less.prems(1) True less.prems(2)] obtain x ev v1 where
      x: "vw_internal x" "vw_step x v = Some (ev, v1)" "\<not> caught v1" by blast
    have "vw_measure v1 < vw_measure v" "vw_ok v1"
      using vw_measure_decreases [OF less.prems(1) x(1,2)] vw_step_ok [OF less.prems(1) x(2)] by blast+
    from less.hyps [OF this x(3)] obtain ys fs v' where
      "list_all vw_internal ys" "run_events vw_step ys v1 = Some (fs, v')" "\<not> vw_busy v'" by blast
    with x show ?thesis by (intro exI [of _ "x # ys"]) simp
  qed
qed

section \<open>A caught reader stays caught\<close>

lemma writer_atE:
  assumes "writer_at v i r"
  obtains c ph where "lk_at (vw_locks v) i = Some (c, ph)" "wants_write (lk_store (vw_locks v)) (vw_ahead v i) c ph"
    "payload_ref (nodes (lk_store (vw_locks v)) (mc_current c)) = r" "ph \<in> {Guarding, Checking, Leaving}"
proof -
  from assms obtain c ph where c: "lk_at (vw_locks v) i = Some (c, ph)" "wants_write (lk_store (vw_locks v)) (vw_ahead v i) c ph"
    "payload_ref (nodes (lk_store (vw_locks v)) (mc_current c)) = r" by (auto simp: writer_at_def split: option.splits)
  moreover from c(2) have "ph \<in> {Guarding, Checking, Leaving}" by (cases ph) auto
  ultimately show thesis by (rule that)
qed

text \<open>The thread that asks for a payload has the mutex of the node: nobody else checks it.\<close>

lemma writer_checks_alone:
  assumes ok: "vw_ok v" and i: "lk_at (vw_locks v) i = Some (c, ph)" "wants_write (lk_store (vw_locks v)) (vw_ahead v i) c ph"
    and free: "vw_free y v" and other: "y \<noteq> StepNext i" "y \<noteq> StepDrop i"
  shows "\<not> checks_node (vw_locks v) y (mc_current c)"
proof
  let ?g = "vw_locks v"
  note ah = ahead_okD [OF vw_okD(2) [OF ok]]
  have taken: "vw_ahead v m = Some (mc_current d)" if "lk_at ?g m = Some (d, Leaving)" "vw_ahead v m \<noteq> None" for m d
    using that ah(1) [of m] by (cases "vw_ahead v m") (auto simp: asks_node_def)
  assume "checks_node ?g y (mc_current c)"
  then obtain m d where m: "y = StepNext m \<and> lk_at ?g m = Some (d, Checking) \<or> y = StepDrop m \<and> lk_at ?g m = Some (d, Leaving)"
    and d: "mc_current d = mc_current c" by (auto simp: checks_node_def)
  from m other have "m \<noteq> i" by auto
  with m taken [of m d] free d consider (locks) "lk_at ?g m = Some (d, Checking)" "m \<noteq> i"
    | (drops) "vw_ahead v m = Some (mc_current c)" "m \<noteq> i" by fastforce
  then show False
  proof cases
    case locks
    have "ph = Leaving \<or> holds_node ph" using i(2) by (cases ph) auto
    then show False
    proof
      assume "ph = Leaving"
      with i taken [of i c] have "vw_ahead v i = Some (mc_current c)" by auto
      with ah(2) locks(1) d lk_at_set [OF locks(1)] show False unfolding node_locked_iff by (metis holds_node.simps(1))
    next
      assume "holds_node ph"
      with lk_okD(4) [OF vw_okD(1) [OF ok]] i(1) locks d show False
        unfolding exclusive_def lk_at_Some by (metis fst_conv snd_conv holds_node.simps(1))
    qed
  next
    case drops
    show False
    proof (cases "ph = Leaving")
      case True
      with i taken [of i c] have "vw_ahead v i = Some (mc_current c)" by auto
      with ah(3) [OF drops(1)] drops(2) show False by blast
    next
      case False
      with i(2) have "holds_node ph" by (cases ph) auto
      with ah(2) [OF drops(1)] lk_at_set [OF i(1)] show False by (auto simp: node_locked_iff)
    qed
  qed
qed

lemma writer_at_same:
  assumes "writer_at v i r" and "lk_consumers (vw_locks v') = lk_consumers (vw_locks v)"
    and "nodes (lk_store (vw_locks v')) = nodes (lk_store (vw_locks v))"
    and "live (lk_store (vw_locks v')) = live (lk_store (vw_locks v))"
    and "autodrop (lk_store (vw_locks v')) = autodrop (lk_store (vw_locks v))"
    and "vw_ahead v' = vw_ahead v \<or> (\<exists>m x. vw_ahead v m = None \<and> vw_ahead v' = (vw_ahead v)(m := Some x))"
  shows "writer_at v' i r"
proof -
  from assms(1) obtain c ph where c: "lk_at (vw_locks v) i = Some (c, ph)"
    "wants_write (lk_store (vw_locks v)) (vw_ahead v i) c ph"
    "payload_ref (nodes (lk_store (vw_locks v)) (mc_current c)) = r" by (rule writer_atE)
  moreover have "lk_at (vw_locks v') i = lk_at (vw_locks v) i" by (simp only: lk_at_def assms(2))
  moreover have "check_claims (mc_id c) (mc_current c) (lk_store (vw_locks v')) =
      check_claims (mc_id c) (mc_current c) (lk_store (vw_locks v))" by (simp only: check_claims_def assms(3,4))
  moreover have "vw_ahead v' i = vw_ahead v i \<or> vw_ahead v i = None" using assms(6) by auto
  ultimately show ?thesis using assms(3,5) by (cases ph) (auto simp: writer_at_def)
qed

lemma writer_kept:
  assumes ok: "vw_ok v" and w: "writer_at v i r" and view: "view_locked v r" and st: "vw_step x v = Some (ev, v')"
  shows "writer_at v' i r"
proof (cases x)
  case (Queue y)
  with st obtain e g' where free: "vw_free y v" and y: "lk_step y (vw_locks v) = Some (e, g')"
    and v': "v' = v\<lparr>vw_locks := g', vw_ahead := drops_ahead y (vw_ahead v)\<rparr>"
    by (auto split: if_splits option.splits)
  from w obtain c ph where c: "lk_at (vw_locks v) i = Some (c, ph)" "wants_write (lk_store (vw_locks v)) (vw_ahead v i) c ph"
    "payload_ref (nodes (lk_store (vw_locks v)) (mc_current c)) = r" "ph \<in> {Guarding, Checking, Leaving}"
    by (rule writer_atE)
  have waits: "waits_for_view v i" using c view by (simp add: waits_for_view_def)
  have other: "y \<noteq> StepNext i" "y \<noteq> StepDrop i"
    using free y c(1,4) waits by (auto simp: next_turn_def)
  have cur: "mc_current c < node_count (lk_store (vw_locks v))"
    using lk_okD(5) [OF vw_okD(1) [OF ok] lk_at_set [OF c(1)]] by (simp add: consumer_ok_def)
  note alone = writer_checks_alone [OF ok c(1,2) free other]
  note tr = queue_step_trackers [OF y vw_okD(4) [OF ok], of "mc_current c"]
  have "wants_write (lk_store g') (vw_ahead v i) c ph"
    using c(2,4) tr check_claims_stays [OF vw_okD(4) [OF ok] tr cur alone] by (auto simp: trackers_step_def)
  moreover have "vw_ahead v' i = vw_ahead v i" using other by (cases y) (auto simp: v')
  ultimately show ?thesis
    using queue_step_elsewhere(1) [OF vw_okD(1) [OF ok] y cur]
      queue_step_elsewhere(2) [OF vw_okD(1) [OF ok] y c(1) _ other] c(3,4)
    by (auto simp: writer_at_def v')
next
  case (StepClient j)
  with st obtain k p where "client_step j k p v = Some (ev, v')" by (auto split: option.splits)
  then show ?thesis
    using w by (intro writer_at_same [OF w])
      (auto simp: client_step_def Let_def claim_def split: payload_phase.splits option.splits if_splits)
next
  case (TakeNode m)
  with st obtain y where "vw_ahead v m = None" and "v' = v\<lparr>vw_ahead := (vw_ahead v)(m := Some y)\<rparr>"
    by (auto split: option.splits if_splits)
  moreover from this have "vw_ahead v' = (vw_ahead v)(m := Some y)" by simp
  ultimately show ?thesis by (intro writer_at_same [OF w]) (blast | simp)+
qed (use st in \<open>auto intro!: writer_at_same [OF w] split: option.splits payload_phase.splits if_splits\<close>)

lemma claim_kept:
  assumes ok: "vw_ok v" and w: "(k, ClaimWaits) \<in> set (vw_clients v)" and view: "view_locked v (cell_of v k)"
    and st: "vw_step x v = Some (ev, v')"
  shows "(k, ClaimWaits) \<in> set (vw_clients v') \<and> cell_of v' k = cell_of v k"
proof -
  obtain j where j: "client_at v j = Some (k, ClaimWaits)" using client_at_ex [OF w] by blast
  have k: "k < length (lk_held (vw_locks v))" using client_at_ok(1) [OF ok j] by simp
  have "client_at v' j = Some (k, ClaimWaits) \<and> cell_of v' k = cell_of v k"
  proof (cases x)
    case (Queue y)
    with st obtain e g' where "lk_step y (vw_locks v) = Some (e, g')"
      and "v' = v\<lparr>vw_locks := g', vw_ahead := drops_ahead y (vw_ahead v)\<rparr>"
      by (auto split: if_splits option.splits)
    with queue_step_held [OF _ k] j show ?thesis by (auto simp: client_at_Some cell_of_def)
  next
    case (StepClient i)
    with st j view show ?thesis
      by (auto simp: client_step_def Let_def client_at_Some cell_of_def claim_def nth_list_update
          split: option.splits payload_phase.splits if_splits)
  qed (use st j in \<open>auto simp: client_at_Some nth_append nth_list_update cell_of_def
      split: option.splits payload_phase.splits if_splits\<close>)
  then show ?thesis using client_at_set by blast
qed

lemma caught_step:
  assumes ok: "vw_ok v" and c: "caught v" and st: "vw_step x v = Some (ev, v')"
  shows "caught v'"
proof -
  from c obtain k where k: "(k, ReadSecond) \<in> set (vw_clients v)" "write_asked v (cell_of v k)"
    by (auto simp: caught_iff)
  then obtain j where j: "client_at v j = Some (k, ReadSecond)" using client_at_ex by blast
  have view: "view_locked v (cell_of v k)" using k(1) by (force simp: view_locked_iff)
  from view_remains [OF ok st j] k(2) have r: "client_at v' j = Some (k, ReadSecond)" "cell_of v' k = cell_of v k" by auto
  from k(2) have "write_asked v' (cell_of v k)"
    unfolding write_asked_iff [of v]
  proof (elim disjE exE conjE)
    fix m assume "(m, ClaimWaits) \<in> set (vw_clients v)" "cell_of v m = cell_of v k"
    with claim_kept [OF ok _ _ st] view show ?thesis by (metis write_asked_iff)
  next
    fix i assume "writer_at v i (cell_of v k)"
    with writer_kept [OF ok _ view st] show ?thesis by (auto simp: write_asked_iff)
  qed
  with client_at_set [OF r(1)] r(2) show ?thesis unfolding caught_iff by metis
qed

lemma caught_run: "vw_ok v \<Longrightarrow> caught v \<Longrightarrow> run_events vw_step ys v = Some (fs, v') \<Longrightarrow> caught v'"
proof (induction ys arbitrary: v fs)
  case (Cons x ys)
  then obtain ev v1 gs where v1: "vw_step x v = Some (ev, v1)" "run_events vw_step ys v1 = Some (gs, v')"
    by (auto split: option.splits)
  with Cons.IH vw_step_ok [OF Cons.prems(1) v1(1)] caught_step [OF Cons.prems(1,2) v1(1)] show ?case by blast
qed simp

section \<open>The properties\<close>

lemma caught_busy: "caught v \<Longrightarrow> vw_busy v"
  by (force simp: caught_iff vw_busy_def list_ex_iff)

text \<open>
  C9: However the threads of a queue and the readers of its messages are scheduled: what was delivered was readable,
  and a view never finds its payload gone; the calls in progress take less than \<open>vw_bound v\<close> steps, releases of
  views included, unless new calls are made; and as long as a call is in progress or a view is held, some thread
  can go on, unless a reader is caught between the two locks of \<open>read\<close> by a thread that waits to write.
\<close>

theorem calls_with_views_return:
  assumes "run_events vw_step xs (vw_start ad) = Some (es, v)"
    and "list_all vw_internal ys" and "run_events vw_step ys v = Some (fs, v')"
  shows "list_all vw_good (es @ fs) \<and> length ys < vw_bound v \<and>
    (vw_busy v' \<longrightarrow> caught v' \<or> (\<exists>y. vw_internal y \<and> vw_step y v' \<noteq> None))"
proof -
  have v: "vw_ok v" "list_all vw_good es" using vw.run_keeps [OF vw_ok_start assms(1)] by auto
  have v': "vw_ok v'" "list_all vw_good fs" using vw.run_keeps [OF v(1) assms(3)] by auto
  have "length ys + vw_measure v' \<le> vw_measure v"
    using vw_measure_decreases by (rule vw.run_bounded [OF _ v(1) assms(2,3)])
  moreover have "caught v' \<or> (\<exists>y. vw_internal y \<and> vw_step y v' \<noteq> None)" if "vw_busy v'"
    using uncaught_goes_on [OF v'(1) that] by fastforce
  ultimately show ?thesis using vw_measure_bounded [OF v(1)] v v' by auto
qed

text \<open>A view, a \<open>try_next\<close> and a claim that wait for it, and how they go on once it is released.\<close>

definition view_blocks_two :: "vw_op list" where
  "view_blocks_two =
     both_receive @ [NewClient, NewClient, CallRead 0 0, StepClient 0, StepClient 0, CallTake 1 0] @ other_moves_on"

definition freed :: "vw_op list" where
  "freed = [Release 0, Queue (StepNext 1), TakeNode 1, Queue (StepNext 1), StepClient 1]"

definition two_wait :: "lmq_views \<Rightarrow> bool" where
  "two_wait v \<longleftrightarrow>
     vw_busy v \<and> Option.is_none (vw_step (Queue (StepNext 1)) v) \<and> Option.is_none (vw_step (StepClient 1) v) \<and>
     (case run_events vw_step freed v of None \<Rightarrow> False | Some p \<Rightarrow> \<not> vw_busy (snd p))"

theorem calls_with_views_return_witness:
  "\<exists>es v fs v'. run_events vw_step view_blocks_two (vw_start True) = Some (es, v) \<and> vw_busy v \<and>
     vw_step (Queue (StepNext 1)) v = None \<and> vw_step (StepClient 1) v = None \<and>
     run_events vw_step freed v = Some (fs, v') \<and> \<not> vw_busy v' \<and> list_all vw_good (es @ fs) \<and> 5 < vw_bound v"
proof -
  have "case run_events vw_step view_blocks_two (vw_start True) of None \<Rightarrow> False | Some p \<Rightarrow> two_wait (snd p)"
    by code_simp
  then obtain es v where v: "run_events vw_step view_blocks_two (vw_start True) = Some (es, v)" "two_wait v"
    by (rule run_check)
  from v(2) have w: "vw_busy v" "vw_step (Queue (StepNext 1)) v = None" "vw_step (StepClient 1) v = None"
    by (simp_all add: two_wait_def Option.is_none_def del: vw_step.simps)
  from v(2) have "case run_events vw_step freed v of None \<Rightarrow> False | Some p \<Rightarrow> \<not> vw_busy (snd p)"
    by (simp add: two_wait_def)
  then obtain fs v' where r: "run_events vw_step freed v = Some (fs, v')" "\<not> vw_busy v'" by (rule run_check)
  have "list_all vw_internal freed" by (simp add: freed_def)
  from calls_with_views_return [OF v(1) this r(1)] have "list_all vw_good (es @ fs)" "5 < vw_bound v"
    by (simp_all add: freed_def)
  with v(1) w r show ?thesis by blast
qed

text \<open>
  C8: When \<open>read\<close> deadlocks a queue. In every state that the threads of a queue and the readers of its messages reach,
  the calls in progress can all be completed (the views being released), exactly if no reader is caught: between
  the two read locks that \<open>read\<close> takes, while a \<open>try_next\<close>, a drop check or a claim waits for the write lock
  of that payload. A caught reader stays caught.
\<close>

theorem read_deadlocks_queue:
  assumes "run_events vw_step xs (vw_start ad) = Some (es, v)"
  shows "(\<exists>ys fs v'. list_all vw_internal ys \<and> run_events vw_step ys v = Some (fs, v') \<and> \<not> vw_busy v') \<longleftrightarrow>
    \<not> (\<exists>j k. client_at v j = Some (k, ReadSecond) \<and> write_asked v (cell_of v k))"
proof -
  have ok: "vw_ok v" using vw.run_keeps [OF vw_ok_start assms] by blast
  have "caught v \<longleftrightarrow> (\<exists>j k. client_at v j = Some (k, ReadSecond) \<and> write_asked v (cell_of v k))"
    unfolding caught_iff using client_at_ex client_at_set by blast
  then show ?thesis
    using all_calls_end [OF ok] caught_run [OF ok] caught_busy by blast
qed

text \<open>Two consumers have received the same message; while one of them reads it, the other one calls \<open>try_next\<close>.\<close>

definition read_against_next :: "vw_op list" where
  "read_against_next = both_receive @ [NewClient, CallRead 0 0, StepClient 0] @ other_moves_on"

theorem read_deadlocks_queue_witness:
  "\<exists>es v. run_events vw_step read_against_next (vw_start True) = Some (es, v) \<and>
     \<not> (\<exists>ys fs v'. list_all vw_internal ys \<and> run_events vw_step ys v = Some (fs, v') \<and> \<not> vw_busy v')"
proof -
  have "case run_events vw_step read_against_next (vw_start True) of None \<Rightarrow> False
      | Some p \<Rightarrow> client_at (snd p) 0 = Some (0, ReadSecond) \<and> write_asked (snd p) (cell_of (snd p) 0)"
    by code_simp
  then obtain es v where v: "run_events vw_step read_against_next (vw_start True) = Some (es, v)"
    "client_at v 0 = Some (0, ReadSecond) \<and> write_asked v (cell_of v 0)"
    by (rule run_check [where P = "\<lambda>v. client_at v 0 = Some (0, ReadSecond) \<and> write_asked v (cell_of v 0)"])
  with read_deadlocks_queue [OF v(1)] show ?thesis by blast
qed

end
