(* ===== verification/Lmq_Broadcast.thy ===== *)
theory Lmq_Broadcast
  imports Lmq_Fifo
begin

text \<open>
  Several consumers, all created before the first message, and nobody claims: the queue broadcasts.
  Every consumer receives every message once and in order, at its own pace, whatever the others do,
  and the automatic drop never takes a message from a live consumer that has not passed it. The
  abstract machine is a log with one position per consumer.
\<close>

section \<open>The abstract broadcast\<close>

record bcast =
  b_log :: "byte list list"
  b_pos :: "nat option list"

definition position :: "bcast \<Rightarrow> nat \<Rightarrow> nat option" where
  "position a i = (if i < length (b_pos a) then b_pos a ! i else None)"

fun bcast_step :: "lmq_op \<Rightarrow> bcast \<Rightarrow> lmq_event \<times> bcast" where
  "bcast_step (Push v) a = (Pushed v, a\<lparr>b_log := b_log a @ [v]\<rparr>)"
| "bcast_step (TryNext i) a =
     (case position a i of
        None \<Rightarrow> (Ignored, a)
      | Some p \<Rightarrow>
          if p < length (b_log a)
          then (Delivered i (Some (b_log a ! p)), a\<lparr>b_pos := (b_pos a)[i := Some (Suc p)]\<rparr>)
          else (Nothing i, a))"
| "bcast_step (DropConsumer i) a =
     (case position a i of
        None \<Rightarrow> (Ignored, a)
      | Some p \<Rightarrow> (Dropped i, a\<lparr>b_pos := (b_pos a)[i := None]\<rparr>))"
| "bcast_step (NewConsumer cid) a = (Created, a)"
| "bcast_step (Claim k) a = (Ignored, a)"

text \<open>What the clients of a broadcast do once their consumers exist.\<close>

definition relayed :: "lmq_op \<Rightarrow> bool" where
  "relayed x \<longleftrightarrow> (case x of NewConsumer i \<Rightarrow> False | Claim k \<Rightarrow> False | _ \<Rightarrow> True)"

definition bcast_init :: "nat \<Rightarrow> bcast" where
  "bcast_init n = \<lparr>b_log = [], b_pos = replicate n (Some 0)\<rparr>"

section \<open>The relation\<close>

text \<open>Node \<open>n\<close> still has the live consumer \<open>cid\<close> among its targets.\<close>

definition waits_for :: "u64 \<Rightarrow> tracker \<Rightarrow> lmq_store \<Rightarrow> nref \<Rightarrow> bool" where
  "waits_for cid t s n \<longleftrightarrow> (\<exists>tc. target_consumers (nodes s n) = Some tc \<and> map_of tc cid = Some t)"

text \<open>What consumer \<open>cid\<close> at position \<open>p\<close> has yet to receive.\<close>

definition due :: "lmq_store \<Rightarrow> nref list \<Rightarrow> byte list list \<Rightarrow> u64 \<Rightarrow> tracker \<Rightarrow> nat \<Rightarrow> bool" where
  "due s ms vs cid t p \<longleftrightarrow>
     (\<forall>k. p \<le> k \<and> k < length ms \<longrightarrow>
        payloads s (cell s (ms ! k)) = Some (vs ! k) \<and> (autodrop s \<longrightarrow> waits_for cid t s (ms ! k)))"

definition registered :: "lmq_store \<Rightarrow> u64 \<Rightarrow> tracker \<Rightarrow> bool" where
  "registered s cid t \<longleftrightarrow> autodrop s \<longrightarrow> live s t \<and> map_of (active s) cid = Some t"

definition bcast_consumer ::
  "lmq_store \<Rightarrow> link_message_queue \<Rightarrow> nref list \<Rightarrow> byte list list \<Rightarrow> u64 \<Rightarrow> nat \<Rightarrow> message_consumer \<Rightarrow>
     nat \<Rightarrow> bool" where
  "bcast_consumer s q ms vs cid i c p \<longleftrightarrow>
     mc_id c = cid \<and> (autodrop s \<longrightarrow> mc_tracker c = i) \<and> p \<le> length ms \<and>
     mc_current c = (q_root q # ms) ! p \<and> due s ms vs cid i p \<and> registered s cid i"

definition bcast_slot ::
  "lmq_store \<Rightarrow> link_message_queue \<Rightarrow> nref list \<Rightarrow> byte list list \<Rightarrow> u64 \<Rightarrow> nat \<Rightarrow>
     message_consumer option \<Rightarrow> nat option \<Rightarrow> bool" where
  "bcast_slot s q ms vs cid i co po \<longleftrightarrow>
     (case po of None \<Rightarrow> co = None | Some p \<Rightarrow> \<exists>c. co = Some c \<and> bcast_consumer s q ms vs cid i c p)"

definition bcast_rel :: "u64 list \<Rightarrow> lmq_system \<Rightarrow> bcast \<Rightarrow> bool" where
  "bcast_rel ids y a \<longleftrightarrow>
     sys_ok y \<and> distinct ids \<and> length (b_pos a) = length ids \<and> length (sy_consumers y) = length ids \<and>
     (\<exists>ms. lin (sy_store y) (sy_queue y) ms \<and> length ms = length (b_log a) \<and>
        (\<forall>i < length ids. bcast_slot (sy_store y) (sy_queue y) ms (b_log a) (ids ! i) i
           (sy_consumers y ! i) (b_pos a ! i)))"

lemma bcast_relE:
  assumes "bcast_rel ids y a"
  obtains ms where "lin (sy_store y) (sy_queue y) ms" "length ms = length (b_log a)"
    "\<forall>i < length ids. bcast_slot (sy_store y) (sy_queue y) ms (b_log a) (ids ! i) i
       (sy_consumers y ! i) (b_pos a ! i)"
  using assms by (auto simp: bcast_rel_def)

section \<open>The drop check of one consumer and the others\<close>

lemma passed_keeps_other:
  assumes ok: "store_ok s" "n < node_count s" "mc_current c < node_count s"
    and d: "mc_id c \<noteq> cid" "autodrop s \<Longrightarrow> waits_for cid t s n" "autodrop s \<Longrightarrow> live s t"
  shows "payloads (passed c s) (cell s n) = payloads s (cell s n)"
    and "autodrop s \<Longrightarrow> waits_for cid t (passed c s) n"
proof -
  have "payloads (passed c s) (cell s n) = payloads s (cell s n) \<and>
    (autodrop s \<longrightarrow> waits_for cid t (passed c s) n)"
  proof (cases "autodrop s \<and> n = mc_current c")
    case True
    with d obtain tc where tc: "target_consumers (nodes s n) = Some tc" "map_of tc cid = Some t" "live s t"
      by (auto simp: waits_for_def)
    have left: "map_of (hm_remove (mc_id c) tc) cid = Some t" using tc d(1) by simp
    then have "\<not> hm_all (\<lambda>t. \<not> live s t) (hm_remove (mc_id c) tc)"
      using map_of_SomeD [OF left] tc(3) unfolding hm_all_iff by (metis snd_conv)
    with True tc left show ?thesis
      by (simp add: passed_def check_should_now_autodrop_def Let_def waits_for_def)
  next
    case False
    then have "\<not> autodrop s \<or> cell s n \<noteq> cell s (mc_current c) \<and> n \<noteq> mc_current c"
      using store_okD(5) [OF ok(1) ok(2,3)] by (auto simp: cell_def)
    then show ?thesis
    proof
      assume "\<not> autodrop s"
      then show ?thesis by (simp add: passed_def)
    next
      assume ne: "cell s n \<noteq> cell s (mc_current c) \<and> n \<noteq> mc_current c"
      then have "nodes (passed c s) n = nodes s n"
        by (simp add: passed_def check_should_now_autodrop_def claim_def Let_def split: option.split)
      with ne d(2) show ?thesis by (simp add: cell_def passed_payloads waits_for_def)
    qed
  qed
  then show "payloads (passed c s) (cell s n) = payloads s (cell s n)"
    and "autodrop s \<Longrightarrow> waits_for cid t (passed c s) n" by auto
qed

lemma passed_keeps_ahead:
  assumes ok: "store_ok s" "n < node_count s" "mc_current c < node_count s" and "n \<noteq> mc_current c"
  shows "payloads (passed c s) (cell s n) = payloads s (cell s n)"
    and "waits_for cid t (passed c s) n = waits_for cid t s n"
proof -
  from assms have "cell s n \<noteq> cell s (mc_current c)"
    using store_okD(5) [OF ok(1) ok(2,3)] by (auto simp: cell_def)
  then show "payloads (passed c s) (cell s n) = payloads s (cell s n)"
    by (simp add: cell_def passed_payloads)
  have "nodes (passed c s) n = nodes s n"
    using assms(4) by (simp add: passed_def check_should_now_autodrop_def claim_def Let_def split: option.split)
  then show "waits_for cid t (passed c s) n = waits_for cid t s n" by (simp add: waits_for_def)
qed

lemma passed_cell [simp]: "cell (passed c s) = cell s"
  by (simp add: cell_def fun_eq_iff)

lemma passed_autodrop [simp]: "autodrop (passed c s) = autodrop s"
  by (rule same_shapeD(6) [OF passed_same_shape])

lemma passed_actives [simp]: "active (passed c s) = active s" "live (passed c s) = live s"
  by (simp_all add: passed_def check_should_now_autodrop_def claim_def Let_def split: option.split)

lemma passed_due_other:
  assumes "store_ok s" "lin s q ms" "mc_current c < node_count s" "mc_id c \<noteq> cid" "registered s cid t"
    and "due s ms vs cid t p"
  shows "due (passed c s) ms vs cid t p"
  unfolding due_def
proof (intro allI impI)
  fix k assume k: "p \<le> k \<and> k < length ms"
  then have "ms ! k < node_count s" using lin_allocated [OF assms(1,2)] by simp
  from passed_keeps_other [OF assms(1) this assms(3,4), of t] assms(5,6) k
  show "payloads (passed c s) (cell (passed c s) (ms ! k)) = Some (vs ! k) \<and>
      (autodrop (passed c s) \<longrightarrow> waits_for cid t (passed c s) (ms ! k))"
    by (simp add: due_def registered_def)
qed

lemma passed_due_self:
  assumes "store_ok s" "lin s q ms" "mc_current c = (q_root q # ms) ! p" "p \<le> length ms" "p \<le> p'"
    and "due s ms vs cid t p'"
  shows "due (passed c s) ms vs cid t p'"
  unfolding due_def
proof (intro allI impI)
  fix k assume k: "p' \<le> k \<and> k < length ms"
  have "(q_root q # ms) ! Suc k \<noteq> (q_root q # ms) ! p"
    using lin_distinct [OF assms(2)] k assms(4,5) nth_eq_iff_index_eq [of "q_root q # ms" "Suc k" p]
    by simp
  then have ne: "ms ! k \<noteq> mc_current c" using assms(3) by simp
  have "mc_current c \<in> set (q_root q # ms)" using assms(3,4) by (metis le_imp_less_Suc length_Cons nth_mem)
  then have "mc_current c < node_count s" "ms ! k < node_count s"
    using lin_allocated [OF assms(1,2)] k by simp_all
  from passed_keeps_ahead [OF assms(1) this(2,1) ne] assms(6) k
  show "payloads (passed c s) (cell (passed c s) (ms ! k)) = Some (vs ! k) \<and>
      (autodrop (passed c s) \<longrightarrow> waits_for cid t (passed c s) (ms ! k))"
    by (simp add: due_def)
qed

section \<open>The simulation\<close>

lemma position_slot:
  assumes "bcast_rel ids y a"
  shows "position a i = None \<Longrightarrow> consumer_at y i = None"
    and "position a i = Some p \<Longrightarrow> i < length ids \<and> b_pos a ! i = Some p \<and>
      consumer_at y i = sy_consumers y ! i"
proof -
  have len: "length (b_pos a) = length ids" "length (sy_consumers y) = length ids"
    using assms by (auto simp: bcast_rel_def)
  show "consumer_at y i = None" if "position a i = None"
    using that assms len by (auto simp: position_def consumer_at_def bcast_rel_def bcast_slot_def
        split: if_splits option.splits)
  show "i < length ids \<and> b_pos a ! i = Some p \<and> consumer_at y i = sy_consumers y ! i"
    if "position a i = Some p"
    using that len by (auto simp: position_def consumer_at_def split: if_splits)
qed

lemma pushed_due:
  assumes ok: "store_ok s" "lin s q ms" "length ms = length vs" "registered s cid t" "due s ms vs cid t p"
  shows "due (pushed v q (q_last q) s) (ms @ [node_count s]) (vs @ [v]) cid t p"
  unfolding due_def
proof (intro allI impI)
  let ?n = "node_count s" and ?s = "pushed v q (q_last q) s"
  fix k assume k: "p \<le> k \<and> k < length (ms @ [?n])"
  have ln: "q_last q \<noteq> ?n" using lin_push_point(1) [OF ok(1,2)] by (simp add: push_point_def)
  show "payloads ?s (cell ?s ((ms @ [?n]) ! k)) = Some ((vs @ [v]) ! k) \<and>
      (autodrop ?s \<longrightarrow> waits_for cid t ?s ((ms @ [?n]) ! k))"
  proof (cases "k < length ms")
    case True
    then have lt: "ms ! k < ?n" using lin_allocated [OF ok(1,2)] by simp
    then have "cell s (ms ! k) < payload_count s" using store_okD(4) [OF ok(1)] by (simp add: cell_def)
    with True k lt ok(3,5) show ?thesis
      by (auto simp: due_def cell_def pushed_def nth_append waits_for_def)
  next
    case False
    with k have "k = length ms" by simp
    with ok(3,4) ln show ?thesis
      by (auto simp: cell_def pushed_def nth_append waits_for_def registered_def)
  qed
qed

lemma bcast_push:
  assumes r: "bcast_rel ids y a"
  shows "\<exists>y'. sys_step (Push v) y = Some (fst (bcast_step (Push v) a), y') \<and>
    bcast_rel ids y' (snd (bcast_step (Push v) a))"
proof -
  let ?s = "sy_store y" and ?q = "sy_queue y"
  from r obtain ms where l: "lin ?s ?q ms" and len: "length ms = length (b_log a)"
    and slots: "\<forall>i < length ids. bcast_slot ?s ?q ms (b_log a) (ids ! i) i (sy_consumers y ! i) (b_pos a ! i)"
    by (rule bcast_relE) blast
  from r have ok: "sys_ok y" by (simp add: bcast_rel_def)
  then have so: "store_ok ?s" and qo: "queue_ok ?s ?q" by (simp_all add: sys_ok_def)
  note push = lin_push [OF so qo l]
  let ?n = "node_count ?s" and ?s' = "pushed v ?q (q_last ?q) ?s"
  let ?q' = "?q\<lparr>q_last := ?n\<rparr>"
  let ?y = "y\<lparr>sy_queue := ?q', sy_store := ?s'\<rparr>"
  have step: "sys_step (Push v) y = Some (Pushed v, ?y)" by (simp add: push(1))
  with sys_step_push [OF ok, of v] have ok': "sys_ok ?y" by simp
  have "bcast_slot ?s' ?q' (ms @ [?n]) (b_log a @ [v]) (ids ! i) i (sy_consumers y ! i) (b_pos a ! i)"
    if "i < length ids" for i
  proof -
    have "registered ?s' cid t = registered ?s cid t" for cid t
      by (simp add: registered_def pushed_def)
    moreover have "(q_root ?q # ms @ [?n]) ! p = (q_root ?q # ms) ! p" if "p \<le> length ms" for p
      using that nth_append [of "q_root ?q # ms" "[?n]" p] by simp
    ultimately show ?thesis
      using slots [rule_format, OF that] pushed_due [OF so l len]
      by (auto simp: bcast_slot_def bcast_consumer_def split: option.splits)
  qed
  with ok' push(2) len r have "bcast_rel ids ?y (a\<lparr>b_log := b_log a @ [v]\<rparr>)"
    unfolding bcast_rel_def by (intro conjI exI [of _ "ms @ [?n]"]) simp_all
  with step show ?thesis by simp
qed

text \<open>The other slots after consumer \<open>i\<close> looked, and its own at the position it moves to.\<close>

lemma passed_slots:
  assumes r: "bcast_rel ids y a" and l: "lin (sy_store y) (sy_queue y) ms"
    and slots: "\<forall>j < length ids. bcast_slot (sy_store y) (sy_queue y) ms (b_log a) (ids ! j) j
      (sy_consumers y ! j) (b_pos a ! j)"
    and i: "i < length ids" "consumer_at y i = Some c" "mc_id c = ids ! i"
    and j: "j < length ids" "j \<noteq> i"
  shows "bcast_slot (passed c (sy_store y)) (sy_queue y) ms (b_log a) (ids ! j) j
    (sy_consumers y ! j) (b_pos a ! j)"
proof -
  from r have ok: "sys_ok y" and dist: "distinct ids" by (simp_all add: bcast_rel_def)
  from ok have so: "store_ok (sy_store y)" by (simp add: sys_ok_def)
  have "mc_current c < node_count (sy_store y)"
    using consumer_at_ok [OF ok i(2)] by (simp add: consumer_ok_def)
  moreover have "mc_id c \<noteq> ids ! j" using dist i j by (simp add: nth_eq_iff_index_eq)
  ultimately show ?thesis
    using slots [rule_format, OF j(1)] passed_due_other [OF so l, of c "ids ! j" j]
    by (auto simp: bcast_slot_def bcast_consumer_def registered_def split: option.splits)
qed

lemma bcast_try_next:
  assumes r: "bcast_rel ids y a"
  shows "\<exists>y'. sys_step (TryNext i) y = Some (fst (bcast_step (TryNext i) a), y') \<and>
    bcast_rel ids y' (snd (bcast_step (TryNext i) a))"
proof (cases "position a i")
  case None
  with position_slot(1) [OF r None] r show ?thesis by simp
next
  case (Some p)
  let ?s = "sy_store y" and ?q = "sy_queue y"
  from r obtain ms where l: "lin ?s ?q ms" and len: "length ms = length (b_log a)"
    and slots: "\<forall>i < length ids. bcast_slot ?s ?q ms (b_log a) (ids ! i) i (sy_consumers y ! i) (b_pos a ! i)"
    by (rule bcast_relE) blast
  from r have ok: "sys_ok y" and lens: "length (sy_consumers y) = length ids" "length (b_pos a) = length ids"
    by (simp_all add: bcast_rel_def)
  then have so: "store_ok ?s" by (simp add: sys_ok_def)
  from position_slot(2) [OF r Some] have i: "i < length ids" "b_pos a ! i = Some p"
    and at: "consumer_at y i = sy_consumers y ! i" by auto
  with slots [rule_format, OF i(1)] obtain c where c: "sy_consumers y ! i = Some c"
    and bc: "bcast_consumer ?s ?q ms (b_log a) (ids ! i) i c p"
    by (auto simp: bcast_slot_def)
  have at: "consumer_at y i = Some c" using at c by simp
  note co = consumer_at_ok [OF ok at]
  have cur: "mc_current c = (q_root ?q # ms) ! p" and p: "p \<le> length ms" and id: "mc_id c = ids ! i"
    and d: "due ?s ms (b_log a) (ids ! i) i p"
    using bc by (simp_all add: bcast_consumer_def)
  let ?e = "if p < length ms then ms ! p else q_tail ?q" and ?s' = "passed c ?s"
  have "contents ?s ms ! p \<noteq> None" if "p < length ms"
    using d that by (simp add: due_def contents_def)
  then have a: "ahead ?s ?q (mc_current c) [] ?e" unfolding cur by (intro lin_ahead [OF l p])
  have mv: "moved c [] ?e ?s = ?s'"
    using lin_suffix(1) [OF l p] by (intro moved_Nil) (simp add: cur)
  note eq = try_next_eq [OF so co a, unfolded mv]
  from sys_step_try_next [OF ok, of i] obtain ev y' where
    st: "sys_step (TryNext i) y = Some (ev, y')" and y': "sys_ok y'" by blast
  have tail: "?e = q_tail ?q \<longleftrightarrow> \<not> p < length ms"
  proof -
    have "q_tail ?q \<notin> set ms" using l unfolding lin_def by (auto dest: chain_end_notin)
    then show ?thesis by (metis nth_mem)
  qed
  note others = passed_slots [OF r l slots i(1) at id]
  have l': "lin ?s' ?q ms" using passed_same_shape l by (rule lin_same_shape)
  have reg: "registered ?s' (ids ! i) i" "autodrop ?s' \<longrightarrow> mc_tracker c = i"
    using bc by (simp_all add: bcast_consumer_def registered_def)
  note due' = passed_due_self [OF so l cur p]
  show ?thesis
  proof (cases "p < length ms")
    case False
    with st eq at tail have y'_eq: "ev = Nothing i" "y' = y\<lparr>sy_store := ?s', sy_consumers := (sy_consumers y)[i := Some c]\<rparr>"
      by auto
    have "bcast_slot ?s' ?q ms (b_log a) (ids ! j) j (sy_consumers y' ! j) (b_pos a ! j)" if "j < length ids" for j
      using others [OF that] due' [OF order_refl d] reg p id cur i(2) lens that
      by (cases "j = i") (auto simp: y'_eq bcast_slot_def bcast_consumer_def)
    with r y' l' len have "bcast_rel ids y' a"
      unfolding bcast_rel_def by (intro conjI exI [of _ ms]) (simp_all add: y'_eq)
    with st Some False len show ?thesis by (simp add: y'_eq)
  next
    case True
    let ?c = "c\<lparr>mc_current := ms ! p\<rparr>"
    have "read_message ?s' (nodes ?s' (ms ! p)) = Some (b_log a ! p)"
      using True delivered_unclaimed(1) [OF so co a] tail d mv by (simp add: due_def cell_def)
    with st eq at tail True have y'_eq: "ev = Delivered i (Some (b_log a ! p))"
      "y' = y\<lparr>sy_store := ?s', sy_consumers := (sy_consumers y)[i := Some ?c],
          sy_held := sy_held y @ [nodes ?s' (ms ! p)]\<rparr>"
      by auto
    let ?a = "a\<lparr>b_pos := (b_pos a)[i := Some (Suc p)]\<rparr>"
    have "due ?s ms (b_log a) (ids ! i) i (Suc p)" using d by (simp add: due_def)
    then have "due ?s' ms (b_log a) (ids ! i) i (Suc p)" by (intro due') simp_all
    then have "bcast_slot ?s' ?q ms (b_log a) (ids ! j) j (sy_consumers y' ! j) (b_pos ?a ! j)" if "j < length ids" for j
      using others [OF that] reg True id lens that
      by (cases "j = i") (auto simp: y'_eq bcast_slot_def bcast_consumer_def)
    with r y' l' len lens have "bcast_rel ids y' ?a"
      unfolding bcast_rel_def by (intro conjI exI [of _ ms]) (simp_all add: y'_eq)
    with st Some True len show ?thesis by (simp add: y'_eq)
  qed
qed

lemma live_slot:
  "j \<noteq> i \<Longrightarrow> bcast_slot s q ms vs cid j co po \<Longrightarrow>
     bcast_slot (s\<lparr>live := (live s)(i := False)\<rparr>) q ms vs cid j co po"
  by (auto simp: bcast_slot_def bcast_consumer_def due_def registered_def waits_for_def cell_def
      split: option.splits)

lemma active_slot:
  "cid' \<noteq> cid \<Longrightarrow> bcast_slot s q ms vs cid j co po \<Longrightarrow>
     bcast_slot (s\<lparr>active := hm_remove cid' (active s)\<rparr>) q ms vs cid j co po"
  by (auto simp: bcast_slot_def bcast_consumer_def due_def registered_def waits_for_def cell_def
      split: option.splits)

lemma passed_active:
  "passed c (s\<lparr>active := m\<rparr>) = (passed c s)\<lparr>active := m\<rparr>"
  by (simp add: passed_def check_should_now_autodrop_def claim_def Let_def split: option.split)

lemma bcast_drop:
  assumes r: "bcast_rel ids y a"
  shows "\<exists>y'. sys_step (DropConsumer i) y = Some (fst (bcast_step (DropConsumer i) a), y') \<and>
    bcast_rel ids y' (snd (bcast_step (DropConsumer i) a))"
proof (cases "position a i")
  case None
  with position_slot(1) [OF r None] r show ?thesis by simp
next
  case (Some p)
  let ?s = "sy_store y" and ?q = "sy_queue y"
  from r obtain ms where l: "lin ?s ?q ms" and len: "length ms = length (b_log a)"
    and slots: "\<forall>i < length ids. bcast_slot ?s ?q ms (b_log a) (ids ! i) i (sy_consumers y ! i) (b_pos a ! i)"
    by (rule bcast_relE) blast
  from r have ok: "sys_ok y" and dist: "distinct ids"
    and lens: "length (sy_consumers y) = length ids" "length (b_pos a) = length ids"
    by (simp_all add: bcast_rel_def)
  from position_slot(2) [OF r Some] have i: "i < length ids" "b_pos a ! i = Some p"
    and at: "consumer_at y i = sy_consumers y ! i" by auto
  with slots [rule_format, OF i(1)] obtain c where c: "sy_consumers y ! i = Some c"
    and bc: "bcast_consumer ?s ?q ms (b_log a) (ids ! i) i c p"
    by (auto simp: bcast_slot_def)
  have at: "consumer_at y i = Some c" using at c by simp
  have id: "mc_id c = ids ! i" using bc by (simp add: bcast_consumer_def)
  let ?s' = "drop_consumer c ?s" and ?a = "a\<lparr>b_pos := (b_pos a)[i := None]\<rparr>"
  let ?y = "y\<lparr>sy_store := ?s', sy_consumers := (sy_consumers y)[i := None]\<rparr>"
  have step: "sys_step (DropConsumer i) y = Some (Dropped i, ?y)" using at by simp
  with sys_step_drop_consumer [OF ok, of i] have ok': "sys_ok ?y" by simp
  have l': "lin ?s' ?q ms" using drop_consumer_same_shape l by (rule lin_same_shape)
  have others: "bcast_slot ?s' ?q ms (b_log a) (ids ! j) j (sy_consumers y ! j) (b_pos a ! j)"
    if j: "j < length ids" "j \<noteq> i" for j
  proof (cases "autodrop ?s")
    case True
    have "mc_id c \<noteq> ids ! j" using dist i(1) j id by (simp add: nth_eq_iff_index_eq)
    moreover have "mc_tracker c = i" using bc True by (simp add: bcast_consumer_def)
    ultimately show ?thesis
      using live_slot [OF j(2) active_slot [OF _ passed_slots [OF r l slots i(1) at id j], of "mc_id c"]] True
      by (simp add: drop_consumer_passed passed_active Let_def)
  next
    case False
    then show ?thesis using slots j(1) by (simp add: drop_consumer_def)
  qed
  have "bcast_slot ?s' ?q ms (b_log a) (ids ! j) j (sy_consumers ?y ! j) (b_pos ?a ! j)" if "j < length ids" for j
    using others [OF that] lens that by (cases "j = i") (auto simp: bcast_slot_def)
  with r ok' l' len lens have "bcast_rel ids ?y ?a"
    unfolding bcast_rel_def by (intro conjI exI [of _ ms]) simp_all
  with step Some show ?thesis by simp
qed

interpretation lmq_bcast: event_simulation sys_step bcast_step "bcast_rel ids" relayed for ids
proof
  show "\<exists>y'. sys_step x y = Some (fst (bcast_step x a), y') \<and> bcast_rel ids y' (snd (bcast_step x a))"
    if "bcast_rel ids y a" "relayed x" for y a x
    using that bcast_push bcast_try_next bcast_drop
    by (cases x) (auto simp: relayed_def simp del: sys_step.simps bcast_step.simps)
qed

section \<open>The start\<close>

text \<open>A fresh queue and its consumers, with the identifiers the random generator gave them.\<close>

definition new_consumers :: "u64 list \<Rightarrow> lmq_op list" where
  "new_consumers ids = map NewConsumer ids"

lemma map_of_retain: "map_of m k = Some v \<Longrightarrow> P v \<Longrightarrow> map_of (hm_retain P m) k = Some v"
  by (induction m) (auto simp: hm_retain_def split: if_splits)

text \<open>One more consumer while the queue is still empty.\<close>

lemma bcast_new_consumer:
  assumes r: "bcast_rel ids y (bcast_init (length ids))" and new: "cid \<notin> set ids"
    and tr: "autodrop (sy_store y) \<Longrightarrow> tracker_count (sy_store y) = length ids"
  shows "\<exists>y'. sys_step (NewConsumer cid) y = Some (Created, y') \<and>
    bcast_rel (ids @ [cid]) y' (bcast_init (Suc (length ids))) \<and> autodrop (sy_store y') = autodrop (sy_store y) \<and>
    (autodrop (sy_store y') \<longrightarrow> tracker_count (sy_store y') = Suc (length ids))"
proof -
  let ?s = "sy_store y" and ?q = "sy_queue y" and ?n = "length ids"
  obtain c s' where cs: "create_consumer cid ?q ?s = (c, s')" by (cases "create_consumer cid ?q ?s")
  let ?y = "y\<lparr>sy_store := s', sy_consumers := sy_consumers y @ [Some c]\<rparr>"
  from r have ok: "sys_ok y" and dist: "distinct ids" and lc: "length (sy_consumers y) = ?n"
    by (simp_all add: bcast_rel_def)
  from r obtain ms where l: "lin ?s ?q ms" and "length ms = length (b_log (bcast_init ?n))"
    and slots: "\<forall>i < ?n. bcast_slot ?s ?q ms [] (ids ! i) i (sy_consumers y ! i) (b_pos (bcast_init ?n) ! i)"
    by (rule bcast_relE) (simp add: bcast_init_def)
  then have ms: "ms = []" by (simp add: bcast_init_def)
  have step: "sys_step (NewConsumer cid) y = Some (Created, ?y)" by (simp add: cs)
  with sys_step_new_consumer [OF ok, of cid] have ok': "sys_ok ?y" by simp
  have shape: "same_shape ?s s'" using create_consumer_same_shape [of ?s cid ?q] by (simp add: cs)
  then have l': "lin s' ?q []" using l ms lin_same_shape by blast
  have new': "bcast_consumer s' ?q [] [] cid ?n c 0"
    using cs tr by (auto simp: create_consumer_def bcast_consumer_def due_def registered_def Let_def
        split: if_splits)
  have old: "registered s' (ids ! i) i" if "i < ?n" "registered ?s (ids ! i) i" for i
  proof -
    have "cid \<noteq> ids ! i" using new that(1) by auto
    with cs that tr map_of_retain [of "active ?s" "ids ! i" i "(live ?s)(?n := True)"] show ?thesis
      by (auto simp: create_consumer_def registered_def Let_def split: if_splits)
  qed
  have "bcast_slot s' ?q [] [] ((ids @ [cid]) ! i) i ((sy_consumers y @ [Some c]) ! i)
      (b_pos (bcast_init (Suc ?n)) ! i)" if "i < Suc ?n" for i
  proof (cases "i < ?n")
    case True
    with slots old same_shapeD(6) [OF shape] show ?thesis
      by (auto simp: nth_append lc ms bcast_slot_def bcast_consumer_def due_def bcast_init_def
          simp del: replicate.simps)
  next
    case False
    with that have "i = ?n" by simp
    with new' lc show ?thesis
      by (simp add: nth_append bcast_slot_def bcast_init_def del: replicate.simps)
  qed
  with ok' l' dist new lc have "bcast_rel (ids @ [cid]) ?y (bcast_init (Suc ?n))"
    unfolding bcast_rel_def by (intro conjI exI [of _ "[]"]) (simp_all add: bcast_init_def del: replicate.simps)
  moreover have "autodrop s' \<longrightarrow> tracker_count s' = Suc ?n"
    using cs tr by (auto simp: create_consumer_def Let_def split: if_splits)
  ultimately show ?thesis using step same_shapeD(6) [OF shape] by simp
qed

lemma bcast_start:
  assumes "distinct ids"
  shows "\<exists>y. run_events sys_step (new_consumers ids) (sys_init ad) = Some (replicate (length ids) Created, y) \<and>
    bcast_rel ids y (bcast_init (length ids)) \<and> autodrop (sy_store y) = ad \<and>
    (ad \<longrightarrow> tracker_count (sy_store y) = length ids)"
  using assms
proof (induction ids rule: rev_induct)
  case Nil
  have "lin (sy_store (sys_init ad)) (sy_queue (sys_init ad)) []"
    by (simp add: sys_init_def lmq_new_def alloc_payload_def alloc_node_def empty_store_def Let_def lin_def nxt_def)
  then show ?case
    using sys_ok_init [of ad]
    by (auto simp: new_consumers_def bcast_rel_def bcast_init_def)
      (simp_all add: sys_init_def lmq_new_def alloc_payload_def alloc_node_def empty_store_def Let_def)
next
  case (snoc cid ids)
  then obtain y where y: "run_events sys_step (new_consumers ids) (sys_init ad) = Some (replicate (length ids) Created, y)"
    and r: "bcast_rel ids y (bcast_init (length ids))" and ad: "autodrop (sy_store y) = ad"
    "ad \<longrightarrow> tracker_count (sy_store y) = length ids" by auto
  with bcast_new_consumer [OF r, of cid] snoc.prems obtain y' where
    "sys_step (NewConsumer cid) y = Some (Created, y')" "bcast_rel (ids @ [cid]) y' (bcast_init (Suc (length ids)))"
    "autodrop (sy_store y') = ad" "ad \<longrightarrow> tracker_count (sy_store y') = Suc (length ids)"
    by auto
  with y show ?case
    by (simp add: new_consumers_def run_events_append replicate_append_same del: sys_step.simps)
qed

end
