(* ===== verification/Lmq_Props.thy ===== *)
theory Lmq_Props
  imports Lmq_Fifo
begin

text \<open>
  The properties of the queue: every call returns, deliveries are readable and the first ahead, one
  consumer sees a FIFO, a payload is claimed once; and two behaviours that the comments of
  \<^verbatim>\<open>lmq/src/lib.rs\<close> do not describe, a queue whose root no longer reaches new messages and a
  consumer that is given a message a second time.
\<close>

lemmas lmq_eval = sys_init_def lmq_new_def alloc_payload_def alloc_node_def empty_store_def
  create_consumer_def hm_retain_def hm_insert_def hm_remove_def hm_all_def lmq_push_def
  find_last.simps prune_loop.simps nxt_def set_next_def try_next_def check_should_now_autodrop_def
  consumer_at_def is_claimed_def claim_def read_message_def drop_consumer_def Let_def

section \<open>Every call returns\<close>

text \<open>
  C1: Executed one after another, and while nobody reads a message or holds a \<open>MessageRef\<close>, no call of
  the queue runs forever or locks a mutex it already holds: from a new queue, any list of pushes,
  consumer creations, \<open>try_next\<close> calls, claims and consumer drops, in any order, with any number of
  consumers and with or without the automatic drop, runs to its end, and every message delivered on
  the way is readable at delivery. (Calls interleaved at their locks, and with views:
  \<^verbatim>\<open>Lmq_Locks_Props\<close> and \<^verbatim>\<open>Lmq_Views_Progress\<close>.)
\<close>

theorem lmq_run_returns:
  "\<exists>evs y. run_events sys_step ops (sys_init ad) = Some (evs, y) \<and> list_all readable evs"
  using lmq.run_ok [OF sys_ok_init] by (metis Ball_set)

section \<open>What \<open>try_next\<close> delivers\<close>

text \<open>
  C18: \<open>try_next\<close> delivers the first unclaimed message on the path ahead of the consumer. In every
  well-formed state the path from the consumer's node passes claimed nodes only until it meets its
  exit; if the exit is the tail sentinel nothing is delivered and the consumer stays, otherwise the
  exit's message is delivered with its payload, and the consumer moves to it. The current node then
  points directly at the exit, and if it is still unclaimed the skipped nodes point back at it.
\<close>

theorem try_next_first_unclaimed:
  assumes "store_ok s" and "consumer_ok q s c"
  shows "\<exists>ds e s'. ahead s q (mc_current c) ds e \<and>
    (e = q_tail q \<longrightarrow> try_next c s = Some (None, c, s')) \<and>
    (e \<noteq> q_tail q \<longrightarrow> (\<exists>m. try_next c s = Some (Some m, c\<lparr>mc_current := e\<rparr>, s') \<and>
       read_message s' m = payloads s (payload_ref (nodes s e)) \<and> read_message s' m \<noteq> None)) \<and>
    nxt s' = redirect (nxt s) (mc_current c) (is_claimed s' (nodes s' (mc_current c))) ds e"
proof -
  from assms(2) obtain ds e where a: "ahead s q (mc_current c) ds e"
    using ahead_exists unfolding consumer_ok_def by blast
  have "nxt (moved c ds e s) = redirect (nxt s) (mc_current c)
      (is_claimed (moved c ds e s) (nodes (moved c ds e s) (mc_current c))) ds e"
    unfolding moved_claimed by (rule nxt_moved)
  then show ?thesis
    using a try_next_eq [OF assms a] delivered_unclaimed [OF assms a]
    by (intro exI [of _ ds] exI [of _ e] exI [of _ "moved c ds e s"]) auto
qed

text \<open>Consumer 1 stands on the first message, the second is claimed, the third is not.\<close>

definition skip_ops :: "lmq_op list" where
  "skip_ops = [NewConsumer 1, NewConsumer 2, Push [10], Push [20], Push [30], TryNext 0, TryNext 0, Claim 1, TryNext 1]"

theorem try_next_first_unclaimed_witness:
  "\<exists>evs y c ds e s' m. run_events sys_step skip_ops (sys_init True) = Some (evs, y) \<and> consumer_at y 1 = Some c \<and>
     ahead (sy_store y) (sy_queue y) (mc_current c) ds e \<and> ds \<noteq> [] \<and>
     try_next c (sy_store y) = Some (Some m, c\<lparr>mc_current := e\<rparr>, s') \<and> read_message s' m = Some [30]"
proof -
  have "\<exists>evs y c x z w. run_events sys_step skip_ops (sys_init True) = Some (evs, y) \<and> consumer_at y 1 = Some c \<and>
      nxt (sy_store y) (mc_current c) = Some x \<and> nxt (sy_store y) x = Some z \<and> nxt (sy_store y) z = Some w \<and>
      is_claimed (sy_store y) (nodes (sy_store y) x) \<and>
      payloads (sy_store y) (payload_ref (nodes (sy_store y) z)) = Some [30]"
    by (simp add: skip_ops_def lmq_eval)
  then obtain evs y c x z w where y: "run_events sys_step skip_ops (sys_init True) = Some (evs, y)"
      "consumer_at y 1 = Some c" and path: "nxt (sy_store y) (mc_current c) = Some x" "nxt (sy_store y) x = Some z"
      "nxt (sy_store y) z = Some w" "is_claimed (sy_store y) (nodes (sy_store y) x)"
      "payloads (sy_store y) (payload_ref (nodes (sy_store y) z)) = Some [30]"
    by (elim exE conjE) (rule that)
  have ok: "sys_ok y" using lmq.run_keeps [OF sys_ok_init y(1)] by simp
  then have st: "store_ok (sy_store y)" "consumer_ok (sy_queue y) (sy_store y) c"
    using consumer_at_ok y(2) by (auto simp: sys_ok_def)
  have tail: "nxt (sy_store y) (q_tail (sy_queue y)) = None" using ok queue_ok_tail by (simp add: sys_ok_def)
  from try_next_first_unclaimed [OF st] obtain ds e s' where
    a: "ahead (sy_store y) (sy_queue y) (mc_current c) ds e"
    and got: "e \<noteq> q_tail (sy_queue y) \<Longrightarrow> \<exists>m. try_next c (sy_store y) = Some (Some m, c\<lparr>mc_current := e\<rparr>, s') \<and>
       read_message s' m = payloads (sy_store y) (payload_ref (nodes (sy_store y) e))" by blast
  have open_z: "\<not> is_claimed (sy_store y) (nodes (sy_store y) z)" using path(5) by (simp add: is_claimed_def)
  have "ds = [x] \<and> e = z"
    using a path(1-4) tail open_z by (cases ds; cases "tl ds") (auto simp: ahead_def)
  moreover have "z \<noteq> q_tail (sy_queue y)" using path(3) tail by auto
  ultimately show ?thesis using a got y path(5) by auto
qed

section \<open>One consumer: a FIFO\<close>

text \<open>
  C2: With one consumer, created before the first push, the queue is exactly the abstract FIFO
  machine: for every list of pushes, \<open>try_next\<close> calls, claims of received messages and the drop of
  the consumer, the run returns and its events (what each call returned) are those of the machine,
  in which \<open>push\<close> appends, \<open>try_next\<close> takes the first pending payload, a claim empties its message,
  and, with the automatic drop, moving on empties the message the consumer leaves.
\<close>

theorem lmq_refines_fifo:
  assumes "list_all not_new ops"
  shows "map_option fst (run_events sys_step ops (one_consumer ad i)) =
    Some (fst (run_total fifo_step ops (fifo_init ad)))"
  using lmq_fifo.run_agrees [OF fifo_rel_init assms] by auto

theorem lmq_refines_fifo_witness:
  "map_option fst (run_events sys_step [Push [1], Push [2], TryNext 0, TryNext 0, Claim 0, Claim 1]
     (one_consumer True 7)) =
   Some [Pushed [1], Pushed [2], Delivered 0 (Some [1]), Delivered 0 (Some [2]),
     Claimed 0 None, Claimed 1 (Some [2])]"
proof -
  have "list_all not_new [Push [1], Push [2], TryNext 0, TryNext 0, Claim 0, Claim 1]"
    by (simp add: not_new_def)
  from lmq_refines_fifo [OF this, of True 7] show ?thesis
    by (simp add: fifo_init_def pass_last_def Let_def)
qed

fun pushed_values :: "lmq_event list \<Rightarrow> byte list list" where
  "pushed_values [] = []"
| "pushed_values (Pushed v # es) = v # pushed_values es"
| "pushed_values (e # es) = pushed_values es"

fun delivered_values :: "lmq_event list \<Rightarrow> byte list option list" where
  "delivered_values [] = []"
| "delivered_values (Delivered i v # es) = v # delivered_values es"
| "delivered_values (e # es) = delivered_values es"

lemma fifo_conserves:
  "map Some (f_pending a @ pushed_values (fst (run_total fifo_step ops a))) =
     delivered_values (fst (run_total fifo_step ops a)) @
     map Some (f_pending (snd (run_total fifo_step ops a)))"
proof (induction ops arbitrary: a)
  case Nil
  show ?case by simp
next
  case (Cons x ops)
  show ?case
    using Cons.IH [of "snd (fifo_step x a)"]
    by (cases x) (auto simp: Let_def split_def split: list.splits)
qed

text \<open>
  C19: Exactly once and in order, for one consumer: whatever the calls, the payloads delivered are a
  prefix of the payloads pushed (none lost, repeated or reordered), and after the run another
  \<open>try_next\<close> of a consumer that was not dropped reports an empty queue only if the two lists are
  equal.
\<close>

theorem one_consumer_exactly_once:
  assumes "list_all not_new ops" and "DropConsumer 0 \<notin> set ops"
  shows "\<exists>evs y rest. run_events sys_step ops (one_consumer ad i) = Some (evs, y) \<and>
    map Some (pushed_values evs) = delivered_values evs @ map Some rest \<and>
    (\<exists>y'. sys_step (TryNext 0) y =
       Some (case rest of [] \<Rightarrow> Nothing 0 | v # vs \<Rightarrow> Delivered 0 (Some v), y'))"
proof -
  let ?a = "snd (run_total fifo_step ops (fifo_init ad))"
  from lmq_fifo.run_agrees [OF fifo_rel_init assms(1)] obtain y where
    run: "run_events sys_step ops (one_consumer ad i) =
      Some (fst (run_total fifo_step ops (fifo_init ad)), y)" and rel: "fifo_rel y ?a"
    by blast
  have "f_open (snd (run_total fifo_step xs b))" if "f_open b" "DropConsumer 0 \<notin> set xs" for xs b
    using that
  proof (induction xs arbitrary: b)
    case (Cons x xs)
    then show ?case
      by (cases x) (auto simp: Let_def split_def split: list.splits if_splits)
  qed simp
  then have "f_open ?a" using assms(2) by (simp add: fifo_init_def)
  with fifo_try_next [OF rel, of 0] have
    "\<exists>y'. sys_step (TryNext 0) y =
       Some (case f_pending ?a of [] \<Rightarrow> Nothing 0 | v # vs \<Rightarrow> Delivered 0 (Some v), y')"
    by (auto simp: Let_def split: list.splits simp del: sys_step.simps)
  moreover have "map Some (pushed_values (fst (run_total fifo_step ops (fifo_init ad)))) =
      delivered_values (fst (run_total fifo_step ops (fifo_init ad))) @ map Some (f_pending ?a)"
    using fifo_conserves [of "fifo_init ad" ops] by (simp add: fifo_init_def)
  ultimately show ?thesis using run by blast
qed

theorem one_consumer_exactly_once_witness:
  "\<exists>evs y rest. run_events sys_step [Push [1], TryNext 0, Push [2]] (one_consumer False 7) = Some (evs, y) \<and>
    map Some (pushed_values evs) = delivered_values evs @ map Some rest"
  using one_consumer_exactly_once [of "[Push [1], TryNext 0, Push [2]]" False 7]
  by (auto simp: not_new_def simp del: run_events.simps)

section \<open>Claiming\<close>

lemma claimed_stays_push:
  assumes "lmq_push v q s = Some (q', s')" and "p < payload_count s" and "payloads s p = None"
  shows "payloads s' p = None \<and> p < payload_count s'"
  using assms
  by (auto simp: lmq_push_def alloc_payload_def alloc_node_def set_next_def Let_def split: option.splits)

lemma prune_loop_payloads:
  assumes "prune_loop cur cl nx s = Some (d, s')"
  shows "payloads s' = payloads s \<and> payload_count s' = payload_count s"
proof -
  have "payloads (snd (d, s')) = payloads s \<and> payload_count (snd (d, s')) = payload_count s"
  proof (rule prune_loop.raw_induct
      [where P = "\<lambda>cur cl nx s r. payloads (snd r) = payloads s \<and> payload_count (snd r) = payload_count s",
       OF _ assms], goal_cases)
    case (1 f cur cl nx s r)
    have sn: "payloads (set_next a b s) = payloads s"
      "payload_count (set_next a b s) = payload_count s" for a b s
      by (simp_all add: set_next_def)
    from 1(2) show ?case
      by (auto simp: Let_def sn split: option.splits if_splits dest!: 1(1))
  qed
  then show ?thesis by simp
qed

lemma claimed_stays_try_next:
  assumes "try_next c s = Some (r, c', s')"
  shows "payload_count s' = payload_count s \<and> (payloads s p = None \<longrightarrow> payloads s' p = None)"
proof -
  let ?s = "if autodrop s then check_should_now_autodrop (mc_id c) (mc_current c) s else s"
  have "same_shape s ?s" using check_same_shape by simp
  then have "payload_count ?s = payload_count s \<and> (payloads s p = None \<longrightarrow> payloads ?s p = None)"
    unfolding same_shape_def by metis
  moreover from assms obtain d where
    "prune_loop (mc_current c) (is_claimed ?s (nodes ?s (mc_current c))) (nxt ?s (mc_current c)) ?s =
      Some (d, s')"
    by (auto simp: try_next_def Let_def split: option.splits prod.splits)
  ultimately show ?thesis by (auto dest!: prune_loop_payloads)
qed

lemma same_shape_claimed_stays:
  "same_shape s s' \<Longrightarrow> payload_count s' = payload_count s \<and> (payloads s p = None \<longrightarrow> payloads s' p = None)"
  unfolding same_shape_def by metis

lemma claimed_stays_step:
  assumes "sys_step x y = Some (ev, y')"
    and "p < payload_count (sy_store y)" and "payloads (sy_store y) p = None"
  shows "payloads (sy_store y') p = None \<and> p < payload_count (sy_store y')"
  using assms claimed_stays_push claimed_stays_try_next
    same_shape_claimed_stays [OF create_consumer_same_shape]
    same_shape_claimed_stays [OF drop_consumer_same_shape]
  by (cases x) (fastforce simp: Let_def split_def claim_def split: option.splits if_splits)+

lemma claimed_stays_run:
  assumes "run_events sys_step ops y = Some (evs, y')"
    and "p < payload_count (sy_store y)" and "payloads (sy_store y) p = None"
  shows "payloads (sy_store y') p = None"
  using assms
proof (induction ops arbitrary: y evs)
  case (Cons x ops)
  then show ?case
    using claimed_stays_step by (fastforce simp del: sys_step.simps split: option.splits)
qed simp

lemma held_grows:
  assumes "sys_step x y = Some (ev, y')" and "k < length (sy_held y)"
  shows "k < length (sy_held y') \<and> sy_held y' ! k = sy_held y ! k"
  using assms
  by (cases x) (auto simp: Let_def split_def nth_append split: option.splits if_splits)

lemma held_grows_run:
  "run_events sys_step ops y = Some (evs, y') \<Longrightarrow> k < length (sy_held y) \<Longrightarrow>
     k < length (sy_held y') \<and> sy_held y' ! k = sy_held y ! k"
proof (induction ops arbitrary: y evs)
  case (Cons x ops)
  then show ?case
    using held_grows by (fastforce simp del: sys_step.simps split: option.splits)
qed simp

text \<open>
  C21: A message is claimed at most once. After a claim of a received message, by whichever
  consumer, and after any further calls, another claim of the same handle returns \<open>None\<close>, and so
  does one through any other handle that shares the payload (another consumer's clone of the same
  node).
\<close>

theorem claim_at_most_once:
  assumes ok: "sys_ok y" and k: "k < length (sy_held y)" "j < length (sy_held y)"
    and shared: "payload_ref (sy_held y ! j) = payload_ref (sy_held y ! k)"
    and run: "run_events sys_step (Claim k # ops) y = Some (evs, y')"
  shows "\<exists>y''. sys_step (Claim j) y' = Some (Claimed j None, y'')"
proof -
  let ?y = "y\<lparr>sy_store := snd (claim (sy_held y ! k) (sy_store y))\<rparr>"
  let ?p = "payload_ref (sy_held y ! k)"
  have "sys_step (Claim k) y = Some (Claimed k (fst (claim (sy_held y ! k) (sy_store y))), ?y)"
    using k by (simp add: split_def Let_def)
  with run obtain es where run': "run_events sys_step ops ?y = Some (es, y')"
    by (auto simp del: sys_step.simps split: option.splits)
  have "message_ok (sy_store y) (sy_held y ! k)" using ok k by (simp add: sys_ok_def)
  then have "?p < payload_count (sy_store y)"
    using ok store_okD(4) by (auto simp: message_ok_def sys_ok_def)
  then have "payloads (sy_store y') ?p = None"
    using claimed_stays_run [OF run'] by (simp add: claim_def)
  moreover have "j < length (sy_held y') \<and> sy_held y' ! j = sy_held y ! j"
    using held_grows_run [OF run', of j] k by simp
  ultimately show ?thesis using shared by (simp add: claim_def)
qed

text \<open>Two consumers hold clones of one message; consumer 0 claims it.\<close>

definition shared_ops :: "lmq_op list" where
  "shared_ops = [NewConsumer 1, NewConsumer 2, Push [9], TryNext 0, TryNext 1]"

theorem claim_at_most_once_witness:
  "\<exists>y y' y''. run_events sys_step shared_ops (sys_init True) =
       Some ([Created, Created, Pushed [9], Delivered 0 (Some [9]), Delivered 1 (Some [9])], y) \<and>
     sys_step (Claim 0) y = Some (Claimed 0 (Some [9]), y') \<and>
     sys_step (Claim 1) y' = Some (Claimed 1 None, y'')"
proof -
  obtain evs y where run: "run_events sys_step shared_ops (sys_init True) = Some (evs, y)" and ok: "sys_ok y"
    using lmq.run_ok [OF sys_ok_init] by blast
  let ?f = "\<lambda>(es, y). (es, map payload_ref (sy_held y), map_option fst (sys_step (Claim 0) y))"
  have "map_option ?f (run_events sys_step shared_ops (sys_init True)) =
    Some ([Created, Created, Pushed [9], Delivered 0 (Some [9]), Delivered 1 (Some [9])], [2, 2],
      Some (Claimed 0 (Some [9])))"
    by (simp add: lmq_eval shared_ops_def)
  with run have evs: "evs = [Created, Created, Pushed [9], Delivered 0 (Some [9]), Delivered 1 (Some [9])]"
    and refs: "map payload_ref (sy_held y) = [2, 2]"
    and c0: "map_option fst (sys_step (Claim 0) y) = Some (Claimed 0 (Some [9]))"
    by (simp_all del: sys_step.simps)
  from c0 obtain y' where y': "sys_step (Claim 0) y = Some (Claimed 0 (Some [9]), y')" by auto
  have len: "length (sy_held y) = 2" using arg_cong [OF refs, of length] by simp
  have "payload_ref (sy_held y ! 1) = payload_ref (sy_held y ! 0)"
    using refs len by (metis length_map nth_Cons_0 nth_Cons_Suc nth_map One_nat_def zero_less_numeral
        one_less_numeral_iff semiring_norm(76))
  moreover have "run_events sys_step (Claim 0 # []) y = Some ([Claimed 0 (Some [9])], y')"
    using y' by (simp del: sys_step.simps)
  ultimately have "\<exists>y''. sys_step (Claim 1) y' = Some (Claimed 1 None, y'')"
    using len by (intro claim_at_most_once [OF ok]) auto
  with run evs y' show ?thesis by blast
qed

section \<open>A root that no longer reaches new messages\<close>

text \<open>
  A \<open>try_next\<close> of a consumer whose own node is claimed (the root sentinel counts as claimed) passes
  the claimed nodes ahead without redirecting them, and points its node at the tail. When one of the
  passed nodes is the last one of the queue, \<open>push\<close> keeps appending behind that node, and the
  consumer's node points at the tail from then on. \<open>root_cut\<close> is this state for the root.
\<close>

definition root_cut :: "lmq_system \<Rightarrow> bool" where
  "root_cut y \<longleftrightarrow>
     nxt (sy_store y) (q_root (sy_queue y)) = Some (q_tail (sy_queue y)) \<and>
     q_last (sy_queue y) \<noteq> q_root (sy_queue y) \<and>
     (\<forall>x. nxt (sy_store y) x \<noteq> Some (q_root (sy_queue y)))"

lemma chain_avoids:
  "chain f x as y \<Longrightarrow> \<forall>x. f x \<noteq> Some r \<Longrightarrow> x \<noteq> r \<Longrightarrow> r \<notin> set as \<and> y \<noteq> r"
  by (induction as arbitrary: x) auto

lemma root_cut_push:
  assumes ok: "sys_ok y" and cut: "root_cut y" and step: "sys_step (Push v) y = Some (ev, y')"
  shows "root_cut y' \<and> q_root (sy_queue y') = q_root (sy_queue y)"
proof -
  let ?s = "sy_store y" and ?q = "sy_queue y"
  from ok have so: "store_ok ?s" and qo: "queue_ok ?s ?q" by (simp_all add: sys_ok_def)
  obtain as l where l: "chain (nxt ?s) (q_last ?q) (as @ [l]) (q_tail ?q)"
    using last_exists qo unfolding queue_ok_def by blast
  have "l \<noteq> q_root ?q"
    using chain_avoids [OF l] cut by (auto simp: root_cut_def)
  moreover have "q_root ?q < node_count ?s" using qo by (simp add: queue_ok_def)
  ultimately show ?thesis
    using step cut qo lmq_push_eq [OF so qo l, of v]
    by (auto simp: root_cut_def nxt_pushed queue_ok_def split: if_splits)
qed

lemma root_cut_same_shape:
  "root_cut y \<Longrightarrow> same_shape (sy_store y) s \<Longrightarrow> root_cut (y\<lparr>sy_store := s, sy_consumers := cs\<rparr>)"
  by (simp add: root_cut_def same_shapeD(1))

lemma root_cut_try_next:
  assumes ok: "sys_ok y" and cut: "root_cut y" and at: "consumer_at y i = Some c"
    and step: "sys_step (TryNext i) y = Some (ev, y')"
  shows "root_cut y' \<and> q_root (sy_queue y') = q_root (sy_queue y)"
    and "mc_current c = q_root (sy_queue y) \<Longrightarrow> ev = Nothing i"
proof -
  let ?s = "sy_store y" and ?q = "sy_queue y" and ?r = "q_root (sy_queue y)"
  from ok have so: "store_ok ?s" by (simp add: sys_ok_def)
  have co: "consumer_ok ?q ?s c" using consumer_at_ok [OF ok at] .
  then obtain ds e where a: "ahead ?s ?q (mc_current c) ds e"
    using ahead_exists unfolding consumer_ok_def by blast
  let ?g = "nxt (moved c ds e ?s)"
  have q: "sy_queue y' = ?q" and s: "sy_store y' = moved c ds e ?s"
    using step at try_next_eq [OF so co a] by (auto split: if_splits)
  obtain n where n: "nxt ?s (mc_current c) = Some n" and path: "chain (nxt ?s) n ds e"
    using a by (auto simp: ahead_def)
  have pre: "\<forall>x. nxt ?s x \<noteq> Some ?r" using cut by (simp add: root_cut_def)
  have avoid: "?r \<notin> set ds \<and> e \<noteq> ?r"
    using chain_avoids [OF path pre] n pre by metis
  have at_root: "ds = [] \<and> e = q_tail ?q" if "mc_current c = ?r"
  proof -
    have "n = q_tail ?q" using n that cut by (simp add: root_cut_def)
    moreover have "nxt ?s (q_tail ?q) = None" using ok by (intro queue_ok_tail) (simp add: sys_ok_def)
    ultimately show ?thesis using path by (cases ds) auto
  qed
  then show "ev = Nothing i" if "mc_current c = ?r"
    using that step at try_next_eq [OF so co a] by auto
  have "?g ?r = Some (q_tail ?q)"
    using cut avoid at_root by (auto simp: nxt_moved redirect_def root_cut_def)
  moreover have "?g x \<noteq> Some ?r" for x
  proof (cases "mc_current c = ?r")
    case True
    then have "?g = nxt ?s" using at_root cut by (auto simp: nxt_moved root_cut_def intro: redirect_Nil)
    with pre show ?thesis by simp
  next
    case False
    with pre avoid show ?thesis by (auto simp: nxt_moved redirect_def)
  qed
  ultimately show "root_cut y' \<and> q_root (sy_queue y') = ?r"
    using cut by (simp add: root_cut_def q s)
qed

lemma root_cut_step:
  assumes ok: "sys_ok y" and cut: "root_cut y" and step: "sys_step x y = Some (ev, y')"
  shows "root_cut y'"
proof (cases x)
  case (Push v)
  with assms root_cut_push show ?thesis by (auto simp del: sys_step.simps)
next
  case (NewConsumer i)
  with step cut create_consumer_same_shape root_cut_same_shape show ?thesis
    by (auto simp: Let_def split_def)
next
  case (TryNext i)
  with assms show ?thesis
    by (cases "consumer_at y i") (auto dest: root_cut_try_next(1) simp del: sys_step.simps, simp)
next
  case (Claim k)
  have "root_cut (y\<lparr>sy_store := snd (claim (sy_held y ! k) (sy_store y)),
      sy_consumers := sy_consumers y\<rparr>)"
    using cut claim_same_shape by (rule root_cut_same_shape)
  with Claim step cut show ?thesis by (auto simp: Let_def split_def split: if_splits)
next
  case (DropConsumer i)
  with step cut drop_consumer_same_shape root_cut_same_shape show ?thesis
    by (auto split: option.splits)
qed

lemma root_cut_run:
  "run_events sys_step ops y = Some (evs, y') \<Longrightarrow> sys_ok y \<Longrightarrow> root_cut y \<Longrightarrow> sys_ok y' \<and> root_cut y'"
proof (induction ops arbitrary: y evs)
  case Nil
  then show ?case by simp
next
  case (Cons x ops)
  then obtain ev y1 es where step: "sys_step x y = Some (ev, y1)"
    and rest: "run_events sys_step ops y1 = Some (es, y')"
    by (auto simp del: sys_step.simps split: option.splits)
  moreover have "sys_ok y1" using lmq.step_ok [OF Cons.prems(2), of x] step by auto
  moreover have "root_cut y1" using root_cut_step Cons.prems step by blast
  ultimately show ?case using Cons.IH by blast
qed

lemma create_consumer_at_root: "mc_current (fst (create_consumer i q s)) = q_root q"
  by (simp add: create_consumer_def Let_def)

text \<open>
  C29: Once the root is cut off it stays cut off: whatever calls follow (any pushes, claims, drops and
  \<open>try_next\<close> calls of any consumers), a consumer that is still at the root, and every consumer created
  later, is told that there is no message, although messages are pushed and delivered to others.
\<close>

theorem root_cut_is_permanent:
  assumes "sys_ok y" and "root_cut y" and "run_events sys_step ops y = Some (evs, y')"
  shows "(\<forall>i c. consumer_at y' i = Some c \<and> mc_current c = q_root (sy_queue y') \<longrightarrow>
      map_option fst (sys_step (TryNext i) y') = Some (Nothing i)) \<and>
    map_option fst (run_events sys_step [NewConsumer cid, TryNext (length (sy_consumers y'))] y') =
      Some [Created, Nothing (length (sy_consumers y'))]"
proof
  have y': "sys_ok y'" "root_cut y'" using root_cut_run assms by blast+
  have stuck: "map_option fst (sys_step (TryNext i) y2) = Some (Nothing i)"
    if "sys_ok y2" "root_cut y2" "consumer_at y2 i = Some c" "mc_current c = q_root (sy_queue y2)"
    for y2 i c
  proof -
    note y2 = that
    obtain ev y3 where "sys_step (TryNext i) y2 = Some (ev, y3)"
      using sys_step_try_next [OF y2(1)] by blast
    then show ?thesis using root_cut_try_next(2) [OF y2(1-3)] y2(4) by simp
  qed
  then show "\<forall>i c. consumer_at y' i = Some c \<and> mc_current c = q_root (sy_queue y') \<longrightarrow>
      map_option fst (sys_step (TryNext i) y') = Some (Nothing i)"
    using y' by blast
  let ?c = "fst (create_consumer cid (sy_queue y') (sy_store y'))"
  let ?n = "length (sy_consumers y')"
  obtain ev y2 where new: "sys_step (NewConsumer cid) y' = Some (ev, y2)" and "sys_ok y2"
    using sys_step_new_consumer [OF y'(1)] by blast
  moreover have "ev = Created" "consumer_at y2 ?n = Some ?c"
    "mc_current ?c = q_root (sy_queue y2)"
    using new create_consumer_at_root [of cid "sy_queue y'" "sy_store y'"]
    by (auto simp: consumer_at_def Let_def split_def)
  moreover have "root_cut y2" using root_cut_step [OF y' new] .
  ultimately have "map_option fst (sys_step (TryNext ?n) y2) = Some (Nothing ?n)"
    using stuck by blast
  then show "map_option fst (run_events sys_step [NewConsumer cid, TryNext ?n] y') =
      Some [Created, Nothing ?n]"
    using new \<open>ev = Created\<close> by (auto simp del: sys_step.simps split: option.splits)
qed

text \<open>
  Five calls of two consumers cut the root off: consumer 0 receives and claims the only message,
  then consumer 1, still at the root, looks once.
\<close>

definition cut_ops :: "lmq_op list" where
  "cut_ops = [NewConsumer 1, NewConsumer 2, Push [10], TryNext 0, Claim 0, TryNext 1, Push [20]]"

lemma cut_ops_cuts:
  "case run_events sys_step cut_ops (sys_init True) of
     None \<Rightarrow> False
   | Some (evs, y) \<Rightarrow> root_cut y \<and> length (sy_consumers y) = 2"
  by (simp add: lmq_eval cut_ops_def root_cut_def)

theorem root_cut_is_permanent_witness:
  "\<exists>evs y. run_events sys_step cut_ops (sys_init True) = Some (evs, y) \<and> root_cut y \<and>
     map_option fst (run_events sys_step [NewConsumer 3, TryNext 2] y) = Some [Created, Nothing 2]"
proof -
  obtain evs y where run: "run_events sys_step cut_ops (sys_init True) = Some (evs, y)" and ok: "sys_ok y"
    using lmq.run_ok [OF sys_ok_init] by blast
  with cut_ops_cuts have "root_cut y" and len: "length (sy_consumers y) = 2" by auto
  with conjunct2 [OF root_cut_is_permanent [OF ok, of "[]" "[]" y 3]] run show ?thesis
    by (auto simp del: sys_step.simps)
qed

text \<open>
  Messages can be lost. With two consumers created before any message, after consumer 0 received
  and claimed the first message and consumer 1 looked once, the second message is pushed: consumer 1
  never visited it, it is unclaimed, and consumer 1 is told there is nothing, while consumer 0
  receives it.
\<close>

theorem unclaimed_message_is_missed:
  "map_option fst (run_events sys_step (cut_ops @ [TryNext 1, TryNext 0]) (sys_init True)) =
   Some [Created, Created, Pushed [10], Delivered 0 (Some [10]), Claimed 0 (Some [10]), Nothing 1,
     Pushed [20], Nothing 1, Delivered 0 (Some [20])]"
  by (simp add: lmq_eval cut_ops_def)

text \<open>
  C31: A consumer can be sent back, and receive a message twice. Take any state the calls of the queue
  lead to, a consumer \<open>j\<close> whose message is unclaimed when it leaves it, and a consumer \<open>i\<close> that stands
  on one of the claimed nodes which \<open>j\<close> passes in its next \<open>try_next\<close>. That \<open>try_next\<close> points these nodes
  back at the node of \<open>j\<close>, so a \<open>try_next\<close> of \<open>i\<close> right after it is given the message of \<open>j\<close>, which lies behind
  it, and \<open>i\<close> moves to that node. The witness is a run in which \<open>i\<close> had received this message.
\<close>

theorem pruned_consumer_goes_back:
  assumes "run_events sys_step ops (sys_init ad) = Some (evs, y)"
    and at: "consumer_at y j = Some d" "consumer_at y i = Some c" "i \<noteq> j"
    and a: "ahead (sy_store y) (sy_queue y) (mc_current d) ds e" and on: "mc_current c \<in> set ds"
    and left: "payloads (passed d (sy_store y)) (payload_ref (nodes (sy_store y) (mc_current d))) = Some v"
  shows "\<exists>ev y1 y2 c2. sys_step (TryNext j) y = Some (ev, y1) \<and>
    sys_step (TryNext i) y1 = Some (Delivered i (Some v), y2) \<and>
    consumer_at y2 i = Some c2 \<and> mc_current c2 = mc_current d"
proof -
  let ?s = "sy_store y" and ?q = "sy_queue y" and ?b = "mc_current d" and ?x = "mc_current c"
  let ?s1 = "moved d ds e ?s"
  have ok: "sys_ok y" using lmq.run_keeps [OF sys_ok_init assms(1)] by simp
  then have so: "store_ok ?s" by (simp add: sys_ok_def)
  note d = consumer_at_ok [OF ok at(1)] and c = consumer_at_ok [OF ok at(2)]
  from try_next_eq [OF so d a] at obtain ev y1 where y1: "sys_step (TryNext j) y = Some (ev, y1)"
    "sy_store y1 = ?s1" "sy_queue y1 = ?q" "consumer_at y1 i = Some c"
    by (auto simp: consumer_at_def split: if_splits)
  have so1: "store_ok ?s1" using moved_store_ok [OF so a] .
  have c1: "consumer_ok ?q ?s1 c" using moved_consumer_ok [OF so c a] .
  have val: "payloads ?s1 (payload_ref (nodes ?s1 ?b)) = Some v" using left by simp
  have open_b: "\<not> is_claimed (passed d ?s) (nodes (passed d ?s) ?b)" using left by (simp add: is_claimed_def)
  have ne: "?x \<noteq> ?b" using ahead_facts(1) [OF a] on by auto
  have points: "nxt ?s1 ?x = Some ?b" using on ne open_b by (simp add: nxt_moved redirect_def)
  have ends: "ends_at (nxt ?s1) ?b (q_tail ?q)"
    using moved_consumer_ok [OF so d a] by (simp add: consumer_ok_def)
  have a1: "ahead ?s1 ?q ?x [] ?b" using points ends val by (simp add: ahead_def is_claimed_def)
  have "?b \<noteq> q_tail ?q" using d by (simp add: consumer_ok_def)
  from try_next_eq [OF so1 c1 a1] this delivered_unclaimed(1) [OF so1 c1 a1 this] val y1
  show ?thesis by (auto simp: consumer_at_def split: if_splits)
qed

text \<open>
  Consumer 0 receives two messages and claims the second; consumer 1 receives the first and looks
  again; consumer 0 looks again and receives the first message a second time. (Consumer 2, which has
  not looked yet, keeps the automatic drop from claiming it.)
\<close>

definition twice_ops :: "lmq_op list" where
  "twice_ops = [NewConsumer 1, NewConsumer 2, NewConsumer 3, Push [10], Push [20], TryNext 0, TryNext 0, Claim 1,
     TryNext 1]"

theorem pruned_consumer_goes_back_witness:
  "\<exists>evs y ev y1 y2. run_events sys_step twice_ops (sys_init True) = Some (evs, y) \<and>
     Delivered 0 (Some [10]) \<in> set evs \<and> sys_step (TryNext 1) y = Some (ev, y1) \<and>
     sys_step (TryNext 0) y1 = Some (Delivered 0 (Some [10]), y2)"
proof -
  have "\<exists>evs y c d. run_events sys_step twice_ops (sys_init True) = Some (evs, y) \<and>
      Delivered 0 (Some [10]) \<in> set evs \<and> consumer_at y 1 = Some d \<and> consumer_at y 0 = Some c \<and>
      nxt (sy_store y) (mc_current d) = Some (mc_current c) \<and> nxt (sy_store y) (mc_current c) = Some (q_tail (sy_queue y)) \<and>
      is_claimed (sy_store y) (nodes (sy_store y) (mc_current c)) \<and>
      payloads (passed d (sy_store y)) (payload_ref (nodes (sy_store y) (mc_current d))) = Some [10]"
    by (simp add: twice_ops_def lmq_eval passed_def)
  then obtain evs y c d where run: "run_events sys_step twice_ops (sys_init True) = Some (evs, y)"
      "Delivered 0 (Some [10]) \<in> set evs" and at: "consumer_at y 1 = Some d" "consumer_at y 0 = Some c"
    and nexts: "nxt (sy_store y) (mc_current d) = Some (mc_current c)"
      "nxt (sy_store y) (mc_current c) = Some (q_tail (sy_queue y))"
      "is_claimed (sy_store y) (nodes (sy_store y) (mc_current c))"
    and left: "payloads (passed d (sy_store y)) (payload_ref (nodes (sy_store y) (mc_current d))) = Some [10]"
    by (elim exE conjE) (rule that)
  have ok: "sys_ok y" using lmq.run_keeps [OF sys_ok_init run(1)] by simp
  then have "nxt (sy_store y) (q_tail (sy_queue y)) = None" using queue_ok_tail by (simp add: sys_ok_def)
  with nexts have "ahead (sy_store y) (sy_queue y) (mc_current d) [mc_current c] (q_tail (sy_queue y))"
    by (simp add: ahead_def ends_at_self)
  from pruned_consumer_goes_back [OF run(1) at _ this _ left] run show ?thesis by auto
qed

text \<open>
  The automatic drop looks only at the node a departing consumer stands on. A consumer that is
  the only target of two messages is dropped before it reaches either: both stay in the queue,
  readable, and a consumer created afterwards is given them.
\<close>

theorem dropped_target_leaves_messages:
  "map_option fst (run_events sys_step
     [NewConsumer 1, Push [10], Push [20], DropConsumer 0, NewConsumer 2, TryNext 1, TryNext 1, Claim 1]
     (sys_init True)) =
   Some [Created, Pushed [10], Pushed [20], Dropped 0, Created, Delivered 1 (Some [10]),
     Delivered 1 (Some [20]), Claimed 1 (Some [20])]"
  by (simp add: lmq_eval)

end
