(* ===== verification/Lmq_Broadcast_Props.thy ===== *)
theory Lmq_Broadcast_Props
  imports Lmq_Broadcast Lmq_Props
begin

text \<open>
  The properties of a queue with several consumers: the broadcast, and \<open>next\<close>, which wakes for every
  message pushed while it waits.
\<close>

section \<open>Everyone receives everything\<close>

text \<open>
  C3: A queue broadcasts to its consumers. Take any number of consumers created before the first
  message (their random identifiers distinct) and clients that push, ask for messages with
  \<open>try_next\<close> and drop consumers, in any order, but do not claim. Then every call returns, and its
  result is that of a log with one position per consumer: each live consumer receives every pushed
  payload once, in order and at its own pace. In particular the automatic drop, which empties a
  message when its remaining targets are dead, never takes a message from a live consumer that has
  not received it.
\<close>

theorem broadcast_in_order:
  assumes "distinct ids" and "list_all relayed ops"
  shows "map_option fst (run_events sys_step (new_consumers ids @ ops) (sys_init ad)) =
    Some (replicate (length ids) Created @ fst (run_total bcast_step ops (bcast_init (length ids))))"
proof -
  obtain y where y: "run_events sys_step (new_consumers ids) (sys_init ad) = Some (replicate (length ids) Created, y)"
    "bcast_rel ids y (bcast_init (length ids))"
    using bcast_start [OF assms(1)] by blast
  from lmq_bcast.run_agrees [OF y(2) assms(2)] obtain y' where
    "run_events sys_step ops y = Some (fst (run_total bcast_step ops (bcast_init (length ids))), y')"
    by blast
  with y(1) show ?thesis by (simp add: run_events_append)
qed

theorem broadcast_in_order_witness:
  "map_option fst (run_events sys_step (new_consumers [3, 4, 5] @
     [Push [1], TryNext 0, TryNext 0, TryNext 1, Push [2], DropConsumer 2, TryNext 1, TryNext 0, TryNext 2])
     (sys_init True)) =
   Some (replicate 3 Created @ [Pushed [1], Delivered 0 (Some [1]), Nothing 0, Delivered 1 (Some [1]),
     Pushed [2], Dropped 2, Delivered 1 (Some [2]), Delivered 0 (Some [2]), Ignored])"
proof -
  let ?ops = "[Push [1], TryNext 0, TryNext 0, TryNext 1, Push [2], DropConsumer 2, TryNext 1, TryNext 0, TryNext 2]"
  have "distinct [3 :: u64, 4, 5]" "list_all relayed ?ops" by (simp_all add: relayed_def)
  from broadcast_in_order [OF this, of True] show ?thesis
    by (simp add: bcast_init_def position_def numeral_3_eq_3)
qed

section \<open>\<open>next\<close> wakes\<close>

fun pushes :: "lmq_op list \<Rightarrow> byte list list" where
  "pushes [] = []"
| "pushes (Push v # xs) = v # pushes xs"
| "pushes (_ # xs) = pushes xs"

definition spares :: "nat \<Rightarrow> lmq_op \<Rightarrow> bool" where
  "spares i x \<longleftrightarrow> x \<noteq> TryNext i \<and> x \<noteq> DropConsumer i"

text \<open>What the other calls leave of consumer \<open>i\<close>, and the notifications they count.\<close>

lemma passed_notified [simp]: "notified (passed c s) = notified s"
  by (simp add: passed_def check_should_now_autodrop_def claim_def Let_def split: option.split)

lemma drop_notified: "notified (drop_consumer c s) = notified s"
  by (simp add: drop_consumer_def check_should_now_autodrop_def claim_def Let_def split: option.split)

lemma prune_notified:
  assumes "prune_loop cur cl n s = Some x"
  shows "notified (snd x) = notified s"
  by (rule prune_loop.raw_induct [where P = "\<lambda>cur cl n s x. notified (snd x) = notified s", OF _ assms])
    (fastforce simp: set_next_def Let_def split: option.splits if_splits)

lemma try_next_notified:
  "try_next c s = Some (r, c', s') \<Longrightarrow> notified s' = notified s \<and> mc_notify c' = mc_notify c"
  by (auto simp: try_next_def Let_def passed_def [symmetric] split: option.splits prod.splits
      dest!: prune_notified)

lemma push_notified:
  "lmq_push v q s = Some (q', s') \<Longrightarrow> q_notify q' = q_notify q \<and>
     notified s' (q_notify q) = Suc (notified s (q_notify q))"
  by (auto simp: lmq_push_def alloc_payload_def alloc_node_def set_next_def Let_def split: option.splits)

lemma step_effects:
  assumes "sys_step x y = Some (ev, y')" and "relayed x"
  shows "q_notify (sy_queue y') = q_notify (sy_queue y) \<and>
      notified (sy_store y') (q_notify (sy_queue y)) =
        notified (sy_store y) (q_notify (sy_queue y)) + length (pushes [x])"
    and "spares i x \<Longrightarrow> consumer_at y' i = consumer_at y i"
  using assms
  by (cases x; auto simp: relayed_def drop_notified spares_def consumer_at_def split: option.splits if_splits
      dest: try_next_notified push_notified)+

lemma run_effects:
  assumes "run_events sys_step xs y = Some (evs, y')" and "list_all relayed xs"
  shows "q_notify (sy_queue y') = q_notify (sy_queue y) \<and>
      notified (sy_store y') (q_notify (sy_queue y)) =
        notified (sy_store y) (q_notify (sy_queue y)) + length (pushes xs)"
    and "list_all (spares i) xs \<Longrightarrow> consumer_at y' i = consumer_at y i"
proof -
  have "q_notify (sy_queue y') = q_notify (sy_queue y) \<and>
      notified (sy_store y') (q_notify (sy_queue y)) =
        notified (sy_store y) (q_notify (sy_queue y)) + length (pushes xs) \<and>
      (list_all (spares i) xs \<longrightarrow> consumer_at y' i = consumer_at y i)"
    using assms
  proof (induction xs arbitrary: y evs)
    case Nil
    then show ?case by simp
  next
    case (Cons x xs)
    then obtain ev y1 evs1 where x: "sys_step x y = Some (ev, y1)"
      and xs: "run_events sys_step xs y1 = Some (evs1, y')"
      by (auto simp del: sys_step.simps split: option.splits)
    have "length (pushes (x # xs)) = length (pushes [x]) + length (pushes xs)" by (cases x) auto
    with Cons.IH [OF xs] Cons.prems(2) step_effects(1) [OF x] step_effects(2) [OF x, of i] show ?case by auto
  qed
  then show "q_notify (sy_queue y') = q_notify (sy_queue y) \<and>
      notified (sy_store y') (q_notify (sy_queue y)) =
        notified (sy_store y) (q_notify (sy_queue y)) + length (pushes xs)"
    and "list_all (spares i) xs \<Longrightarrow> consumer_at y' i = consumer_at y i" by auto
qed

lemma bcast_effects:
  assumes "list_all relayed xs"
  shows "b_log (snd (run_total bcast_step xs a)) = b_log a @ pushes xs"
    and "list_all (spares i) xs \<Longrightarrow> position (snd (run_total bcast_step xs a)) i = position a i"
proof -
  have "b_log (snd (run_total bcast_step xs a)) = b_log a @ pushes xs \<and>
    (list_all (spares i) xs \<longrightarrow> position (snd (run_total bcast_step xs a)) i = position a i)"
    using assms
  proof (induction xs arbitrary: a)
    case Nil
    then show ?case by simp
  next
    case (Cons x xs)
    have "b_log (snd (bcast_step x a)) = b_log a @ pushes [x] \<and>
      (spares i x \<longrightarrow> position (snd (bcast_step x a)) i = position a i)"
      using Cons.prems by (cases x) (auto simp: relayed_def spares_def position_def split: option.splits)
    moreover have "pushes (x # xs) = pushes [x] @ pushes xs" by (cases x) auto
    ultimately show ?case
      using Cons.IH [of "snd (bcast_step x a)"] Cons.prems
      by (simp add: run_total_Cons del: run_total.simps(2) bcast_step.simps)
  qed
  then show "b_log (snd (run_total bcast_step xs a)) = b_log a @ pushes xs"
    and "list_all (spares i) xs \<Longrightarrow> position (snd (run_total bcast_step xs a)) i = position a i" by auto
qed

text \<open>A poll that looks is a call of \<open>try_next\<close>.\<close>

lemma poll_looks:
  assumes "consumer_at y i = Some c" and "sys_step (TryNext i) y = Some (ev, y')"
    and "fut = NextStart \<or> (\<exists>a. fut = NextWaiting a \<and> ready a (notified (sy_store y) (mc_notify c)))"
  shows "(ev = Nothing i \<and> (\<exists>c'. y' = y\<lparr>sy_store := sy_store y', sy_consumers := (sy_consumers y)[i := Some c']\<rparr> \<and>
        poll_next ready fut c (sy_store y) =
          Some (Inl (NextWaiting (notified (sy_store y) (mc_notify c))), c', sy_store y'))) \<or>
    (\<exists>m c'. ev = Delivered i (read_message (sy_store y') m) \<and>
        poll_next ready fut c (sy_store y) = Some (Inr m, c', sy_store y'))"
  using assms by (auto simp: poll_next_def Let_def split: option.splits)

lemma position_le:
  assumes "bcast_rel ids y a" and "position a i = Some p"
  shows "p \<le> length (b_log a)"
proof -
  obtain ms where "length ms = length (b_log a)" and "\<forall>i < length ids.
      bcast_slot (sy_store y) (sy_queue y) ms (b_log a) (ids ! i) i (sy_consumers y ! i) (b_pos a ! i)"
    using assms(1) by (rule bcast_relE)
  with position_slot(2) [OF assms] show ?thesis by (auto simp: bcast_slot_def bcast_consumer_def)
qed

lemma pending_poll:
  "poll_next ready NextStart c s = Some (Inl fut, c1, s1) \<Longrightarrow>
     notified s1 = notified s \<and> mc_notify c1 = mc_notify c"
  by (auto simp: poll_next_def Let_def split: option.splits dest: try_next_notified)

text \<open>
  C20: No wake-up is lost in a broadcast: the consumers were all created before the first message, their
  identifiers distinct, and nobody claims. Suppose the future \<open>next\<close> of a consumer was polled and is pending, and then
  the other clients run on, pushing at least one message before the future is polled again. Then
  the next poll completes, with the first of the messages pushed meanwhile, and \<open>blocking_next\<close>, which
  is woken after that, returns it. What this uses of tokio is that a \<open>Notified\<close> completes once \<open>notify_waiters\<close> was called after it was taken.
\<close>

theorem next_no_lost_wakeup:
  assumes "distinct ids" and "list_all relayed before" and "list_all relayed meanwhile"
    and "list_all (spares i) meanwhile" and "pushes meanwhile = v # vs"
    and wakes: "\<And>a b. a < b \<Longrightarrow> ready a b"
    and run: "run_events sys_step (new_consumers ids @ before) (sys_init ad) = Some (evs, y)"
    and at: "consumer_at y i = Some c"
    and pending: "poll_next ready NextStart c (sy_store y) = Some (Inl fut, c1, s1)"
  shows "\<exists>evs2 y2 m c2 s2.
    run_events sys_step meanwhile (y\<lparr>sy_store := s1, sy_consumers := (sy_consumers y)[i := Some c1]\<rparr>) =
      Some (evs2, y2) \<and> consumer_at y2 i = Some c1 \<and>
    poll_next ready fut c1 (sy_store y2) = Some (Inr m, c2, s2) \<and> read_message s2 m = Some v \<and>
    blocking_next ready (\<lambda>_. sy_store y2) NextStart c (sy_store y) = Some (m, c2, s2)"
proof -
  obtain y0 where y0: "run_events sys_step (new_consumers ids) (sys_init ad) = Some (replicate (length ids) Created, y0)"
    "bcast_rel ids y0 (bcast_init (length ids))"
    using bcast_start [OF assms(1)] by blast
  let ?a = "snd (run_total bcast_step before (bcast_init (length ids)))"
  from lmq_bcast.run_agrees [OF y0(2) assms(2)] y0(1) run have rel: "bcast_rel ids y ?a"
    by (auto simp: run_events_append)
  obtain y1 where y1: "sys_step (TryNext i) y = Some (fst (bcast_step (TryNext i) ?a), y1)"
    and rel1: "bcast_rel ids y1 (snd (bcast_step (TryNext i) ?a))"
    using bcast_try_next [OF rel] by blast
  from poll_looks [OF at y1, of NextStart ready] pending
  have nothing: "fst (bcast_step (TryNext i) ?a) = Nothing i"
    and y1_eq: "y1 = y\<lparr>sy_store := s1, sy_consumers := (sy_consumers y)[i := Some c1]\<rparr>"
    and fut: "fut = NextWaiting (notified (sy_store y) (mc_notify c))"
    by auto
  then obtain p where p: "position ?a i = Some p" "\<not> p < length (b_log ?a)"
    and a1: "snd (bcast_step (TryNext i) ?a) = ?a"
    by (auto split: option.splits if_splits)
  with position_le [OF rel p(1)] have len: "p = length (b_log ?a)" by simp
  from lmq_bcast.run_agrees [OF rel1 assms(3)] obtain evs2 y2 where
    run2: "run_events sys_step meanwhile y1 = Some (evs2, y2)"
    and rel2: "bcast_rel ids y2 (snd (run_total bcast_step meanwhile ?a))"
    unfolding a1 by blast
  let ?a2 = "snd (run_total bcast_step meanwhile ?a)"
  have a2: "position ?a2 i = Some p" "b_log ?a2 = b_log ?a @ v # vs"
    using bcast_effects [OF assms(3)] assms(4,5) p(1) by simp_all
  have "i < length (sy_consumers y)" using at by (auto simp: consumer_at_def split: if_splits)
  then have "consumer_at y1 i = Some c1" by (simp add: y1_eq consumer_at_def)
  with run_effects(2) [OF run2 assms(3,4)] have at2: "consumer_at y2 i = Some c1" by simp
  have n: "mc_notify c = q_notify (sy_queue y)"
    using consumer_at_ok [OF _ at] rel by (simp add: bcast_rel_def consumer_ok_def)
  with run_effects(1) [OF run2 assms(3)] assms(5) pending_poll [OF pending] y1_eq
  have "notified (sy_store y) (mc_notify c) < notified (sy_store y2) (mc_notify c1)" by simp
  then have "ready (notified (sy_store y) (mc_notify c)) (notified (sy_store y2) (mc_notify c1))" by (rule wakes)
  moreover obtain y3 where y3: "sys_step (TryNext i) y2 = Some (Delivered i (Some v), y3)"
    using bcast_try_next [OF rel2, of i] a2 len by auto
  ultimately obtain m c2 where "Delivered i (Some v) = Delivered i (read_message (sy_store y3) m)"
    "poll_next ready fut c1 (sy_store y2) = Some (Inr m, c2, sy_store y3)"
    using poll_looks [OF at2 y3, of fut ready] fut by blast
  moreover from this(2) have "blocking_next ready (\<lambda>_. sy_store y2) fut c1 (sy_store y2) = Some (m, c2, sy_store y3)"
    by (subst blocking_next.simps) simp
  then have "blocking_next ready (\<lambda>_. sy_store y2) NextStart c (sy_store y) = Some (m, c2, sy_store y3)"
    using pending by (subst blocking_next.simps) simp
  ultimately show ?thesis using run2 at2 y1_eq by auto
qed

theorem next_no_lost_wakeup_witness:
  "\<exists>evs y c fut c1 s1 evs2 y2 m c2 s2.
    run_events sys_step (new_consumers [3, 4] @ [Push [1], TryNext 0]) (sys_init True) = Some (evs, y) \<and>
    poll_next (<) NextStart c (sy_store y) = Some (Inl fut, c1, s1) \<and>
    run_events sys_step [TryNext 1, Push [2], Push [3]]
      (y\<lparr>sy_store := s1, sy_consumers := (sy_consumers y)[0 := Some c1]\<rparr>) = Some (evs2, y2) \<and>
    poll_next (<) fut c1 (sy_store y2) = Some (Inr m, c2, s2) \<and> read_message s2 m = Some [2] \<and>
    blocking_next (<) (\<lambda>_. sy_store y2) NextStart c (sy_store y) = Some (m, c2, s2)"
proof -
  have "\<exists>evs y c fut c1 s1.
      run_events sys_step (new_consumers [3, 4] @ [Push [1], TryNext 0]) (sys_init True) = Some (evs, y) \<and>
      consumer_at y 0 = Some c \<and> poll_next (<) NextStart c (sy_store y) = Some (Inl fut, c1, s1)"
    by (simp add: new_consumers_def poll_next_def lmq_eval)
  then obtain evs y c fut c1 s1 where
    y: "run_events sys_step (new_consumers [3, 4] @ [Push [1], TryNext 0]) (sys_init True) = Some (evs, y)"
    "consumer_at y 0 = Some c" "poll_next (<) NextStart c (sy_store y) = Some (Inl fut, c1, s1)" by blast
  have "distinct [3 :: u64, 4]" "list_all relayed [Push [1], TryNext 0]"
    "list_all relayed [TryNext 1, Push [2], Push [3]]" "list_all (spares 0) [TryNext 1, Push [2], Push [3]]"
    "pushes [TryNext 1, Push [2], Push [3]] = [2] # [[3]]"
    by (simp_all add: relayed_def spares_def)
  from next_no_lost_wakeup [OF this _ y] y show ?thesis by blast
qed

end
