(* ===== verification/Lmq_Locks_Atomic.thy ===== *)
theory Lmq_Locks_Atomic
  imports Lmq_Locks_Props
begin

text \<open>
  The calls of \<^verbatim>\<open>Lmq_System\<close>, atomic there, are runs of the threads: a call that is not interrupted does
  step by step what the atomic operation does at once.
\<close>

section \<open>The atomic view of a state without calls in progress\<close>

definition atomic_view :: "lmq_locks \<Rightarrow> lmq_system" where
  "atomic_view g =
     \<lparr>sy_queue = lk_queue g, sy_store = lk_store g,
      sy_consumers = map (\<lambda>(c, ph). if ph = Gone then None else Some c) (lk_consumers g),
      sy_held = lk_held g\<rparr>"

definition visible :: "lk_event list \<Rightarrow> lk_event list" where
  "visible = filter (\<lambda>e. e \<noteq> LkSilent)"

fun outcome :: "lmq_event \<Rightarrow> lk_event list" where
  "outcome (Pushed v) = [LkPushed]"
| "outcome Created = [LkCreated]"
| "outcome (Delivered i v) = [LkDelivered i v]"
| "outcome (Nothing i) = [LkNothing i]"
| "outcome (Claimed k v) = [LkClaimed k v]"
| "outcome (Dropped i) = [LkDropped i]"
| "outcome Ignored = []"

text \<open>\<open>g\<close> does the steps \<open>ls\<close>, shows \<open>vs\<close> and ends in \<open>g'\<close>.\<close>

definition runs :: "lmq_locks \<Rightarrow> lk_event list \<Rightarrow> lmq_locks \<Rightarrow> bool" where
  "runs g vs g' \<longleftrightarrow> (\<exists>ls gs. run_events lk_step ls g = Some (gs, g') \<and> visible gs = vs)"

lemma runs_refl: "runs g [] g"
  unfolding runs_def by (intro exI [of _ "[]"]) (simp add: visible_def)

lemma runs_step:
  "lk_step x g = Some (ev, g1) \<Longrightarrow> runs g1 vs g' \<Longrightarrow> runs g (visible [ev] @ vs) g'"
  unfolding runs_def by (elim exE conjE, rule_tac x = "x # ls" in exI) (auto simp: visible_def)

lemma runs_silent: "lk_step x g = Some (LkSilent, g1) \<Longrightarrow> runs g1 vs g' \<Longrightarrow> runs g vs g'"
  using runs_step [of x g LkSilent g1 vs g'] by (simp add: visible_def)

lemma runs_last: "lk_step x g = Some (ev, g') \<Longrightarrow> ev \<noteq> LkSilent \<Longrightarrow> runs g [ev] g'"
  using runs_step [OF _ runs_refl, of x g ev g'] by (simp add: visible_def)

lemma runs_trans: "runs g us g1 \<Longrightarrow> runs g1 vs g2 \<Longrightarrow> runs g (us @ vs) g2"
  unfolding runs_def
  by (elim exE conjE, rule_tac x = "ls @ lsa" in exI) (auto simp: run_events_append visible_def)

lemma runs_ok: "lk_ok g \<Longrightarrow> runs g vs g' \<Longrightarrow> lk_ok g'"
  using lk.run_keeps by (auto simp: runs_def)

section \<open>\<open>push\<close>\<close>

text \<open>The state after the new node \<open>n\<close> is linked behind \<open>l\<close>.\<close>

definition linked :: "nref \<Rightarrow> nref \<Rightarrow> lmq_locks \<Rightarrow> lmq_locks" where
  "linked n l g =
     (let q = lk_queue g; s = set_next l (Some n) (lk_store g)
      in g\<lparr>lk_queue := q\<lparr>q_last := n\<rparr>, lk_push := None,
           lk_store := s\<lparr>notified := (notified s)(q_notify q := Suc (notified s (q_notify q)))\<rparr>\<rparr>)"

lemma linked_other_push: "linked n l (g\<lparr>lk_push := p\<rparr>) = linked n l g"
  by (simp add: linked_def Let_def)

lemma push_at_eq:
  "push_at n x g =
     (case nxt (lk_store g) x of
        None \<Rightarrow> (LkPushed, linked n x g)
      | Some z \<Rightarrow> if z = q_tail (lk_queue g) then (LkPushed, linked n x g)
                  else (LkSilent, g\<lparr>lk_push := Some (n, z)\<rparr>))"
  by (simp add: push_at_def linked_def Let_def split: option.split)

lemma node_locked_push [simp]: "node_locked (g\<lparr>lk_push := p\<rparr>) = node_locked g"
  by (simp add: fun_eq_iff node_locked_def)

lemma push_walks:
  assumes "ends_at (nxt (lk_store g)) x t" and "lk_push g = Some (n, x)" and "\<And>y. \<not> node_locked g y"
  shows "\<exists>l. find_last (q_tail (lk_queue g)) x (lk_store g) = Some l \<and> runs g [LkPushed] (linked n l g)"
proof -
  let ?s = "lk_store g" and ?q = "lk_queue g"
  have "\<exists>l. find_last (q_tail ?q) x ?s = Some l \<and> runs (g\<lparr>lk_push := Some (n, x)\<rparr>) [LkPushed] (linked n l g)"
    using assms(1)
  proof (induction rule: ends_at_induct)
    case terminal
    from assms(1) have "nxt ?s t = None" by (rule ends_at_None)
    then have "lk_step StepPush (g\<lparr>lk_push := Some (n, t)\<rparr>) = Some (LkPushed, linked n t g)"
      and "find_last (q_tail ?q) t ?s = Some t"
      using assms(3) by (auto simp: push_at_eq linked_other_push find_last.simps)
    then show ?case by (blast intro: runs_last)
  next
    case (step x z)
    let ?g = "g\<lparr>lk_push := Some (n, x)\<rparr>"
    show ?case
    proof (cases "z = q_tail ?q")
      case True
      then have "lk_step StepPush ?g = Some (LkPushed, linked n x g)" and "find_last (q_tail ?q) x ?s = Some x"
        using step(1) assms(3) by (auto simp: push_at_eq linked_other_push find_last.simps)
      then show ?thesis by (blast intro: runs_last)
    next
      case False
      then have "lk_step StepPush ?g = Some (LkSilent, g\<lparr>lk_push := Some (n, z)\<rparr>)"
        and "find_last (q_tail ?q) x ?s = find_last (q_tail ?q) z ?s"
        using step(1) assms(3) by (auto simp: push_at_eq find_last.simps)
      with step.IH runs_silent show ?thesis by metis
    qed
  qed
  moreover have "g\<lparr>lk_push := Some (n, x)\<rparr> = g" using assms(2) by simp
  ultimately show ?thesis by (simp only:)
qed

lemma quiet_unlocked: "\<not> busy g \<Longrightarrow> \<not> node_locked g y"
  by (force simp: busy_def node_locked_def list_ex_iff)

lemma push_runs:
  assumes g: "lk_ok g" and quiet: "\<not> busy g" and p: "lmq_push v (lk_queue g) (lk_store g) = Some (q, s)"
  shows "runs g [LkPushed] (g\<lparr>lk_queue := q, lk_store := s\<rparr>)"
proof -
  let ?g = "push_begins v g"
  have free: "lk_push g = None" using quiet unfolding busy_def by blast
  then have begins: "lk_step (CallPush v) g = Some (LkSilent, ?g)" by simp
  have locked: "\<not> node_locked ?g y" for y
    using quiet_unlocked [OF quiet] by (simp add: push_begins_eq node_locked_def)
  obtain t where "ends_at (nxt (lk_store ?g)) (q_last (lk_queue g)) t"
    using store_okD(1) [OF lk_okD(1) [OF push_begins_lk_ok [OF g free]]] by blast
  then obtain l where l: "find_last (q_tail (lk_queue g)) (q_last (lk_queue g)) (lk_store ?g) = Some l"
    and r: "runs ?g [LkPushed] (linked (node_count (lk_store g)) l ?g)"
    using push_walks [of ?g "q_last (lk_queue g)" t "node_count (lk_store g)"] locked
    by (auto simp: push_begins_eq)
  have "linked (node_count (lk_store g)) l ?g = g\<lparr>lk_queue := q, lk_store := s\<rparr>"
    using p l free
    by (auto simp: linked_def push_begins_eq lmq_push_def alloc_payload_def alloc_node_def with_node_def Let_def
        split: option.splits)
  with runs_silent [OF begins r] show ?thesis by simp
qed

section \<open>\<open>try_next\<close>\<close>

text \<open>Nobody but consumer \<open>i\<close> holds a lock.\<close>

definition alone :: "nat \<Rightarrow> lmq_locks \<Rightarrow> bool" where
  "alone i g \<longleftrightarrow> (\<forall>j c ph. lk_at g j = Some (c, ph) \<and> j \<noteq> i \<longrightarrow> \<not> holds_node ph)"

lemma alone_locked:
  assumes "alone i g" and "lk_at g i = Some (c, ph)" and "x \<noteq> mc_current c"
  shows "\<not> node_locked g x"
proof
  assume "node_locked g x"
  then obtain d p j where "lk_at g j = Some (d, p)" "holds_node p" "mc_current d = x"
    unfolding node_locked_iff lk_at_Some by (auto simp: in_set_conv_nth)
  with assms show False by (cases "j = i") (auto simp: alone_def)
qed

lemma alone_payload:
  assumes "lk_ok g" "alone i g" "lk_at g i = Some (c, ph)" "x \<noteq> mc_current c" "x < node_count (lk_store g)"
  shows "\<not> payload_locked g (payload_ref (nodes (lk_store g) x))"
  using payload_locked_locked [OF assms(1,5)] alone_locked [OF assms(2-4)] by blast

text \<open>What the end of the loop does to the state.\<close>

definition loop_ends :: "nat \<Rightarrow> message_consumer \<Rightarrow> nref option \<Rightarrow> lmq_store \<Rightarrow> lmq_locks \<Rightarrow> lmq_locks" where
  "loop_ends i c r s g =
     (case r of
        None \<Rightarrow> set_consumer i c Resting (g\<lparr>lk_store := s\<rparr>)
      | Some d \<Rightarrow> (set_consumer i (c\<lparr>mc_current := d\<rparr>) Resting (g\<lparr>lk_store := s\<rparr>))
                   \<lparr>lk_held := lk_held g @ [nodes s d]\<rparr>)"

definition loop_event :: "nat \<Rightarrow> nref option \<Rightarrow> lmq_store \<Rightarrow> lk_event" where
  "loop_event i r s =
     (case r of None \<Rightarrow> LkNothing i | Some d \<Rightarrow> LkDelivered i (read_message s (nodes s d)))"


lemma alone_set: "alone i g \<Longrightarrow> alone i (set_consumer i c ph (g\<lparr>lk_store := s\<rparr>))"
  unfolding alone_def lk_at_Some by simp (metis nth_list_update_neq)

lemma lk_at_set_consumer:
  "lk_at g i = Some (c, ph) \<Longrightarrow> lk_at (set_consumer i d ph' g') i = Some (d, ph')"
  if "length (lk_consumers g') = length (lk_consumers g)"
  using that by (auto simp: lk_at_def split: if_splits)

lemma set_consumer_twice [simp]:
  "set_consumer i c ph ((set_consumer i d ph' g)\<lparr>lk_store := s\<rparr>) = set_consumer i c ph (g\<lparr>lk_store := s\<rparr>)"
  by (simp add: set_consumer_def)

lemma loop_ends_set: "loop_ends i c r s (set_consumer i d ph g) = loop_ends i c r s g"
  by (simp add: loop_ends_def set_consumer_def split: option.split)

lemma loop_ends_store: "loop_ends i c r s (g\<lparr>lk_store := s'\<rparr>) = loop_ends i c r s g"
  by (simp add: loop_ends_def set_consumer_def split: option.split)

lemma loop_runs:
  assumes "prune_loop cur cl m s = Some y"
  shows "lk_ok g \<Longrightarrow> alone i g \<Longrightarrow> lk_at g i = Some (c, Pruning cl m) \<Longrightarrow> lk_store g = s \<Longrightarrow>
    mc_current c = cur \<Longrightarrow> runs g [loop_event i (fst y) (snd y)] (loop_ends i c (fst y) (snd y) g)"
proof -
  have "\<forall>g. lk_ok g \<and> alone i g \<and> lk_at g i = Some (c, Pruning cl m) \<and> lk_store g = s \<and> mc_current c = cur \<longrightarrow>
      runs g [loop_event i (fst y) (snd y)] (loop_ends i c (fst y) (snd y) g)"
  proof (rule prune_loop.raw_induct [where P = "\<lambda>cur cl m s y.
      \<forall>g. lk_ok g \<and> alone i g \<and> lk_at g i = Some (c, Pruning cl m) \<and> lk_store g = s \<and> mc_current c = cur \<longrightarrow>
        runs g [loop_event i (fst y) (snd y)] (loop_ends i c (fst y) (snd y) g)", OF _ assms], goal_cases)
    case (1 f cur cl m s y)
    show ?case
    proof (intro allI impI, elim conjE)
      fix g
      assume g: "lk_ok g" "alone i g" and at: "lk_at g i = Some (c, Pruning cl m)"
        and s: "lk_store g = s" and cur: "mc_current c = cur"
      show "runs g [loop_event i (fst y) (snd y)] (loop_ends i c (fst y) (snd y) g)"
      proof (cases m)
        case None
        then have "lk_step (StepNext i) g = Some (LkNothing i, set_consumer i c Resting g)"
          using at by (simp add: next_turn_def)
        moreover have "y = (None, s)" using 1(2) None by simp
        ultimately show ?thesis
          using s runs_last [of "StepNext i" g "LkNothing i"] by (auto simp: loop_event_def loop_ends_def)
      next
        case (Some n)
        have to: "nxt s cur = Some n" using lk_okD(6) [OF g(1) lk_at_set [OF at]] Some s cur by (simp add: phase_ok_def)
        have n: "n \<noteq> mc_current c" "n < node_count (lk_store g)"
          using next_other store_okD(3) lk_okD(1) [OF g(1)] to s cur by auto
        then have free: "\<not> node_locked g n" "\<not> payload_locked g (payload_ref (nodes s n))"
          using alone_locked [OF g(2) at] alone_payload [OF g at] s by auto
        then have st: "lk_step (StepNext i) g = Some (prune_turn i c cl n g)"
          using at Some s by (simp add: next_turn_def)
        show ?thesis
        proof (cases "is_claimed s (nodes s n) \<and> nxt s n \<noteq> None")
          case False
          then have "y = (let s1 = set_next cur (Some n) s in (if nxt s1 n \<noteq> None then Some n else None, s1))"
            using 1(2) Some n s cur by (auto simp: Let_def split: if_splits)
          moreover have "prune_turn i c cl n g = (loop_event i (fst y) (snd y), loop_ends i c (fst y) (snd y) g)"
            using False s cur calculation by (auto simp: prune_turn_def loop_event_def loop_ends_def Let_def)
          ultimately show ?thesis
            using st runs_last [of "StepNext i" g "loop_event i (fst y) (snd y)"]
            by (simp add: loop_event_def Let_def split: option.split)
        next
          case True
          define s2 where "s2 = (let s1 = set_next cur (nxt s n) s
            in if \<not> cl then set_next n (Some cur) s1 else s1)"
          let ?g = "set_consumer i c (Pruning cl (nxt s n)) (g\<lparr>lk_store := s2\<rparr>)"
          have turn: "prune_turn i c cl n g = (LkSilent, ?g)"
            using True s cur by (auto simp: prune_turn_def s2_def Let_def)
          have "f cur cl (nxt s n) s2 = Some y"
            using 1(2) True Some n s cur by (auto simp: s2_def Let_def split: if_splits)
          moreover have "lk_ok ?g" using prune_turn_lk_ok [OF g(1), of i c cl n] at Some free turn by simp
          moreover have "lk_at ?g i = Some (c, Pruning cl (nxt s n))"
            using at by (rule lk_at_set_consumer [rotated]) simp
          ultimately have "runs ?g [loop_event i (fst y) (snd y)] (loop_ends i c (fst y) (snd y) ?g)"
            using 1(1) alone_set [OF g(2)] cur by auto
          then show ?thesis
            using runs_silent [of "StepNext i" g ?g] st turn by (simp add: loop_ends_set loop_ends_store)
        qed
      qed
    qed
  qed
  then show "lk_ok g \<Longrightarrow> alone i g \<Longrightarrow> lk_at g i = Some (c, Pruning cl m) \<Longrightarrow> lk_store g = s \<Longrightarrow>
    mc_current c = cur \<Longrightarrow> runs g [loop_event i (fst y) (snd y)] (loop_ends i c (fst y) (snd y) g)" by blast
qed


lemma quiet_alone: "\<not> busy g \<Longrightarrow> alone i (set_consumer i c ph (g\<lparr>lk_store := s\<rparr>))"
  using quiet_unlocked [of g] by (intro alone_set) (auto simp: alone_def node_locked_iff dest: lk_at_set)

lemma try_next_runs:
  assumes g: "lk_ok g" and quiet: "\<not> busy g" and i: "lk_at g i = Some (c, Resting)"
    and eq: "try_next c (lk_store g) = Some (r, c', s)"
  shows "\<exists>d. r = map_option (nodes s) d \<and> c' = (case d of None \<Rightarrow> c | Some x \<Rightarrow> c\<lparr>mc_current := x\<rparr>) \<and>
    runs g [loop_event i d s] (loop_ends i c d s g)"
proof -
  let ?cur = "mc_current c"
  let ?s1 = "passed c (lk_store g)"
  let ?cl = "is_claimed ?s1 (nodes ?s1 ?cur)"
  from eq obtain d where loop: "prune_loop ?cur ?cl (nxt ?s1 ?cur) ?s1 = Some (d, s)"
    and r: "r = map_option (nodes s) d" "c' = (case d of None \<Rightarrow> c | Some x \<Rightarrow> c\<lparr>mc_current := x\<rparr>)"
    by (auto simp: try_next_def passed_def Let_def split: option.splits if_splits)
  let ?at = "\<lambda>ph s. set_consumer i c ph (g\<lparr>lk_store := s\<rparr>)"
  have at: "lk_at (?at ph s) i = Some (c, ph)" for ph s
    using i by (rule lk_at_set_consumer [rotated]) simp
  have quiet_at: "alone i (?at ph s)" for ph s using quiet by (rule quiet_alone)
  have lens: "i < length (lk_consumers g)" using i by (simp add: lk_at_Some)
  have free: "\<not> holds_node p" if "(d, p) \<in> set (lk_consumers g)" for d p
    using that quiet_unlocked [OF quiet, of "mc_current d"] by (auto simp: node_locked_iff)
  have locks: "\<not> node_locked (?at Locking s) x" "\<not> payload_locked (?at Checking s) x"
    "\<not> payload_locked (?at Guarding s) x" for s x
    using free holds_payload_node
    by (fastforce simp: node_locked_iff payload_locked_iff dest!: in_set_update)+
  have "g\<lparr>lk_store := lk_store g\<rparr> = g" by simp
  then have "lk_step (CallNext i) g = Some (LkSilent, ?at Locking (lk_store g))" using i by simp
  moreover have "lk_step (StepNext i) (?at Locking (lk_store g)) = Some (LkSilent, ?at Checking (lk_store g))"
    using locks(1) [of "lk_store g"] at [of Locking "lk_store g"] by (simp add: next_turn_def)
  moreover have "lk_step (StepNext i) (?at Checking (lk_store g)) = Some (LkSilent, ?at Guarding ?s1)"
    using locks(2) [of "lk_store g"] at [of Checking "lk_store g"]
    by (simp add: next_turn_def passed_def Let_def)
  moreover have "lk_step (StepNext i) (?at Guarding ?s1) = Some (LkSilent, ?at (Pruning ?cl (nxt ?s1 ?cur)) ?s1)"
    using locks(3) [of ?s1] at [of Guarding ?s1] by (simp add: next_turn_def Let_def)
  moreover have "runs (?at (Pruning ?cl (nxt ?s1 ?cur)) ?s1) [loop_event i d s] (loop_ends i c d s g)"
  proof -
    have "lk_ok (?at (Pruning ?cl (nxt ?s1 ?cur)) ?s1)"
      using calculation lk.step_keeps [OF lk.step_keeps [OF lk.step_keeps [OF lk.step_keeps [OF g,
          THEN conjunct1], THEN conjunct1], THEN conjunct1]] by blast
    from loop_runs [OF loop this quiet_at at] show ?thesis
      by (simp add: loop_ends_set loop_ends_store)
  qed
  ultimately show ?thesis using r by (blast intro: runs_silent)
qed


section \<open>All calls\<close>

lemma view_consumer:
  assumes "\<not> busy g" and "consumer_at (atomic_view g) i = Some c"
  shows "lk_at g i = Some (c, Resting)"
  using assms unfolding busy_def
  by (auto simp: consumer_at_def atomic_view_def lk_at_def list_ex_iff split: if_splits prod.splits)
    (metis nth_mem)

lemma busy_update: "\<not> busy g \<Longrightarrow> ph = Resting \<or> ph = Gone \<Longrightarrow> lk_push g' = lk_push g \<Longrightarrow>
    lk_consumers g' = (lk_consumers g)[i := (c, ph)] \<Longrightarrow> \<not> busy g'"
  by (auto simp: busy_def list_ex_iff dest!: in_set_update)

lemma view_update:
  "map (\<lambda>(c, ph). if ph = Gone then None else Some c) (xs[i := (c, ph)]) =
   (map (\<lambda>(c, ph). if ph = Gone then None else Some c) xs)[i := (if ph = Gone then None else Some c)]"
  by (simp add: map_update)

text \<open>One atomic call.\<close>

definition call_runs :: "lmq_op \<Rightarrow> lmq_locks \<Rightarrow> bool" where
  "call_runs x g \<longleftrightarrow> (\<forall>e y. sys_step x (atomic_view g) = Some (e, y) \<longrightarrow>
     (\<exists>g'. runs g (outcome e) g' \<and> \<not> busy g' \<and> atomic_view g' = y))"

lemma push_call_runs:
  assumes g: "lk_ok g" and quiet: "\<not> busy g"
  shows "call_runs (Push v) g"
  unfolding call_runs_def
proof (intro allI impI)
  fix e y assume "sys_step (Push v) (atomic_view g) = Some (e, y)"
  then obtain q s where p: "lmq_push v (lk_queue g) (lk_store g) = Some (q, s)"
    and "e = Pushed v" "y = (atomic_view g)\<lparr>sy_queue := q, sy_store := s\<rparr>"
    by (auto simp: atomic_view_def split: option.splits)
  moreover have "\<not> busy (g\<lparr>lk_queue := q, lk_store := s\<rparr>)" using quiet by (simp add: busy_def)
  ultimately show "\<exists>g'. runs g (outcome e) g' \<and> \<not> busy g' \<and> atomic_view g' = y"
    using push_runs [OF g quiet p] by (intro exI conjI) (auto simp: atomic_view_def)
qed

lemma new_call_runs:
  assumes "\<not> busy g"
  shows "call_runs (NewConsumer cid) g"
proof -
  obtain c s where c: "create_consumer cid (lk_queue g) (lk_store g) = (c, s)" by force
  let ?g = "g\<lparr>lk_store := s, lk_consumers := lk_consumers g @ [(c, Resting)]\<rparr>"
  have "lk_push g = None" using assms unfolding busy_def by blast
  with c have "runs g [LkCreated] ?g" by (intro runs_last [of "CallNew cid"]) auto
  moreover have "\<not> busy ?g" using assms by (simp add: busy_def)
  ultimately show ?thesis using c by (fastforce simp: call_runs_def atomic_view_def Let_def)
qed

lemma claim_call_runs:
  assumes "\<not> busy g"
  shows "call_runs (Claim k) g"
proof (cases "k < length (lk_held g)")
  case True
  obtain v s where c: "claim (lk_held g ! k) (lk_store g) = (v, s)" by force
  have "\<not> payload_locked g r" for r
    using quiet_unlocked [OF assms] holds_payload_node by (auto simp: payload_locked_iff node_locked_iff)
  with True c have "runs g [LkClaimed k v] (g\<lparr>lk_store := s\<rparr>)" by (intro runs_last [of "CallClaim k"]) auto
  moreover have "\<not> busy (g\<lparr>lk_store := s\<rparr>)" using assms by (simp add: busy_def)
  ultimately show ?thesis using True c by (fastforce simp: call_runs_def atomic_view_def)
qed (use assms in \<open>auto simp: call_runs_def atomic_view_def intro: runs_refl\<close>)

lemma drop_call_runs:
  assumes quiet: "\<not> busy g"
  shows "call_runs (DropConsumer i) g"
proof (cases "consumer_at (atomic_view g) i")
  case None
  then show ?thesis using quiet by (auto simp: call_runs_def intro: runs_refl)
next
  case (Some c)
  note i = view_consumer [OF quiet Some]
  let ?g = "set_consumer i c Gone (g\<lparr>lk_store := drop_consumer c (lk_store g)\<rparr>)"
  have "runs g [LkDropped i] ?g"
  proof (cases "autodrop (lk_store g)")
    case False
    then show ?thesis
      using i by (intro runs_last [of "CallDrop i"]) (auto simp: drop_begins_def drop_consumer_def Let_def)
  next
    case True
    let ?g1 = "set_consumer i c Leaving
      (g\<lparr>lk_store := (lk_store g)\<lparr>active := hm_remove (mc_id c) (active (lk_store g))\<rparr>\<rparr>)"
    have "lk_step (CallDrop i) g = Some (LkSilent, ?g1)"
      using True i by (simp add: drop_begins_def Let_def)
    moreover have at: "lk_at ?g1 i = Some (c, Leaving)" using i by (rule lk_at_set_consumer [rotated]) simp
    moreover have "\<not> node_locked ?g1 x" "\<not> payload_locked ?g1 r" for x r
      using quiet_unlocked [OF quiet] holds_payload_node
      by (fastforce simp: node_locked_iff payload_locked_iff dest!: in_set_update)+
    then have "lk_step (StepDrop i) ?g1 = Some (LkDropped i, ?g)"
      using at True by (simp add: drop_ends_def drop_consumer_def Let_def)
    ultimately show ?thesis by (blast intro: runs_silent runs_last)
  qed
  moreover have "\<not> busy ?g" using quiet by (rule busy_update) auto
  moreover have "atomic_view ?g = (atomic_view g)\<lparr>sy_store := drop_consumer c (lk_store g),
      sy_consumers := (sy_consumers (atomic_view g))[i := None]\<rparr>"
    by (simp add: atomic_view_def view_update)
  ultimately show ?thesis using Some by (auto simp: call_runs_def) (auto simp: atomic_view_def)
qed

lemma next_call_runs:
  assumes g: "lk_ok g" and quiet: "\<not> busy g"
  shows "call_runs (TryNext i) g"
proof (cases "consumer_at (atomic_view g) i")
  case None
  then show ?thesis using quiet by (auto simp: call_runs_def intro: runs_refl)
next
  case (Some c)
  note i = view_consumer [OF quiet Some]
  show ?thesis
    unfolding call_runs_def
  proof (intro allI impI)
    fix e y assume st: "sys_step (TryNext i) (atomic_view g) = Some (e, y)"
    then obtain r c' s where t: "try_next c (lk_store g) = Some (r, c', s)"
      using Some by (auto simp: atomic_view_def split: option.splits)
    then obtain d where d: "r = map_option (nodes s) d" "c' = (case d of None \<Rightarrow> c | Some x \<Rightarrow> c\<lparr>mc_current := x\<rparr>)"
      and runs: "runs g [loop_event i d s] (loop_ends i c d s g)"
      using try_next_runs [OF g quiet i] by blast
    have "\<not> busy (loop_ends i c d s g)"
      using quiet by (rule busy_update [where ph = Resting and i = i and c = c'])
        (auto simp: loop_ends_def d split: option.split)
    moreover have "outcome e = [loop_event i d s]" "y = atomic_view (loop_ends i c d s g)"
      using st Some t d
      by (auto simp: atomic_view_def loop_event_def loop_ends_def view_update split: option.splits)
    ultimately show "\<exists>g'. runs g (outcome e) g' \<and> \<not> busy g' \<and> atomic_view g' = y" using runs by auto
  qed
qed

lemma call_runs_all: "lk_ok g \<Longrightarrow> \<not> busy g \<Longrightarrow> call_runs x g"
  by (cases x) (auto intro: push_call_runs new_call_runs next_call_runs claim_call_runs drop_call_runs)

lemma atomic_runs:
  assumes "lk_ok g" and "\<not> busy g" and "run_events sys_step xs (atomic_view g) = Some (es, y)"
  shows "\<exists>g'. runs g (concat (map outcome es)) g' \<and> \<not> busy g' \<and> atomic_view g' = y"
  using assms
proof (induction xs arbitrary: g es)
  case Nil
  then show ?case by (auto intro: runs_refl)
next
  case (Cons x xs)
  then obtain e y1 fs where st: "sys_step x (atomic_view g) = Some (e, y1)"
    and rest: "run_events sys_step xs y1 = Some (fs, y)" and es: "es = e # fs"
    by (auto split: option.splits)
  then obtain g1 where g1: "runs g (outcome e) g1" "\<not> busy g1" "atomic_view g1 = y1"
    using call_runs_all [OF Cons.prems(1,2), of x] by (auto simp: call_runs_def)
  obtain g' where "runs g1 (concat (map outcome fs)) g'" "\<not> busy g'" "atomic_view g' = y"
    using Cons.IH [OF runs_ok [OF Cons.prems(1) g1(1)] g1(2)] rest g1(3) by auto
  with runs_trans [OF g1(1)] es show ?case by auto
qed

text \<open>
  Taking the calls of the queue as atomic loses no behaviour that uninterrupted threads have: for
  every list of calls, with its events and final state, there is a run of the threads step by step
  with the same visible events that ends with no call in progress in the same state. So what
  \<^verbatim>\<open>Lmq_Props\<close> shows to happen (a message delivered twice, a queue cut off) happens with the locks too.
\<close>

lemma atomic_calls_are_runs:
  "\<exists>es y ls gs g. run_events sys_step xs (sys_init ad) = Some (es, y) \<and>
     run_events lk_step ls (lk_start ad) = Some (gs, g) \<and>
     visible gs = concat (map outcome es) \<and> \<not> busy g \<and> atomic_view g = y"
proof -
  have start: "\<not> busy (lk_start ad)" "atomic_view (lk_start ad) = sys_init ad"
    by (simp_all add: lk_start_def busy_def atomic_view_def sys_init_def split_def Let_def)
  obtain es y where run: "run_events sys_step xs (sys_init ad) = Some (es, y)"
    using lmq.run_ok [OF sys_ok_init] by blast
  then obtain g' where
    "runs (lk_start ad) (concat (map outcome es)) g'" "\<not> busy g'" "atomic_view g' = y"
    using atomic_runs [OF lk_ok_start start(1), of xs es y] start(2) by auto
  with run show ?thesis unfolding runs_def by blast
qed

end
