(* ===== verification/Lmq_Locks_Broadcast.thy ===== *)
theory Lmq_Locks_Broadcast
  imports Lmq_Locks_Atomic Lmq_Broadcast_Props "HOL-Library.Sublist"
begin

text \<open>
  The broadcast with threads: the pusher, the consumers in their \<open>try_next\<close> calls and the consumers
  being dropped, interleaved at every lock. Each call takes effect at once, when it is completed: the
  events of the threads are those of the log with one position per consumer (\<^verbatim>\<open>bcast_step\<close>).
\<close>

section \<open>What the threads have done\<close>

text \<open>Once the consumers exist, nobody claims.\<close>

definition thread_relays :: "lk_op \<Rightarrow> bool" where
  "thread_relays x \<longleftrightarrow> (case x of CallNew i \<Rightarrow> False | CallClaim k \<Rightarrow> False | _ \<Rightarrow> True)"

text \<open>The call that an event completes; \<open>v\<close> is the payload of the push in progress.\<close>

fun completes :: "byte list \<Rightarrow> lk_event \<Rightarrow> lmq_op list" where
  "completes v LkPushed = [Push v]"
| "completes v (LkDelivered i w) = [TryNext i]"
| "completes v (LkNothing i) = [TryNext i]"
| "completes v (LkDropped i) = [DropConsumer i]"
| "completes v _ = []"

fun pushing_now :: "byte list \<Rightarrow> lk_op \<Rightarrow> byte list" where
  "pushing_now v (CallPush w) = w"
| "pushing_now v _ = v"

fun completed :: "byte list \<Rightarrow> lk_op list \<Rightarrow> lk_event list \<Rightarrow> lmq_op list" where
  "completed v (x # xs) (e # es) = completes v e @ completed (pushing_now v x) xs es"
| "completed v _ _ = []"

section \<open>The relation\<close>

text \<open>The node the pusher is about to link, with its payload.\<close>

definition coming :: "byte list \<Rightarrow> lmq_locks \<Rightarrow> (nref \<times> byte list) list" where
  "coming v g = (case lk_push g of None \<Rightarrow> [] | Some (n, x) \<Rightarrow> [(n, v)])"

definition thread_slot ::
  "lmq_store \<Rightarrow> link_message_queue \<Rightarrow> nref list \<Rightarrow> (nref \<times> byte list) list \<Rightarrow> byte list list \<Rightarrow> u64 \<Rightarrow> nat \<Rightarrow>
     message_consumer \<times> phase \<Rightarrow> nat option \<Rightarrow> bool" where
  "thread_slot s q ms new vs cid i cp po \<longleftrightarrow>
     (case po of
        None \<Rightarrow> snd cp = Gone
      | Some p \<Rightarrow>
          snd cp \<noteq> Gone \<and> mc_id (fst cp) = cid \<and> (autodrop s \<longrightarrow> mc_tracker (fst cp) = i) \<and> p \<le> length ms \<and>
          mc_current (fst cp) = (q_root q # ms) ! p \<and> (snd cp = Leaving \<longrightarrow> autodrop s) \<and>
          (snd cp \<noteq> Leaving \<longrightarrow> due s (ms @ map fst new) (vs @ map snd new) cid i p \<and> registered s cid i))"

definition threads_at :: "u64 list \<Rightarrow> byte list \<Rightarrow> lmq_locks \<Rightarrow> bcast \<Rightarrow> nref list \<Rightarrow> bool" where
  "threads_at ids v g a ms \<longleftrightarrow>
     lk_ok g \<and> distinct ids \<and> length (b_pos a) = length ids \<and> length (lk_consumers g) = length ids \<and>
     lin (lk_store g) (lk_queue g) ms \<and> length ms = length (b_log a) \<and>
     (\<forall>n x. lk_push g = Some (n, x) \<longrightarrow> x = q_last (lk_queue g) \<and> n \<notin> set (q_root (lk_queue g) # ms)) \<and>
     (\<forall>i < length ids. thread_slot (lk_store g) (lk_queue g) ms (coming v g) (b_log a) (ids ! i) i
        (lk_consumers g ! i) (b_pos a ! i))"

definition threads_rel :: "u64 list \<Rightarrow> byte list \<Rightarrow> lmq_locks \<Rightarrow> bcast \<Rightarrow> bool" where
  "threads_rel ids v g a \<longleftrightarrow> (\<exists>ms. threads_at ids v g a ms)"

lemma threads_atD:
  assumes "threads_at ids v g a ms"
  shows "lk_ok g" "store_ok (lk_store g)" "distinct ids" "length (b_pos a) = length ids"
    "length (lk_consumers g) = length ids" "lin (lk_store g) (lk_queue g) ms" "length ms = length (b_log a)"
    "lk_push g = Some (n, x) \<Longrightarrow> x = q_last (lk_queue g) \<and> n \<notin> set (q_root (lk_queue g) # ms)"
    "i < length ids \<Longrightarrow> thread_slot (lk_store g) (lk_queue g) ms (coming v g) (b_log a) (ids ! i) i
       (lk_consumers g ! i) (b_pos a ! i)"
  using assms by (auto simp: threads_at_def lk_ok_def)

text \<open>A thread that moves: the others keep their slots, and its own is right.\<close>

lemma thread_moves:
  assumes r: "threads_at ids v g a ms" and ok: "lk_ok g'"
    and same: "lk_queue g' = lk_queue g" "lk_push g' = lk_push g" "nxt (lk_store g') = nxt (lk_store g)"
      "lk_consumers g' = (lk_consumers g)[i := cp]"
    and others: "\<And>j. j < length ids \<Longrightarrow> j \<noteq> i \<Longrightarrow> thread_slot (lk_store g') (lk_queue g) ms (coming v g)
      (b_log a) (ids ! j) j (lk_consumers g ! j) (b_pos a ! j)"
    and own: "thread_slot (lk_store g') (lk_queue g) ms (coming v g) (b_log a) (ids ! i) i cp po"
  shows "threads_at ids v g' (a\<lparr>b_pos := (b_pos a)[i := po]\<rparr>) ms"
proof -
  note t = threads_atD [OF r]
  have "coming v g' = coming v g" by (simp add: coming_def same)
  moreover have "thread_slot (lk_store g') (lk_queue g) ms (coming v g) (b_log a) (ids ! j) j
      ((lk_consumers g)[i := cp] ! j) ((b_pos a)[i := po] ! j)" if "j < length ids" for j
    using that others own t(4,5) by (cases "j = i") auto
  moreover have "lin (lk_store g') (lk_queue g) ms" using t(6) by (simp add: lin_def same(3))
  ultimately show ?thesis using t ok by (simp add: threads_at_def same)
qed

lemma slot_phase:
  "thread_slot s q ms new vs cid i (c, ph) po \<Longrightarrow> ph \<noteq> Leaving \<Longrightarrow> ph \<noteq> Gone \<Longrightarrow> ph' \<noteq> Gone \<Longrightarrow>
     ph' \<noteq> Leaving \<Longrightarrow> thread_slot s q ms new vs cid i (c, ph') po"
  by (auto simp: thread_slot_def split: option.splits)

lemma slot_position:
  assumes "threads_at ids v g a ms" and "lk_at g i = Some (c, ph)" and "ph \<noteq> Gone"
  obtains p where "position a i = Some p" "i < length ids" "b_pos a ! i = Some p" "p \<le> length ms"
    "mc_id c = ids ! i" "mc_current c = (q_root (lk_queue g) # ms) ! p"
    "autodrop (lk_store g) \<Longrightarrow> mc_tracker c = i"
    "ph = Leaving \<Longrightarrow> autodrop (lk_store g)"
    "ph \<noteq> Leaving \<Longrightarrow> due (lk_store g) (ms @ map fst (coming v g)) (b_log a @ map snd (coming v g)) (ids ! i) i p \<and>
       registered (lk_store g) (ids ! i) i"
  using assms threads_atD(4,5,9) [OF assms(1)]
  by (fastforce simp: thread_slot_def lk_at_Some position_def split: option.splits)

lemma nth_same: "xs ! i = y \<Longrightarrow> xs[i := y] = xs"
  using list_update_id by metis

lemma phase_moves:
  assumes r: "threads_at ids v g a ms" and i: "lk_at g i = Some (c, ph)" "ph \<noteq> Leaving" "ph \<noteq> Gone" "ph' \<noteq> Gone" "ph' \<noteq> Leaving"
    and ok: "lk_ok (set_consumer i c ph' g)"
  shows "threads_at ids v (set_consumer i c ph' g) a ms"
proof -
  obtain p where p: "i < length ids" "b_pos a ! i = Some p" using slot_position [OF r i(1,3)] by metis
  have "lk_consumers g ! i = (c, ph)" using i(1) by (simp add: lk_at_Some)
  then have "thread_slot (lk_store g) (lk_queue g) ms (coming v g) (b_log a) (ids ! i) i (c, ph') (Some p)"
    using threads_atD(9) [OF r p(1)] p(2) slot_phase [OF _ i(2-5)] by metis
  then have "threads_at ids v (set_consumer i c ph' g) (a\<lparr>b_pos := (b_pos a)[i := Some p]\<rparr>) ms"
    using threads_atD(9) [OF r] by (intro thread_moves [OF r ok, where cp = "(c, ph')"]) auto
  moreover have "a\<lparr>b_pos := (b_pos a)[i := Some p]\<rparr> = a" using nth_same [OF p(2)] by simp
  ultimately show ?thesis by simp
qed

section \<open>The drop check\<close>

lemma coming_allocated:
  assumes r: "threads_at ids v g a ms" and "n \<in> set (ms @ map fst (coming v g))"
  shows "n < node_count (lk_store g)"
proof -
  note t = threads_atD [OF r]
  show ?thesis
    using assms(2) lin_allocated [OF t(2,6), of n] lk_okD(3) [OF t(1)]
    by (auto simp: coming_def push_ok_def split: option.splits)
qed

lemma coming_distinct:
  assumes "threads_at ids v g a ms"
  shows "distinct (q_root (lk_queue g) # ms @ map fst (coming v g))"
  using lin_distinct [OF threads_atD(6) [OF assms]] threads_atD(8) [OF assms]
  by (auto simp: coming_def split: option.splits)

text \<open>The check of one consumer takes nothing from the others, and nothing it has not passed itself.\<close>

lemma passed_others:
  assumes r: "threads_at ids v g a ms" and c: "mc_current c < node_count (lk_store g)" "mc_id c \<noteq> ids ! j"
    and j: "thread_slot (lk_store g) q ms (coming v g) vs (ids ! j) j cp po"
  shows "thread_slot (passed c (lk_store g)) q ms (coming v g) vs (ids ! j) j cp po"
proof -
  note so = threads_atD(2) [OF r]
  have "due (passed c (lk_store g)) (ms @ map fst (coming v g)) ws (ids ! j) j p"
    if d: "due (lk_store g) (ms @ map fst (coming v g)) ws (ids ! j) j p" "registered (lk_store g) (ids ! j) j" for ws p
    unfolding due_def
  proof (intro allI impI)
    fix k assume k: "p \<le> k \<and> k < length (ms @ map fst (coming v g))"
    then have "(ms @ map fst (coming v g)) ! k < node_count (lk_store g)"
      using coming_allocated [OF r] nth_mem by blast
    from passed_keeps_other [OF so this c, of j] d k
    show "payloads (passed c (lk_store g)) (cell (passed c (lk_store g)) ((ms @ map fst (coming v g)) ! k)) = Some (ws ! k) \<and>
       (autodrop (passed c (lk_store g)) \<longrightarrow>
          waits_for (ids ! j) j (passed c (lk_store g)) ((ms @ map fst (coming v g)) ! k))"
      by (simp add: due_def registered_def)
  qed
  with j show ?thesis by (auto simp: thread_slot_def registered_def split: option.splits)
qed

lemma passed_own:
  assumes r: "threads_at ids v g a ms" and c: "mc_current c = (q_root (lk_queue g) # ms) ! p" "p \<le> length ms"
    and d: "due (lk_store g) (ms @ map fst (coming v g)) ws cid t p"
  shows "due (passed c (lk_store g)) (ms @ map fst (coming v g)) ws cid t p"
  unfolding due_def
proof (intro allI impI)
  let ?ns = "ms @ map fst (coming v g)" and ?r = "q_root (lk_queue g)"
  note so = threads_atD(2) [OF r]
  fix k assume k: "p \<le> k \<and> k < length ?ns"
  have "(?r # ?ns) ! Suc k \<noteq> (?r # ?ns) ! p"
    using coming_distinct [OF r] k c(2) nth_eq_iff_index_eq [of "?r # ?ns" "Suc k" p] by simp
  moreover have "(?r # ?ns) ! p = mc_current c" using c nth_append [of "?r # ms" "map fst (coming v g)" p] by simp
  ultimately have ne: "?ns ! k \<noteq> mc_current c" by simp
  have "mc_current c \<in> set (?r # ms)" using c by (metis le_imp_less_Suc length_Cons nth_mem)
  then have "mc_current c < node_count (lk_store g)" by (rule lin_allocated [OF so threads_atD(6) [OF r]])
  moreover have "?ns ! k < node_count (lk_store g)" using coming_allocated [OF r] k nth_mem by blast
  ultimately show "payloads (passed c (lk_store g)) (cell (passed c (lk_store g)) (?ns ! k)) = Some (ws ! k) \<and>
      (autodrop (passed c (lk_store g)) \<longrightarrow> waits_for cid t (passed c (lk_store g)) (?ns ! k))"
    using passed_keeps_ahead [OF so _ _ ne] d k by (simp add: due_def)
qed

lemma check_moves:
  assumes r: "threads_at ids v g a ms" and i: "lk_at g i = Some (c, Checking)"
    and ok: "lk_ok (set_consumer i c Guarding (g\<lparr>lk_store := passed c (lk_store g)\<rparr>))"
  shows "threads_at ids v (set_consumer i c Guarding (g\<lparr>lk_store := passed c (lk_store g)\<rparr>)) a ms"
proof -
  note t = threads_atD [OF r]
  obtain p where p: "i < length ids" "b_pos a ! i = Some p" "p \<le> length ms" "mc_id c = ids ! i"
      "mc_current c = (q_root (lk_queue g) # ms) ! p" "autodrop (lk_store g) \<Longrightarrow> mc_tracker c = i"
    and d: "due (lk_store g) (ms @ map fst (coming v g)) (b_log a @ map snd (coming v g)) (ids ! i) i p"
      "registered (lk_store g) (ids ! i) i"
    by (rule slot_position [OF r i]) auto
  have cur: "mc_current c < node_count (lk_store g)"
    using lk_okD(5) [OF t(1) lk_at_set [OF i]] by (simp add: consumer_ok_def)
  have "threads_at ids v (set_consumer i c Guarding (g\<lparr>lk_store := passed c (lk_store g)\<rparr>))
      (a\<lparr>b_pos := (b_pos a)[i := Some p]\<rparr>) ms"
  proof (rule thread_moves [OF r ok, where cp = "(c, Guarding)"])
    fix j assume j: "j < length ids" "j \<noteq> i"
    then have "mc_id c \<noteq> ids ! j" using t(3) p(1,4) by (simp add: nth_eq_iff_index_eq)
    from passed_others [OF r cur this t(9) [OF j(1)]]
    show "thread_slot (lk_store (set_consumer i c Guarding (g\<lparr>lk_store := passed c (lk_store g)\<rparr>)))
       (lk_queue g) ms (coming v g) (b_log a) (ids ! j) j (lk_consumers g ! j) (b_pos a ! j)" by simp
  qed (use p d passed_own [OF r p(5,3)] in \<open>auto simp: thread_slot_def registered_def\<close>)
  moreover have "a\<lparr>b_pos := (b_pos a)[i := Some p]\<rparr> = a" using nth_same [OF p(2)] by simp
  ultimately show ?thesis by simp
qed


section \<open>The steps\<close>

text \<open>What a step does, next to what the log does for the call it completes.\<close>

definition step_agrees :: "u64 list \<Rightarrow> byte list \<Rightarrow> lk_event \<Rightarrow> lmq_locks \<Rightarrow> bcast \<Rightarrow> bool" where
  "step_agrees ids v e g' a \<longleftrightarrow>
     visible [e] = concat (map outcome (fst (run_total bcast_step (completes v e) a))) \<and>
     threads_rel ids v g' (snd (run_total bcast_step (completes v e) a))"

lemma silent_agrees: "threads_at ids v g' a ms \<Longrightarrow> step_agrees ids v LkSilent g' a"
  by (auto simp: step_agrees_def threads_rel_def visible_def)

lemma prune_agrees:
  assumes r: "threads_at ids v g a ms" and i: "lk_at g i = Some (c, Pruning cl m)"
    and st: "next_turn i c (Pruning cl m) g = Some (e, g')"
  shows "step_agrees ids v e g' a"
proof -
  let ?s = "lk_store g" and ?q = "lk_queue g"
  note t = threads_atD [OF r]
  obtain p where p: "position a i = Some p" "i < length ids" "b_pos a ! i = Some p" "p \<le> length ms" "mc_id c = ids ! i"
      "mc_current c = (q_root ?q # ms) ! p" "autodrop ?s \<Longrightarrow> mc_tracker c = i"
    and d: "due ?s (ms @ map fst (coming v g)) (b_log a @ map snd (coming v g)) (ids ! i) i p" "registered ?s (ids ! i) i"
    by (rule slot_position [OF r i]) auto
  let ?n = "if p < length ms then ms ! p else q_tail ?q"
  have cur: "nxt ?s (mc_current c) = Some ?n" using lin_suffix(1) [OF t(6) p(4)] p(6) by simp
  then have m: "m = Some ?n" using lk_okD(6) [OF t(1) lk_at_set [OF i]] by (simp add: phase_ok_def)
  have e: "prune_turn i c cl ?n g = (e, g')" using st m by (auto simp: next_turn_def split: if_splits)
  have ok: "lk_ok g'" using next_turn_lk_ok [OF t(1) i st] by simp
  note turn = prune_turn_eq [OF cur next_other [OF t(2) cur], of i cl]
  have same: "a\<lparr>b_pos := (b_pos a)[i := Some p]\<rparr> = a" using nth_same [OF p(3)] by simp
  show ?thesis
  proof (cases "p < length ms")
    case False
    then have "nxt ?s ?n = None" using t(6) by (simp add: lin_def)
    with turn e have eq: "e = LkNothing i" "g' = set_consumer i c Resting g" by auto
    moreover have "threads_at ids v g' a ms"
      unfolding eq by (rule phase_moves [OF r i]) (use ok eq in auto)
    ultimately show ?thesis
      using p(1,4) False t(7) by (auto simp: step_agrees_def threads_rel_def visible_def)
  next
    case True
    then have "nxt ?s ?n \<noteq> None" using lin_suffix(1) [OF t(6), of "Suc p"] by simp
    moreover have val: "payloads ?s (payload_ref (nodes ?s ?n)) = Some (b_log a ! p)"
      using d(1) True t(7) by (auto simp: due_def cell_def nth_append)
    then have "\<not> is_claimed ?s (nodes ?s ?n)" by (simp add: is_claimed_def)
    ultimately have eq: "e = LkDelivered i (Some (b_log a ! p))"
      "g' = (set_consumer i (c\<lparr>mc_current := ?n\<rparr>) Resting g)\<lparr>lk_held := lk_held g @ [nodes ?s ?n]\<rparr>"
      using turn e val by (auto simp: read_message_def)
    have "threads_at ids v g' (a\<lparr>b_pos := (b_pos a)[i := Some (Suc p)]\<rparr>) ms"
      using p d t(9) True
      by (intro thread_moves [OF r ok, where cp = "(c\<lparr>mc_current := ?n\<rparr>, Resting)"])
        (auto simp: eq(2) thread_slot_def due_def)
    then show ?thesis
      using p(1) True t(7) by (auto simp: eq(1) step_agrees_def threads_rel_def visible_def)
  qed
qed

lemma next_agrees:
  assumes r: "threads_at ids v g a ms" and i: "lk_at g i = Some (c, ph)" and st: "next_turn i c ph g = Some (e, g')"
  shows "step_agrees ids v e g' a"
proof -
  have ok: "lk_ok g'" using next_turn_lk_ok [OF threads_atD(1) [OF r] i st] by simp
  show ?thesis
  proof (cases ph)
    case Locking
    with st ok i show ?thesis
      by (auto simp: next_turn_def split: if_splits intro!: silent_agrees [OF phase_moves [OF r]])
  next
    case Checking
    with st ok i check_moves [OF r] show ?thesis
      by (auto simp: next_turn_def passed_def [symmetric] Let_def split: if_splits intro!: silent_agrees)
  next
    case Guarding
    with st ok i show ?thesis
      by (auto simp: next_turn_def Let_def split: if_splits intro!: silent_agrees [OF phase_moves [OF r]])
  next
    case Pruning
    with prune_agrees [OF r] i st show ?thesis by blast
  qed (use st in \<open>auto simp: next_turn_def\<close>)
qed


section \<open>Dropping a consumer\<close>

lemma slot_live:
  "j \<noteq> i \<Longrightarrow> thread_slot s q ms new vs cid j cp po \<Longrightarrow>
     thread_slot (s\<lparr>live := (live s)(i := False)\<rparr>) q ms new vs cid j cp po"
  by (auto simp: thread_slot_def due_def registered_def waits_for_def cell_def split: option.splits)

lemma slot_active:
  "cid' \<noteq> cid \<Longrightarrow> thread_slot s q ms new vs cid j cp po \<Longrightarrow>
     thread_slot (s\<lparr>active := hm_remove cid' (active s)\<rparr>) q ms new vs cid j cp po"
  by (auto simp: thread_slot_def due_def registered_def waits_for_def cell_def split: option.splits)

lemma drop_begins_agrees:
  assumes r: "threads_at ids v g a ms" and i: "lk_at g i = Some (c, Resting)" and st: "drop_begins i c g = (e, g')"
  shows "step_agrees ids v e g' a"
proof -
  let ?s = "lk_store g"
  note t = threads_atD [OF r]
  obtain p where p: "position a i = Some p" "i < length ids" "b_pos a ! i = Some p" "p \<le> length ms" "mc_id c = ids ! i"
      "mc_current c = (q_root (lk_queue g) # ms) ! p" "autodrop ?s \<Longrightarrow> mc_tracker c = i"
    by (rule slot_position [OF r i]) auto
  have ok: "lk_ok g'" using drop_begins_lk_ok [OF t(1) i] st by simp
  show ?thesis
  proof (cases "autodrop ?s")
    case False
    with st have eq: "e = LkDropped i" "g' = set_consumer i c Gone g" by (auto simp: drop_begins_def)
    have "threads_at ids v g' (a\<lparr>b_pos := (b_pos a)[i := None]\<rparr>) ms"
      using t(9) by (intro thread_moves [OF r ok, where cp = "(c, Gone)"]) (auto simp: eq(2) thread_slot_def)
    then show ?thesis using p(1) by (auto simp: eq(1) step_agrees_def threads_rel_def visible_def)
  next
    case True
    let ?s' = "?s\<lparr>active := hm_remove (mc_id c) (active ?s)\<rparr>"
    from True st have eq: "e = LkSilent" "g' = set_consumer i c Leaving (g\<lparr>lk_store := ?s'\<rparr>)"
      by (auto simp: drop_begins_def Let_def)
    have others: "thread_slot ?s' (lk_queue g) ms (coming v g) (b_log a) (ids ! j) j (lk_consumers g ! j) (b_pos a ! j)"
      if "j < length ids" "j \<noteq> i" for j
      using that t(3) p(2,5) by (intro slot_active t(9)) (auto simp: nth_eq_iff_index_eq)
    have "threads_at ids v g' (a\<lparr>b_pos := (b_pos a)[i := Some p]\<rparr>) ms"
      using p True others
      by (intro thread_moves [OF r ok, where cp = "(c, Leaving)"]) (auto simp: eq(2) thread_slot_def)
    then show ?thesis using nth_same [OF p(3)] by (auto simp: eq(1) intro: silent_agrees)
  qed
qed

lemma drop_ends_agrees:
  assumes r: "threads_at ids v g a ms" and i: "lk_at g i = Some (c, Leaving)" and st: "drop_ends i c g = (e, g')"
  shows "step_agrees ids v e g' a"
proof -
  let ?s = "lk_store g"
  note t = threads_atD [OF r]
  obtain p where p: "position a i = Some p" "i < length ids" "b_pos a ! i = Some p" "mc_id c = ids ! i"
      "autodrop ?s" "mc_tracker c = i"
    by (rule slot_position [OF r i]) auto
  have ok: "lk_ok g'" using drop_ends_lk_ok [OF t(1) i] st by simp
  have cur: "mc_current c < node_count ?s"
    using lk_okD(5) [OF t(1) lk_at_set [OF i]] by (simp add: consumer_ok_def)
  let ?s' = "passed c ?s"
  have eq: "e = LkDropped i" "g' = set_consumer i c Gone (g\<lparr>lk_store := ?s'\<lparr>live := (live ?s')(i := False)\<rparr>\<rparr>)"
    using st p(5,6) by (auto simp: drop_ends_def passed_def Let_def)
  have others: "thread_slot (?s'\<lparr>live := (live ?s')(i := False)\<rparr>) (lk_queue g) ms (coming v g) (b_log a) (ids ! j) j
      (lk_consumers g ! j) (b_pos a ! j)" if "j < length ids" "j \<noteq> i" for j
  proof -
    have "mc_id c \<noteq> ids ! j" using that t(3) p(2,4) by (simp add: nth_eq_iff_index_eq)
    from slot_live [OF that(2) passed_others [OF r cur this t(9) [OF that(1)]]] show ?thesis by simp
  qed
  have nx: "nxt (lk_store g') = nxt ?s" by (simp add: eq(2))
  have "threads_at ids v g' (a\<lparr>b_pos := (b_pos a)[i := None]\<rparr>) ms"
    using others by (intro thread_moves [OF r ok _ _ nx, where cp = "(c, Gone)"]) (auto simp: eq(2) thread_slot_def)
  then show ?thesis using p(1) by (auto simp: eq(1) step_agrees_def threads_rel_def visible_def)
qed

section \<open>\<open>push\<close>\<close>

lemma push_begins_agrees:
  assumes r: "threads_at ids v g a ms" and free: "lk_push g = None"
  shows "threads_at ids w (push_begins w g) a ms"
proof -
  let ?s = "lk_store g" and ?q = "lk_queue g"
  let ?n = "node_count ?s" and ?s' = "with_node w (q_tail ?q) ?s"
  note t = threads_atD [OF r]
  have lt: "x < ?n" if "x \<in> set (q_root ?q # ms)" for x using lin_allocated [OF t(2,6) that] .
  have tail: "q_tail ?q < ?n" using lk_okD(2) [OF t(1)] by (simp add: queue_ok_def)
  have "nxt ?s' x = nxt ?s x" if "x \<in> set (q_root ?q # ms)" for x using lt [OF that] by auto
  then have "chain (nxt ?s') (q_root ?q) (q_root ?q # ms) (q_tail ?q)"
    using t(6) chain_cong [of "q_root ?q # ms" "nxt ?s'" "nxt ?s"] unfolding lin_def by blast
  then have l: "lin ?s' ?q ms" using t(6) tail by (auto simp: lin_def)
  have cell: "cell ?s' x = cell ?s x" "cell ?s x < payload_count ?s" "waits_for cid i ?s' x = waits_for cid i ?s x"
    if "x \<in> set ms" for x cid i
    using lt [of x] that store_okD(4) [OF t(2), of x] by (auto simp: cell_def waits_for_def with_node_def)
  have ad: "autodrop ?s' = autodrop ?s" by (simp add: with_node_def)
  have new: "payloads ?s' (cell ?s' ?n) = Some w" "autodrop ?s \<Longrightarrow> registered ?s cid i \<Longrightarrow> waits_for cid i ?s' ?n" for cid i
    by (auto simp: cell_def waits_for_def with_node_def registered_def)
  have slot: "thread_slot ?s' ?q ms [(?n, w)] (b_log a) (ids ! i) i (lk_consumers g ! i) (b_pos a ! i)"
    if "i < length ids" for i
  proof -
    have "due ?s' (ms @ [?n]) (b_log a @ [w]) cid i p"
      if "due ?s ms (b_log a) cid i p" "registered ?s cid i" for cid p
      unfolding due_def
    proof (intro allI impI)
      fix k assume k: "p \<le> k \<and> k < length (ms @ [?n])"
      show "payloads ?s' (cell ?s' ((ms @ [?n]) ! k)) = Some ((b_log a @ [w]) ! k) \<and>
          (autodrop ?s' \<longrightarrow> waits_for cid i ?s' ((ms @ [?n]) ! k))"
      proof (cases "k < length ms")
        case True
        then have "ms ! k \<in> set ms" by simp
        with that(1) k True cell [of "ms ! k"] t(7) ad show ?thesis by (auto simp: due_def nth_append)
      next
        case False
        with k have "k = length ms" by simp
        then have "(ms @ [?n]) ! k = ?n" "(b_log a @ [w]) ! k = w" using t(7) by (simp_all add: nth_append)
        with that(2) new ad show ?thesis by metis
      qed
    qed
    moreover have "registered ?s' = registered ?s"
      by (auto simp: registered_def with_node_def fun_eq_iff)
    ultimately show ?thesis
      using t(9) [OF that] free ad by (auto simp: thread_slot_def coming_def split: option.splits)
  qed
  have fields: "lk_store (push_begins w g) = ?s'" "lk_queue (push_begins w g) = ?q"
      "lk_consumers (push_begins w g) = lk_consumers g" "lk_push (push_begins w g) = Some (?n, q_last ?q)"
      "coming w (push_begins w g) = [(?n, w)]"
    by (simp_all add: push_begins_eq coming_def)
  have "?n \<notin> set (q_root ?q # ms)" using lt [of ?n] by blast
  then show ?thesis
    using push_begins_lk_ok [OF t(1) free] t(3,4,5,7) l slot unfolding threads_at_def fields by blast
qed

lemma link_lin:
  assumes l: "lin s q ms" and n: "nxt s n = Some (q_tail q)" "n \<notin> set (q_root q # ms)" "n \<noteq> q_tail q"
    and f: "nxt s' = (nxt s)(q_last q := Some n)"
  shows "lin s' (q\<lparr>q_last := n\<rparr>) (ms @ [n])"
proof -
  let ?as = "butlast (q_root q # ms)"
  have as: "q_root q # ms = ?as @ [q_last q]"
    using l unfolding lin_def by (metis append_butlast_last_id list.distinct(1))
  have notin: "q_last q \<notin> set ?as" using lin_distinct [OF l] as by (metis distinct_append disjoint_iff list.set_intros(1))
  have tail: "nxt s (q_tail q) = None" using l by (simp add: lin_def)
  have "chain (nxt s) (q_root q) (?as @ [q_last q]) (q_tail q)" using l as unfolding lin_def by metis
  then have "chain (nxt s) (q_root q) ?as (q_last q)" and lt: "nxt s (q_last q) = Some (q_tail q)"
    by (simp_all only: chain_snoc)
  with notin have "chain (nxt s') (q_root q) ?as (q_last q)" by (simp add: f)
  moreover have "n \<noteq> q_last q" using n(2) as by (metis in_set_conv_decomp)
  ultimately have "chain (nxt s') (q_root q) ((?as @ [q_last q]) @ [n]) (q_tail q)"
    using n(1) by (simp only: chain_append) (auto simp: f)
  then have "chain (nxt s') (q_root q) (q_root q # ms @ [n]) (q_tail q)" using as by (metis append_Cons)
  moreover have "nxt s' (q_tail q) = None" using tail lt by (auto simp: f)
  ultimately show ?thesis by (simp add: lin_def)
qed

lemma push_ends_agrees:
  assumes r: "threads_at ids v g a ms" and p: "lk_push g = Some (n, x)" and st: "push_at n x g = (e, g')"
    and free: "\<not> node_locked g x"
  shows "step_agrees ids v e g' a"
proof -
  let ?s = "lk_store g" and ?q = "lk_queue g"
  note t = threads_atD [OF r]
  from t(8) [OF p] have x: "x = q_last ?q" and n: "n \<notin> set (q_root ?q # ms)" by auto
  have last: "nxt ?s x = Some (q_tail ?q)"
    using lin_push_point(1) [OF t(2,6)] lin_push_point(2) [OF t(2,6)] by (simp add: x)
  have push: "nxt ?s n = Some (q_tail ?q)" using lk_okD(3) [OF t(1)] p by (simp add: push_ok_def)
  have tail: "n \<noteq> q_tail ?q" using push t(6) by (auto simp: lin_def)
  let ?s' = "set_next x (Some n) ?s"
  let ?t = "?s'\<lparr>notified := (notified ?s')(q_notify ?q := Suc (notified ?s' (q_notify ?q)))\<rparr>"
  have eq: "e = LkPushed" "g' = g\<lparr>lk_queue := ?q\<lparr>q_last := n\<rparr>, lk_push := None, lk_store := ?t\<rparr>"
    using st last by (auto simp: push_at_def Let_def)
  have nx: "nxt ?t = (nxt ?s)(x := Some n)" by (auto simp: set_next_def nxt_def fun_eq_iff)
  have l: "lin ?t (?q\<lparr>q_last := n\<rparr>) (ms @ [n])" using link_lin [OF t(6) push n tail] nx x by simp
  have same: "cell ?t = cell ?s" "payloads ?t = payloads ?s" "waits_for cid i ?t = waits_for cid i ?s"
      "autodrop ?t = autodrop ?s" "registered ?t = registered ?s" for cid i
    by (auto simp: cell_def set_next_def waits_for_def registered_def fun_eq_iff)
  have "thread_slot ?t (?q\<lparr>q_last := n\<rparr>) (ms @ [n]) [] (b_log a @ [v]) (ids ! i) i (lk_consumers g ! i) (b_pos a ! i)"
    if "i < length ids" for i
  proof -
    have "(q_root ?q # ms @ [n]) ! k = (q_root ?q # ms) ! k" if "k \<le> length ms" for k
      using that nth_append [of "q_root ?q # ms" "[n]" k] by simp
    then show ?thesis
      using t(9) [OF that] p by (auto simp: thread_slot_def coming_def due_def same split: option.splits)
  qed
  moreover have "lk_ok g'" using push_at_lk_ok [OF t(1) p free] st by simp
  ultimately have "threads_at ids v g' (a\<lparr>b_log := b_log a @ [v]\<rparr>) (ms @ [n])"
    using t l by (auto simp: threads_at_def eq(2) coming_def)
  then show ?thesis by (auto simp: eq(1) step_agrees_def threads_rel_def visible_def)
qed


section \<open>Runs\<close>

lemma run_total_append:
  "fst (run_total step (xs @ ys) a) = fst (run_total step xs a) @ fst (run_total step ys (snd (run_total step xs a)))"
  "snd (run_total step (xs @ ys) a) = snd (run_total step ys (snd (run_total step xs a)))"
  by (induction xs arbitrary: a) (simp_all add: run_total_Cons del: run_total.simps(2))

lemma thread_step_agrees:
  assumes r: "threads_rel ids v g a" and x: "thread_relays x" and st: "lk_step x g = Some (e, g')"
  shows "step_agrees ids (pushing_now v x) e g' a"
proof -
  obtain ms where at: "threads_at ids v g a ms" using r by (auto simp: threads_rel_def)
  have ok: "lk_ok g'" using lk_step_ok [OF threads_atD(1) [OF at] st] by simp
  show ?thesis
  proof (cases x)
    case (CallPush w)
    with st push_begins_agrees [OF at, of w] show ?thesis by (auto split: if_splits intro: silent_agrees)
  next
    case StepPush
    with st push_ends_agrees [OF at] show ?thesis by (fastforce split: option.splits if_splits)
  next
    case (CallNext i)
    then obtain c where "lk_at g i = Some (c, Resting)" "e = LkSilent" "g' = set_consumer i c Locking g"
      using st by (auto split: option.splits phase.splits)
    with CallNext phase_moves [OF at, of i c Resting Locking] ok show ?thesis by (simp add: silent_agrees)
  next
    case (StepNext i)
    with st next_agrees [OF at] show ?thesis by (auto split: option.splits)
  next
    case (CallDrop i)
    then obtain c where "lk_at g i = Some (c, Resting)" "drop_begins i c g = (e, g')"
      using st by (auto split: option.splits phase.splits)
    with CallDrop drop_begins_agrees [OF at] show ?thesis by simp
  next
    case (StepDrop i)
    then obtain c where "lk_at g i = Some (c, Leaving)" "drop_ends i c g = (e, g')"
      using st by (auto split: option.splits phase.splits if_splits)
    with StepDrop drop_ends_agrees [OF at] show ?thesis by simp
  qed (use x in \<open>auto simp: thread_relays_def\<close>)
qed

lemma threads_run:
  "threads_rel ids v g a \<Longrightarrow> list_all thread_relays xs \<Longrightarrow> run_events lk_step xs g = Some (es, g') \<Longrightarrow>
     visible es = concat (map outcome (fst (run_total bcast_step (completed v xs es) a))) \<and>
     (\<exists>w. threads_rel ids w g' (snd (run_total bcast_step (completed v xs es) a)))"
proof (induction xs arbitrary: v g a es)
  case Nil
  then show ?case by (auto simp: visible_def)
next
  case (Cons x xs)
  then obtain e g1 fs where st: "lk_step x g = Some (e, g1)" and rest: "run_events lk_step xs g1 = Some (fs, g')"
    and es: "es = e # fs" by (auto simp del: lk_step.simps split: option.splits)
  have same: "completes (pushing_now v x) e = completes v e"
    using st by (cases x) (auto split: if_splits)
  have "step_agrees ids (pushing_now v x) e g1 a"
    using thread_step_agrees [OF Cons.prems(1) _ st] Cons.prems(2) by simp
  then have e: "visible [e] = concat (map outcome (fst (run_total bcast_step (completes v e) a)))"
    and r1: "threads_rel ids (pushing_now v x) g1 (snd (run_total bcast_step (completes v e) a))"
    by (simp_all add: step_agrees_def same)
  have "visible es = visible [e] @ visible fs" by (simp add: es visible_def)
  with Cons.IH [OF r1 _ rest] Cons.prems(2) e show ?case
    by (simp add: es run_total_append)
qed

section \<open>The start\<close>

lemma threads_new:
  assumes "lk_push g = None" and "atomic_view g = y" and "list_all (\<lambda>(c, ph). ph = Resting) (lk_consumers g)"
    and "sys_step (NewConsumer cid) y = Some (e, y')"
  shows "\<exists>g'. lk_step (CallNew cid) g = Some (LkCreated, g') \<and> lk_push g' = None \<and> atomic_view g' = y' \<and>
    list_all (\<lambda>(c, ph). ph = Resting) (lk_consumers g')"
proof -
  obtain c s where c: "create_consumer cid (lk_queue g) (lk_store g) = (c, s)" by force
  with assms show ?thesis by (auto simp: atomic_view_def)
qed

lemma threads_created:
  assumes "run_events sys_step (new_consumers ids) y = Some (es, y')"
    and "lk_push g = None" and "atomic_view g = y" and "list_all (\<lambda>(c, ph). ph = Resting) (lk_consumers g)"
  shows "\<exists>g'. run_events lk_step (map CallNew ids) g = Some (replicate (length ids) LkCreated, g') \<and>
    lk_push g' = None \<and> atomic_view g' = y' \<and> list_all (\<lambda>(c, ph). ph = Resting) (lk_consumers g')"
  using assms
proof (induction ids arbitrary: y g es)
  case (Cons cid ids)
  then obtain e y1 fs where "sys_step (NewConsumer cid) y = Some (e, y1)"
    and rest: "run_events sys_step (new_consumers ids) y1 = Some (fs, y')"
    by (auto simp: new_consumers_def simp del: sys_step.simps split: option.splits)
  from threads_new [OF Cons.prems(2-4) this(1)] obtain g1 where
    g1: "lk_step (CallNew cid) g = Some (LkCreated, g1)" "lk_push g1 = None" "atomic_view g1 = y1"
      "list_all (\<lambda>(c, ph). ph = Resting) (lk_consumers g1)" by blast
  from Cons.IH [OF rest g1(2-4)] g1(1) show ?case by (auto simp del: lk_step.simps)
qed (simp add: new_consumers_def)

lemma threads_rel_start:
  assumes r: "bcast_rel ids (atomic_view g) a" and free: "lk_push g = None" and ok: "lk_ok g"
    and rest: "list_all (\<lambda>(c, ph). ph = Resting) (lk_consumers g)"
  shows "threads_rel ids v g a"
proof -
  obtain ms where l: "lin (lk_store g) (lk_queue g) ms" and len: "length ms = length (b_log a)"
    and slots: "\<forall>i < length ids. bcast_slot (lk_store g) (lk_queue g) ms (b_log a) (ids ! i) i
      (sy_consumers (atomic_view g) ! i) (b_pos a ! i)"
    using r by (rule bcast_relE) (auto simp: atomic_view_def)
  have lens: "distinct ids" "length (b_pos a) = length ids" "length (lk_consumers g) = length ids"
    using r by (auto simp: bcast_rel_def atomic_view_def)
  have "thread_slot (lk_store g) (lk_queue g) ms [] (b_log a) (ids ! i) i (lk_consumers g ! i) (b_pos a ! i)"
    if i: "i < length ids" for i
  proof -
    have "snd (lk_consumers g ! i) = Resting" using rest i lens(3) by (auto simp: list_all_length split_def)
    then obtain c where c: "lk_consumers g ! i = (c, Resting)" by (metis prod.collapse)
    then have "sy_consumers (atomic_view g) ! i = Some c" using i lens(3) by (simp add: atomic_view_def)
    with slots i c show ?thesis
      by (auto simp: thread_slot_def bcast_slot_def bcast_consumer_def split: option.splits)
  qed
  with l len lens ok free show ?thesis by (auto simp: threads_rel_def threads_at_def coming_def)
qed

lemma threads_start:
  assumes "distinct ids" and "run_events lk_step (map CallNew ids) (lk_start ad) = Some (es, g)"
  shows "es = replicate (length ids) LkCreated \<and> lk_push g = None \<and> threads_rel ids v g (bcast_init (length ids))"
proof -
  obtain y where y: "run_events sys_step (new_consumers ids) (sys_init ad) = Some (replicate (length ids) Created, y)"
    "bcast_rel ids y (bcast_init (length ids))" using bcast_start [OF assms(1)] by blast
  have start: "lk_push (lk_start ad) = None" "atomic_view (lk_start ad) = sys_init ad" "lk_consumers (lk_start ad) = []"
    by (simp_all add: lk_start_def atomic_view_def sys_init_def split_def Let_def)
  from threads_created [OF y(1) start(1,2)] start(3) assms(2) have
    g: "es = replicate (length ids) LkCreated" "lk_push g = None" "atomic_view g = y"
      "list_all (\<lambda>(c, ph). ph = Resting) (lk_consumers g)" by auto
  moreover have "lk_ok g" using lk.run_keeps [OF lk_ok_start assms(2)] by simp
  ultimately show ?thesis using threads_rel_start y(2) by blast
qed

section \<open>What the consumers are given\<close>

definition given :: "nat \<Rightarrow> lk_event list \<Rightarrow> byte list option list" where
  "given i es = concat (map (\<lambda>e. case e of LkDelivered j w \<Rightarrow> if j = i then [w] else [] | _ \<Rightarrow> []) es)"

definition push_calls :: "lk_op list \<Rightarrow> byte list list" where
  "push_calls xs = concat (map (\<lambda>x. case x of CallPush v \<Rightarrow> [v] | _ \<Rightarrow> []) xs)"


lemma given_append: "given i (es @ fs) = given i es @ given i fs"
  by (simp add: given_def)

lemma given_visible: "given i (visible es) = given i es"
  by (induction es) (auto simp: given_def visible_def)

text \<open>A dropped consumer is given nothing.\<close>

lemma bcast_given_none:
  "position a i = None \<Longrightarrow> given i (concat (map outcome (fst (run_total bcast_step ops a)))) = []"
proof (induction ops arbitrary: a)
  case (Cons x ops)
  have "given i (outcome (fst (bcast_step x a))) = [] \<and> position (snd (bcast_step x a)) i = None"
    using Cons.prems by (cases x) (auto simp: position_def given_def nth_list_update split: option.splits if_splits)
  with Cons.IH [of "snd (bcast_step x a)"] show ?case
    by (simp add: run_total_Cons given_append del: run_total.simps(2))
qed (simp add: given_def)

text \<open>What a step gives consumer \<open>i\<close> takes it along the log.\<close>

lemma bcast_step_given:
  assumes "list_all relayed [x]" and "position a i = Some p" and "p \<le> length (b_log a)"
  shows "b_log (snd (bcast_step x a)) = b_log a @ pushes [x]"
    and "position (snd (bcast_step x a)) i = Some p' \<Longrightarrow> p' \<le> length (b_log (snd (bcast_step x a))) \<and>
      map Some (take p (b_log a)) @ given i (outcome (fst (bcast_step x a))) =
        map Some (take p' (b_log (snd (bcast_step x a))))"
    and "position (snd (bcast_step x a)) i = None \<Longrightarrow> given i (outcome (fst (bcast_step x a))) = []"
  using assms
  by (cases x; auto simp: relayed_def position_def given_def nth_list_update take_Suc_conv_app_nth
      split: option.splits if_splits)+

lemma bcast_given:
  "list_all relayed ops \<Longrightarrow> position a i = Some p \<Longrightarrow> p \<le> length (b_log a) \<Longrightarrow>
     prefix (map Some (take p (b_log a)) @ given i (concat (map outcome (fst (run_total bcast_step ops a)))))
       (map Some (b_log a @ pushes ops))"
proof (induction ops arbitrary: a p)
  case Nil
  have "prefix (map Some (take p (b_log a))) (map Some (b_log a))" by (intro map_mono_prefix take_is_prefix)
  then show ?case by (simp add: given_def)
next
  case (Cons x ops)
  let ?a = "snd (bcast_step x a)" and ?e = "fst (bcast_step x a)"
  note st = bcast_step_given [OF _ Cons.prems(2,3), of x]
  have x: "list_all relayed [x]" using Cons.prems(1) by simp
  have log: "b_log ?a @ pushes ops = b_log a @ pushes (x # ops)"
    unfolding st(1) [OF x] by (cases x) auto
  show ?case
  proof (cases "position ?a i")
    case None
    have "prefix (map Some (take p (b_log a))) (map Some (b_log a @ pushes (x # ops)))"
      by (intro map_mono_prefix prefix_prefix take_is_prefix)
    with None st(3) [OF x] bcast_given_none [OF None, of ops] show ?thesis
      by (simp add: run_total_Cons given_append del: run_total.simps(2))
  next
    case (Some p')
    note st' = st(2) [OF x Some]
    from Cons.IH [OF _ Some] Cons.prems(1) st' show ?thesis
      by (simp add: run_total_Cons given_append log flip: append_assoc del: run_total.simps(2) bcast_step.simps)
  qed
qed

text \<open>Only what was to be pushed is pushed, in that order.\<close>

lemma next_turn_no_push:
  "next_turn i c ph g = Some (e, g') \<Longrightarrow> pushes (completes v e) = [] \<and> lk_push g' = lk_push g"
  by (auto simp: next_turn_def prune_turn_def Let_def split: phase.splits option.splits if_splits)

lemma push_step_effect:
  assumes "lk_step x g = Some (e, g')"
  shows "pushes (completes (pushing_now v x) e) @ (if lk_push g' = None then [] else [pushing_now v x]) =
    (if lk_push g = None then [] else [v]) @ push_calls [x]"
  using assms next_turn_no_push
  by (cases x)
    (auto simp: push_calls_def push_begins_eq push_at_def drop_begins_def drop_ends_def Let_def
      split: option.splits if_splits phase.splits prod.splits)

lemma pushes_append: "pushes (xs @ ys) = pushes xs @ pushes ys"
  by (induction xs rule: pushes.induct) auto

lemma completed_pushes:
  "run_events lk_step xs g = Some (es, g') \<Longrightarrow>
     prefix (pushes (completed v xs es)) ((if lk_push g = None then [] else [v]) @ push_calls xs)"
proof (induction xs arbitrary: v g es)
  case Nil
  then show ?case by simp
next
  case (Cons x xs)
  then obtain e g1 fs where st: "lk_step x g = Some (e, g1)" and rest: "run_events lk_step xs g1 = Some (fs, g')"
    and es: "es = e # fs" by (auto simp del: lk_step.simps split: option.splits)
  have same: "completes (pushing_now v x) e = completes v e"
    using st by (cases x) (auto split: if_splits)
  have "push_calls (x # xs) = push_calls [x] @ push_calls xs" by (simp add: push_calls_def)
  then have "(if lk_push g = None then [] else [v]) @ push_calls (x # xs) =
      pushes (completes v e) @ (if lk_push g1 = None then [] else [pushing_now v x]) @ push_calls xs"
    using push_step_effect [OF st, of v] by (simp only: same flip: append_assoc)
  with Cons.IH [OF rest, of "pushing_now v x"] show ?case
    by (simp only: es completed.simps pushes_append same_prefix_prefix)
qed

lemma completes_relayed: "list_all relayed (completed v xs es)"
proof (induction v xs es rule: completed.induct)
  case (1 v x xs e es)
  have "list_all relayed (completes v e)" by (cases e) (simp_all add: relayed_def)
  with 1 show ?case by simp
qed simp_all

text \<open>
  C4: With any number of threads interleaved at every lock, the queue broadcasts. Take any number of
  consumers created before the first message, their identifiers distinct, and threads that push,
  call \<open>try_next\<close> and drop consumers, in any order and under any schedule, but do not claim (nobody
  holds a view of a message). Then every call has taken effect at once when it is completed: the
  results of the calls, in the order in which they are completed, are those of a log with one
  position per consumer, and a \<open>try_next\<close> answers that there is nothing only if its consumer has been
  given all that was pushed. So whatever the schedule, what a consumer has been given is a prefix of
  what was handed to \<open>push\<close>, each message once and in order.
\<close>

theorem threads_broadcast:
  assumes "distinct ids" and "list_all thread_relays xs"
    and "run_events lk_step (map CallNew ids @ xs) (lk_start ad) = Some (es, g)"
  shows "visible es = replicate (length ids) LkCreated @
      concat (map outcome (fst (run_total bcast_step (completed [] xs (drop (length ids) es)) (bcast_init (length ids))))) \<and>
    prefix (given i es) (map Some (push_calls xs))"
proof -
  let ?n = "length ids" and ?a = "bcast_init (length ids)"
  obtain cs g1 fs where cs: "run_events lk_step (map CallNew ids) (lk_start ad) = Some (cs, g1)"
    and fs: "run_events lk_step xs g1 = Some (fs, g)" and es: "es = cs @ fs"
    using assms(3) by (auto simp: run_events_append split: option.splits)
  from threads_start [OF assms(1) cs] have c: "cs = replicate ?n LkCreated" and r: "threads_rel ids [] g1 ?a"
    and push: "lk_push g1 = None" by auto
  have vis: "visible fs = concat (map outcome (fst (run_total bcast_step (completed [] xs fs) ?a)))"
    using threads_run [OF r assms(2) fs] by blast
  have gv: "given i es = given i (visible fs)"
    by (simp only: es given_append given_visible) (simp add: c given_def)
  have "prefix (given i (visible fs)) (map Some (pushes (completed [] xs fs)))"
  proof (cases "position ?a i")
    case None
    from bcast_given_none [OF None] show ?thesis by (simp add: vis)
  next
    case (Some p)
    then have "p = 0" by (auto simp: position_def bcast_init_def split: if_splits)
    with bcast_given [OF completes_relayed Some, of "[]" xs fs] show ?thesis by (simp add: vis bcast_init_def)
  qed
  moreover have "prefix (map Some (pushes (completed [] xs fs))) (map Some (push_calls xs))"
    using completed_pushes [OF fs, of "[]"] push by (intro map_mono_prefix) simp
  ultimately have "prefix (given i es) (map Some (push_calls xs))" unfolding gv by (rule prefix_order.trans)
  moreover have "visible es = replicate ?n LkCreated @ visible fs" by (simp add: es c visible_def)
  ultimately show ?thesis by (simp add: vis es c)
qed

text \<open>
  Two consumers race for the messages of a push that is under way: each is given both, and the one
  that is dropped meanwhile lets go of them.
\<close>

definition race_pushes :: "lk_op list" where
  "race_pushes = [CallPush [7], CallNext 0, StepPush, CallPush [8], StepNext 0, StepNext 0, CallNext 1, StepNext 0,
     StepNext 0, CallNext 0, StepPush, StepNext 1, StepNext 1, StepNext 0, StepNext 1, StepNext 0, StepNext 0, StepNext 0,
     StepNext 1, CallDrop 1, CallNext 0, StepNext 0, StepDrop 1, StepNext 0, StepNext 0, StepNext 0]"

theorem threads_broadcast_witness:
  "\<exists>es g. run_events lk_step (map CallNew [3, 4] @ race_pushes) (lk_start True) = Some (es, g) \<and>
     visible es = [LkCreated, LkCreated, LkPushed, LkDelivered 0 (Some [7]), LkPushed, LkDelivered 0 (Some [8]),
       LkDelivered 1 (Some [7]), LkDropped 1, LkNothing 0] \<and>
     given 0 es = [Some [7], Some [8]] \<and> given 1 es = [Some [7]] \<and>
     (\<forall>i. prefix (given i es) (map Some (push_calls race_pushes)))"
proof -
  let ?vs = "[LkCreated, LkCreated, LkPushed, LkDelivered 0 (Some [7]), LkPushed, LkDelivered 0 (Some [8]),
      LkDelivered 1 (Some [7]), LkDropped 1, LkNothing 0]"
  have "case run_events lk_step (map CallNew [3, 4] @ race_pushes) (lk_start True) of None \<Rightarrow> False
      | Some (es, g) \<Rightarrow> visible es = ?vs"
    by code_simp
  then obtain es g where run: "run_events lk_step (map CallNew [3, 4] @ race_pushes) (lk_start True) = Some (es, g)"
    and vs: "visible es = ?vs"
    by (auto split: option.splits simp del: lk_step.simps)
  have "given 0 es = [Some [7], Some [8]]" "given 1 es = [Some [7]]"
    by (subst given_visible [symmetric], simp add: vs given_def)+
  moreover have "distinct [3 :: u64, 4]" "list_all thread_relays race_pushes"
    by (simp_all add: race_pushes_def thread_relays_def)
  ultimately have "prefix (given i es) (map Some (push_calls race_pushes))" for i
    using threads_broadcast [OF _ _ run] by blast
  with run vs \<open>given 0 es = _\<close> \<open>given 1 es = _\<close> show ?thesis by blast
qed

end
