(* ===== verification/Lmq_Capi.thy ===== *)
theory Lmq_Capi
  imports Lmq_Next Event_Machine
begin

text \<open>
  The C interface of the queue (\<^verbatim>\<open>lmq-capi/src/lmq.rs\<close>) for a client of one thread. A pointer from
  \<open>Box::into_raw\<close> is a number, never used twice; \<open>0\<close> is \<open>NULL\<close>. A call on a pointer that is not a live
  box of the right kind, or against what \<^verbatim>\<open>lmq.h\<close> demands, is \<open>Undefined\<close>. A call that takes a lock the
  client itself holds through a peek view, or that waits for a message nobody can push meanwhile, is
  \<open>NoReturn\<close>: it comes back only if another thread acts.
\<close>

section \<open>Boxes\<close>

type_synonym ptr = nat

text \<open>
  A view is a read guard on a payload cell; the pointer in it names the message it was taken from,
  which \<^verbatim>\<open>lmq.h\<close> requires to outlive it.
\<close>

datatype lmq_box =
    LmqT link_message_queue
  | LmqConsumerT message_consumer
  | LmqMessageT next_message
  | LmqMessageRefT ptr pref
  | LmqVecT "byte list"

record capi =
  c_store :: lmq_store
  boxes :: "lmq_box option list"

datatype 'a ffi = Undefined | NoReturn | Done 'a

definition fetch :: "capi \<Rightarrow> ptr \<Rightarrow> lmq_box option" where
  "fetch g p = (if 0 < p \<and> p \<le> length (boxes g) then boxes g ! (p - 1) else None)"

definition into_raw :: "lmq_box \<Rightarrow> capi \<Rightarrow> ptr \<times> capi" where
  "into_raw b g = (Suc (length (boxes g)), g\<lparr>boxes := boxes g @ [Some b]\<rparr>)"

definition drop_box :: "ptr \<Rightarrow> capi \<Rightarrow> capi" where
  "drop_box p g = g\<lparr>boxes := (boxes g)[p - 1 := None]\<rparr>"

definition write_box :: "ptr \<Rightarrow> lmq_box \<Rightarrow> capi \<Rightarrow> capi" where
  "write_box p b g = g\<lparr>boxes := (boxes g)[p - 1 := Some b]\<rparr>"

text \<open>A read guard on cell \<open>r\<close> is held.\<close>

definition viewed :: "capi \<Rightarrow> pref \<Rightarrow> bool" where
  "viewed g r \<longleftrightarrow>
     list_ex (\<lambda>b. case b of Some (LmqMessageRefT _ r') \<Rightarrow> r' = r | _ \<Rightarrow> False) (boxes g)"

section \<open>The calls\<close>

definition ffi_lmq_new :: "capi \<Rightarrow> (ptr \<times> capi) ffi" where
  "ffi_lmq_new g =
     (case lmq_new (c_store g) of (q, s) \<Rightarrow> Done (into_raw (LmqT q) (g\<lparr>c_store := s\<rparr>)))"

definition ffi_lmq_destroy :: "ptr \<Rightarrow> capi \<Rightarrow> (unit \<times> capi) ffi" where
  "ffi_lmq_destroy queue g =
     (case fetch g queue of
        Some (LmqT _) \<Rightarrow> Done ((), drop_box queue g)
      | _ \<Rightarrow> Undefined)"

text \<open>\<open>data\<close> is \<open>None\<close> for \<open>NULL\<close>, which \<open>from_raw_parts\<close> excludes even when \<open>len\<close> is \<open>0\<close>.\<close>

definition ffi_lmq_push :: "ptr \<Rightarrow> byte list option \<Rightarrow> capi \<Rightarrow> (unit \<times> capi) ffi" where
  "ffi_lmq_push queue data g =
     (case (fetch g queue, data) of
        (Some (LmqT q), Some payload) \<Rightarrow>
          (case lmq_push payload q (c_store g) of
             None \<Rightarrow> NoReturn
           | Some (q, s) \<Rightarrow> Done ((), write_box queue (LmqT q) (g\<lparr>c_store := s\<rparr>)))
      | _ \<Rightarrow> Undefined)"

definition ffi_lmq_consumer_new :: "ptr \<Rightarrow> u64 \<Rightarrow> capi \<Rightarrow> (ptr \<times> capi) ffi" where
  "ffi_lmq_consumer_new queue cid g =
     (case fetch g queue of
        Some (LmqT q) \<Rightarrow>
          (case create_consumer cid q (c_store g) of
             (c, s) \<Rightarrow> Done (into_raw (LmqConsumerT c) (g\<lparr>c_store := s\<rparr>)))
      | _ \<Rightarrow> Undefined)"

text \<open>The destructor takes the payload's write lock only when it drops the message.\<close>

definition autodrop_claims :: "message_consumer \<Rightarrow> lmq_store \<Rightarrow> bool" where
  "autodrop_claims c s \<longleftrightarrow>
     autodrop s \<and>
     (case target_consumers (nodes s (mc_current c)) of
        None \<Rightarrow> False
      | Some tc \<Rightarrow> hm_all (\<lambda>t. \<not> live s t) (hm_remove (mc_id c) tc))"

definition current_cell :: "message_consumer \<Rightarrow> lmq_store \<Rightarrow> pref" where
  "current_cell c s = payload_ref (nodes s (mc_current c))"

definition ffi_lmq_consumer_destroy :: "ptr \<Rightarrow> capi \<Rightarrow> (unit \<times> capi) ffi" where
  "ffi_lmq_consumer_destroy consumer g =
     (case fetch g consumer of
        Some (LmqConsumerT c) \<Rightarrow>
          if autodrop_claims c (c_store g) \<and> viewed g (current_cell c (c_store g)) then NoReturn
          else Done ((), drop_box consumer (g\<lparr>c_store := drop_consumer c (c_store g)\<rparr>))
      | _ \<Rightarrow> Undefined)"

definition ffi_lmq_consumer_try_next :: "ptr \<Rightarrow> capi \<Rightarrow> (ptr \<times> capi) ffi" where
  "ffi_lmq_consumer_try_next consumer g =
     (case fetch g consumer of
        Some (LmqConsumerT c) \<Rightarrow>
          if viewed g (current_cell c (c_store g)) then NoReturn
          else
            (case try_next c (c_store g) of
               None \<Rightarrow> NoReturn
             | Some (Some message, c, s) \<Rightarrow>
                 Done (into_raw (LmqMessageT message) (write_box consumer (LmqConsumerT c) (g\<lparr>c_store := s\<rparr>)))
             | Some (None, c, s) \<Rightarrow>
                 Done (0, write_box consumer (LmqConsumerT c) (g\<lparr>c_store := s\<rparr>)))
      | _ \<Rightarrow> Undefined)"

definition ffi_lmq_consumer_wait :: "ptr \<Rightarrow> capi \<Rightarrow> (ptr \<times> capi) ffi" where
  "ffi_lmq_consumer_wait consumer g =
     (case fetch g consumer of
        Some (LmqConsumerT c) \<Rightarrow>
          if viewed g (current_cell c (c_store g)) then NoReturn
          else
            (case poll_next (\<lambda>_ _. False) NextStart c (c_store g) of
               None \<Rightarrow> NoReturn
             | Some (Inr message, c, s) \<Rightarrow>
                 Done (into_raw (LmqMessageT message) (write_box consumer (LmqConsumerT c) (g\<lparr>c_store := s\<rparr>)))
             | Some (Inl _, c, s) \<Rightarrow> NoReturn)
      | _ \<Rightarrow> Undefined)"

definition ffi_lmq_message_destroy :: "ptr \<Rightarrow> capi \<Rightarrow> (unit \<times> capi) ffi" where
  "ffi_lmq_message_destroy message g =
     (case fetch g message of
        Some (LmqMessageT _) \<Rightarrow> Done ((), drop_box message g)
      | _ \<Rightarrow> Undefined)"

text \<open>The second component of the result is what \<open>p\<close> and \<open>len\<close> are set to, \<open>None\<close> for \<open>NULL\<close> and \<open>0\<close>.\<close>

definition ffi_lmq_message_peek :: "ptr \<Rightarrow> capi \<Rightarrow> ((ptr \<times> byte list option) \<times> capi) ffi" where
  "ffi_lmq_message_peek message g =
     (case fetch g message of
        Some (LmqMessageT m) \<Rightarrow>
          (case read_message (c_store g) m of
             Some bytes \<Rightarrow>
               (case into_raw (LmqMessageRefT message (payload_ref m)) g of
                  (r, g) \<Rightarrow> Done ((r, Some bytes), g))
           | None \<Rightarrow> Done ((0, None), g))
      | _ \<Rightarrow> Undefined)"

definition ffi_lmq_message_peek_release :: "ptr \<Rightarrow> capi \<Rightarrow> (unit \<times> capi) ffi" where
  "ffi_lmq_message_peek_release message_ref g =
     (case fetch g message_ref of
        Some (LmqMessageRefT message _) \<Rightarrow>
          (case fetch g message of
             Some (LmqMessageT _) \<Rightarrow> Done ((), drop_box message_ref g)
           | _ \<Rightarrow> Undefined)
      | _ \<Rightarrow> Undefined)"

definition ffi_lmq_message_claim :: "ptr \<Rightarrow> capi \<Rightarrow> ((ptr \<times> byte list option) \<times> capi) ffi" where
  "ffi_lmq_message_claim message g =
     (case fetch g message of
        Some (LmqMessageT m) \<Rightarrow>
          if viewed g (payload_ref m) then NoReturn
          else
            (case claim m (c_store g) of
               (Some payload, s) \<Rightarrow>
                 (case into_raw (LmqVecT payload) (g\<lparr>c_store := s\<rparr>) of
                    (r, g) \<Rightarrow> Done ((r, Some payload), g))
             | (None, s) \<Rightarrow> Done ((0, None), g\<lparr>c_store := s\<rparr>))
      | _ \<Rightarrow> Undefined)"

definition ffi_lmq_vec_destroy :: "ptr \<Rightarrow> capi \<Rightarrow> (unit \<times> capi) ffi" where
  "ffi_lmq_vec_destroy data g =
     (case fetch g data of
        Some (LmqVecT _) \<Rightarrow> Done ((), drop_box data g)
      | _ \<Rightarrow> Undefined)"

section \<open>Client programs\<close>

datatype lmq_call =
    CallNew | CallDestroy ptr | CallPush ptr "byte list option"
  | CallConsumerNew ptr u64 | CallConsumerDestroy ptr | CallTryNext ptr | CallWait ptr
  | CallMessageDestroy ptr | CallPeek ptr | CallPeekRelease ptr | CallClaim ptr | CallVecDestroy ptr

datatype lmq_answer = AnswerUnit | AnswerPtr ptr | AnswerBytes ptr "byte list option"

fun ffi_map :: "('a \<Rightarrow> 'b) \<Rightarrow> ('a \<times> capi) ffi \<Rightarrow> ('b \<times> capi) ffi" where
  "ffi_map f (Done (x, g)) = Done (f x, g)"
| "ffi_map f Undefined = Undefined"
| "ffi_map f NoReturn = NoReturn"

fun ffi_call :: "lmq_call \<Rightarrow> capi \<Rightarrow> (lmq_answer \<times> capi) ffi" where
  "ffi_call CallNew g = ffi_map AnswerPtr (ffi_lmq_new g)"
| "ffi_call (CallDestroy p) g = ffi_map (\<lambda>_. AnswerUnit) (ffi_lmq_destroy p g)"
| "ffi_call (CallPush p data) g = ffi_map (\<lambda>_. AnswerUnit) (ffi_lmq_push p data g)"
| "ffi_call (CallConsumerNew p cid) g = ffi_map AnswerPtr (ffi_lmq_consumer_new p cid g)"
| "ffi_call (CallConsumerDestroy p) g = ffi_map (\<lambda>_. AnswerUnit) (ffi_lmq_consumer_destroy p g)"
| "ffi_call (CallTryNext p) g = ffi_map AnswerPtr (ffi_lmq_consumer_try_next p g)"
| "ffi_call (CallWait p) g = ffi_map AnswerPtr (ffi_lmq_consumer_wait p g)"
| "ffi_call (CallMessageDestroy p) g = ffi_map (\<lambda>_. AnswerUnit) (ffi_lmq_message_destroy p g)"
| "ffi_call (CallPeek p) g = ffi_map (\<lambda>(r, b). AnswerBytes r b) (ffi_lmq_message_peek p g)"
| "ffi_call (CallPeekRelease p) g = ffi_map (\<lambda>_. AnswerUnit) (ffi_lmq_message_peek_release p g)"
| "ffi_call (CallClaim p) g = ffi_map (\<lambda>(r, b). AnswerBytes r b) (ffi_lmq_message_claim p g)"
| "ffi_call (CallVecDestroy p) g = ffi_map (\<lambda>_. AnswerUnit) (ffi_lmq_vec_destroy p g)"

text \<open>A run of calls that all return.\<close>

definition ffi_step :: "lmq_call \<Rightarrow> capi \<Rightarrow> (lmq_answer \<times> capi) option" where
  "ffi_step x g = (case ffi_call x g of Done r \<Rightarrow> Some r | _ \<Rightarrow> None)"

definition capi_start :: "bool \<Rightarrow> capi" where
  "capi_start ad = \<lparr>c_store = empty_store ad, boxes = []\<rparr>"

definition returned :: "(lmq_answer list \<times> capi) option \<Rightarrow> capi \<Rightarrow> bool" where
  "returned r g \<longleftrightarrow> (\<exists>as. r = Some (as, g))"

lemmas ffi_defs = ffi_lmq_new_def ffi_lmq_destroy_def ffi_lmq_push_def ffi_lmq_consumer_new_def
  ffi_lmq_consumer_destroy_def ffi_lmq_consumer_try_next_def ffi_lmq_consumer_wait_def
  ffi_lmq_message_destroy_def ffi_lmq_message_peek_def ffi_lmq_message_peek_release_def
  ffi_lmq_message_claim_def ffi_lmq_vec_destroy_def

end
