(* ===== verification/Lmq_Capi_Safety.thy ===== *)
theory Lmq_Capi_Safety
  imports Lmq_Capi
begin

text \<open>
  What every call of the C interface keeps: the store stays well-formed for all queues, consumers and
  messages of the client, and a payload under a peek view does not change. What can keep a call from
  returning.
\<close>

section \<open>Steps of the store\<close>

text \<open>
  From \<open>s\<close> to \<open>s'\<close> everything that was well-formed stays so, whichever queue it belongs to, and only
  the payload cells in \<open>W\<close> are written.
\<close>

definition evolves :: "pref set \<Rightarrow> lmq_store \<Rightarrow> lmq_store \<Rightarrow> bool" where
  "evolves W s s' \<longleftrightarrow>
     store_ok s' \<and> payload_count s \<le> payload_count s' \<and>
     (\<forall>q. queue_ok s q \<longrightarrow> queue_ok s' q) \<and> (\<forall>q c. consumer_ok q s c \<longrightarrow> consumer_ok q s' c) \<and>
     (\<forall>m. message_ok s m \<longrightarrow> message_ok s' m) \<and>
     (\<forall>r < payload_count s. r \<notin> W \<longrightarrow> payloads s' r = payloads s r) \<and>
     (\<forall>x < node_count s. payload_ref (nodes s' x) = payload_ref (nodes s x))"

lemma same_shape_evolves:
  assumes "store_ok s" and "same_shape s s'" and "\<And>r. r \<notin> W \<Longrightarrow> payloads s' r = payloads s r"
  shows "evolves W s s'"
  using assms same_shape_store_ok same_shape_queue_ok same_shape_consumer_ok same_shape_message_ok
    same_shapeD(3,4) [OF assms(2)]
  by (auto simp: evolves_def)

lemma lmq_new_evolves:
  assumes "store_ok s"
  shows "evolves {} s (snd (lmq_new s))"
proof -
  let ?s = "snd (lmq_new s)"
  note f = lmq_new_fields [OF assms] and ends = lmq_new_ends_at [OF assms]
  have "queue_ok ?s q" if "queue_ok s q" for q
  proof -
    have "payload_ref (nodes s (q_root q)) < payload_count s"
      using that store_okD(4) [OF assms] by (simp add: queue_ok_def)
    with that ends show ?thesis by (auto simp: queue_ok_def f is_claimed_def)
  qed
  moreover have "consumer_ok q ?s c" if "consumer_ok q s c" for q c
    using that ends by (auto simp: consumer_ok_def f)
  moreover have "message_ok ?s m" if "message_ok s m" for m
  proof -
    from that obtain x where x: "x < node_count s" "nxt s x \<noteq> None" "payload_ref m = payload_ref (nodes s x)"
      by (auto simp: message_ok_def)
    then show ?thesis unfolding message_ok_def by (intro exI [of _ x]) (auto simp: f)
  qed
  ultimately show ?thesis using lmq_new_ok(1) [OF assms] by (auto simp: evolves_def f)
qed

lemma push_evolves:
  assumes ok: "store_ok s" "queue_ok s q" "push_point s q l"
  shows "evolves {} s (pushed v q l s)"
proof -
  have "queue_ok (pushed v q l s) q'" if "queue_ok s q'" for q'
    using that pushed_ends_at [OF ok] pushed_is_claimed [OF ok(1,3)] by (auto simp: queue_ok_def)
  moreover have "consumer_ok q' (pushed v q l s) c" if "consumer_ok q' s c" for q' c
    using that pushed_ends_at [OF ok] ends_at_allocated [OF ok(1)] by (auto simp: consumer_ok_def)
  moreover have "payload_ref (nodes (pushed v q l s) x) = payload_ref (nodes s x)" if "x < node_count s" for x
    using that ok(3) by (simp add: payload_ref_pushed push_point_def)
  ultimately show ?thesis
    using pushed_store_ok [OF ok] pushed_message_ok [OF ok(1,3)]
    by (auto simp: evolves_def pushed_def)
qed

lemma create_consumer_evolves:
  "store_ok s \<Longrightarrow> evolves {} s (snd (create_consumer i q s))"
  by (rule same_shape_evolves [OF _ create_consumer_same_shape]) (auto simp: create_consumer_def Let_def)

lemma claim_evolves: "store_ok s \<Longrightarrow> evolves {payload_ref m} s (snd (claim m s))"
  by (rule same_shape_evolves [OF _ claim_same_shape]) (auto simp: claim_def)

lemma moved_evolves:
  assumes "store_ok s" and "ahead s q (mc_current c) ds e"
  shows "evolves {current_cell c s} s (moved c ds e s)"
  using assms moved_store_ok moved_message_ok passed_payloads [of _ s c]
    with_next_queue_ok [OF moved_keeps_ends [OF assms]] with_next_consumer_ok [OF moved_keeps_ends [OF assms]]
    same_shape_queue_ok [OF passed_same_shape] same_shape_consumer_ok [OF passed_same_shape]
    same_shapeD(3) [OF passed_same_shape, of c s]
  by (auto simp: evolves_def moved_def Let_def current_cell_def)

lemma drop_consumer_evolves:
  assumes "store_ok s"
  shows "evolves (if autodrop_claims c s then {current_cell c s} else {}) s (drop_consumer c s)"
proof (rule same_shape_evolves [OF assms drop_consumer_same_shape])
  fix r assume "r \<notin> (if autodrop_claims c s then {current_cell c s} else {})"
  then show "payloads (drop_consumer c s) r = payloads s r"
    by (auto simp: drop_consumer_def check_should_now_autodrop_def autodrop_claims_def claim_def
        current_cell_def Let_def split: option.splits if_splits)
qed

section \<open>The invariant of the client's boxes\<close>

fun box_ok :: "lmq_store \<Rightarrow> lmq_box \<Rightarrow> bool" where
  "box_ok s (LmqT q) = queue_ok s q"
| "box_ok s (LmqConsumerT c) = (\<exists>q. consumer_ok q s c)"
| "box_ok s (LmqMessageT m) = message_ok s m"
| "box_ok s (LmqMessageRefT p r) = (r < payload_count s \<and> payloads s r \<noteq> None)"
| "box_ok s (LmqVecT v) = True"

definition capi_ok :: "capi \<Rightarrow> bool" where
  "capi_ok g \<longleftrightarrow>
     store_ok (c_store g) \<and> (\<forall>p b. fetch g p = Some b \<longrightarrow> box_ok (c_store g) b)"

lemma fetch_store [simp]: "fetch (g\<lparr>c_store := s\<rparr>) = fetch g"
  by (simp add: fetch_def fun_eq_iff)

lemma fetch_into_raw:
  "into_raw b g = (p, g') \<Longrightarrow> fetch g' = (fetch g)(p := Some b) \<and> c_store g' = c_store g \<and> fetch g p = None"
  by (auto simp: into_raw_def fetch_def fun_eq_iff nth_append)

lemma fetch_live: "fetch g p = Some b \<Longrightarrow> 0 < p \<and> p \<le> length (boxes g) \<and> boxes g ! (p - 1) = Some b"
  by (auto simp: fetch_def split: if_splits)

lemma fetch_drop: "fetch g p = Some b \<Longrightarrow> fetch (drop_box p g) = (fetch g)(p := None)"
  by (auto simp: fetch_def drop_box_def fun_eq_iff nth_list_update split: if_splits)

lemma fetch_write: "fetch g p = Some b \<Longrightarrow> fetch (write_box p b' g) = (fetch g)(p := Some b')"
  by (auto simp: fetch_def write_box_def fun_eq_iff nth_list_update split: if_splits)

lemma c_store_box [simp]: "c_store (drop_box p g) = c_store g" "c_store (write_box p b g) = c_store g"
  by (simp_all add: drop_box_def write_box_def)

lemma viewed_iff: "viewed g r \<longleftrightarrow> (\<exists>v p. fetch g v = Some (LmqMessageRefT p r))"
proof
  assume "viewed g r"
  then obtain k where "k < length (boxes g)" "case boxes g ! k of Some (LmqMessageRefT _ r') \<Rightarrow> r' = r | _ \<Rightarrow> False"
    by (auto simp: viewed_def list_ex_iff in_set_conv_nth)
  then obtain p where "fetch g (Suc k) = Some (LmqMessageRefT p r)"
    by (auto simp: fetch_def split: option.splits lmq_box.splits)
  then show "\<exists>v p. fetch g v = Some (LmqMessageRefT p r)" by blast
next
  assume "\<exists>v p. fetch g v = Some (LmqMessageRefT p r)"
  then obtain v p where "fetch g v = Some (LmqMessageRefT p r)" by blast
  from fetch_live [OF this] have "v - 1 < length (boxes g)" "boxes g ! (v - 1) = Some (LmqMessageRefT p r)"
    by auto
  then have "Some (LmqMessageRefT p r) \<in> set (boxes g)" by (metis nth_mem)
  then show "viewed g r" by (force simp: viewed_def list_ex_iff)
qed

text \<open>The cells a call writes are not under a view: the boxes stay fine.\<close>

lemma evolves_box_ok:
  assumes "evolves W (c_store g) s" and "\<forall>r \<in> W. \<not> viewed g r" and "fetch g p = Some b"
    and "box_ok (c_store g) b"
  shows "box_ok s b"
proof (cases b)
  case (LmqMessageRefT m r)
  with assms(2,3) have "r \<notin> W" by (auto simp: viewed_iff)
  with assms LmqMessageRefT show ?thesis by (auto simp: evolves_def)
next
  case (LmqConsumerT c)
  with assms(1,4) show ?thesis unfolding evolves_def by fastforce
qed (use assms in \<open>auto simp: evolves_def\<close>)

lemma evolves_refl: "store_ok s \<Longrightarrow> evolves {} s s"
  by (simp add: evolves_def)

text \<open>A call that returns writes no cell under a view, and keeps the invariant.\<close>

definition safe_step :: "capi \<Rightarrow> capi \<Rightarrow> bool" where
  "safe_step g g' \<longleftrightarrow>
     capi_ok g' \<and> (\<exists>W. evolves W (c_store g) (c_store g') \<and> (\<forall>r \<in> W. \<not> viewed g r))"

lemma safe_stepI:
  assumes "capi_ok g" and "evolves W (c_store g) (c_store g')" and "\<forall>r \<in> W. \<not> viewed g r"
    and "\<And>p b. fetch g' p = Some b \<Longrightarrow> fetch g p = Some b \<or> box_ok (c_store g') b"
  shows "safe_step g g'"
proof -
  have "capi_ok g'"
    using assms evolves_box_ok [OF assms(2,3)] unfolding capi_ok_def by (metis evolves_def)
  with assms show ?thesis by (auto simp: safe_step_def)
qed

text \<open>Calls that only add, remove or replace a box.\<close>

lemma capi_okD: "capi_ok g \<Longrightarrow> store_ok (c_store g)"
  and capi_ok_box: "capi_ok g \<Longrightarrow> fetch g p = Some b \<Longrightarrow> box_ok (c_store g) b"
  by (auto simp: capi_ok_def)

lemma safe_drop: "capi_ok g \<Longrightarrow> fetch g p = Some b \<Longrightarrow> safe_step g (drop_box p g)"
  using evolves_refl [OF capi_okD] by (intro safe_stepI [of g "{}"]) (auto simp: fetch_drop split: if_splits)

lemma safe_new:
  assumes "capi_ok g" and "evolves W (c_store g) s" and "\<forall>r \<in> W. \<not> viewed g r"
    and "into_raw b (g\<lparr>c_store := s\<rparr>) = (p, g')" and "box_ok s b"
  shows "safe_step g g'"
  using assms fetch_into_raw [OF assms(4)] by (intro safe_stepI [of g W]) (auto split: if_splits)

section \<open>Each call\<close>

lemma push_safe:
  assumes ok: "capi_ok g" and "ffi_lmq_push p data g = Done (u, g')"
  shows "safe_step g g'"
proof -
  from assms(2) obtain q v q' s' where q: "fetch g p = Some (LmqT q)"
    and push: "lmq_push v q (c_store g) = Some (q', s')"
    and g': "g' = write_box p (LmqT q') (g\<lparr>c_store := s'\<rparr>)"
    by (auto simp: ffi_lmq_push_def split: option.splits lmq_box.splits)
  note so = capi_okD [OF ok]
  from capi_ok_box [OF ok q] have qo: "queue_ok (c_store g) q" by simp
  then obtain l where l: "push_point (c_store g) q l"
    and eq: "\<And>v. lmq_push v q (c_store g) = Some (q\<lparr>q_last := node_count (c_store g)\<rparr>, pushed v q l (c_store g))"
    using lmq_push_total [OF so] by metis
  from push eq have s': "q' = q\<lparr>q_last := node_count (c_store g)\<rparr>" "s' = pushed v q l (c_store g)" by simp_all
  show ?thesis
    using push_evolves [OF so qo l, of v] pushed_queue_ok [OF so qo l, of v] fetch_write [of "g\<lparr>c_store := s'\<rparr>" p]
    by (intro safe_stepI [OF ok, of "{}"]) (auto simp: g' s' q split: if_splits)
qed

lemma new_safe: "capi_ok g \<Longrightarrow> ffi_lmq_new g = Done (p, g') \<Longrightarrow> safe_step g g'"
  using lmq_new_evolves [OF capi_okD] lmq_new_ok(2) [OF capi_okD]
  by (auto simp: ffi_lmq_new_def split: prod.splits intro!: safe_new [of g "{}"]) force+

lemma consumer_new_safe:
  assumes ok: "capi_ok g" and "ffi_lmq_consumer_new p cid g = Done (r, g')"
  shows "safe_step g g'"
proof -
  from assms(2) obtain q c s' where q: "fetch g p = Some (LmqT q)"
    and c: "create_consumer cid q (c_store g) = (c, s')"
    and g': "into_raw (LmqConsumerT c) (g\<lparr>c_store := s'\<rparr>) = (r, g')"
    by (auto simp: ffi_lmq_consumer_new_def split: option.splits lmq_box.splits prod.splits)
  have "queue_ok (c_store g) q" using capi_ok_box [OF ok q] by simp
  from create_consumer_ok [OF this, of cid] create_consumer_evolves [OF capi_okD [OF ok], of cid q] g'
  show ?thesis by (intro safe_new [OF ok _ _ g', of "{}"]) (auto simp: c)
qed

text \<open>A consumer that may look: what \<open>try_next\<close> gives, from \<open>try_next_eq\<close>.\<close>

lemma consumer_looks:
  assumes so: "store_ok s" and c: "consumer_ok q s c"
  obtains m c' s' where "try_next c s = Some (m, c', s')" "evolves {current_cell c s} s s'" "consumer_ok q s' c'"
    "\<And>x. m = Some x \<Longrightarrow> message_ok s' x"
proof -
  from c obtain ds e where a: "ahead s q (mc_current c) ds e"
    using ahead_exists unfolding consumer_ok_def by blast
  show thesis
  proof (cases "e = q_tail q")
    case True
    with try_next_eq [OF so c a] moved_evolves [OF so a] moved_consumer_ok [OF so c a]
    show thesis by (intro that) auto
  next
    case False
    with try_next_eq [OF so c a] moved_evolves [OF so a] moved_mover_ok [OF so c a] delivered_message_ok [OF so a]
    show thesis by (intro that) auto
  qed
qed

lemma moved_consumer_safe:
  assumes ok: "capi_ok g" and c: "fetch g p = Some (LmqConsumerT c)" "\<not> viewed g (current_cell c (c_store g))"
    and ev: "evolves {current_cell c (c_store g)} (c_store g) s'" "consumer_ok q s' c'"
  shows "safe_step g (write_box p (LmqConsumerT c') (g\<lparr>c_store := s'\<rparr>))"
    and "message_ok s' m \<Longrightarrow> into_raw (LmqMessageT m) (write_box p (LmqConsumerT c') (g\<lparr>c_store := s'\<rparr>)) = (r, g') \<Longrightarrow>
      safe_step g g'"
proof -
  let ?g = "write_box p (LmqConsumerT c') (g\<lparr>c_store := s'\<rparr>)"
  have f: "fetch ?g = (fetch g)(p := Some (LmqConsumerT c'))"
    using fetch_write [of "g\<lparr>c_store := s'\<rparr>" p] c by simp
  have cons: "box_ok s' (LmqConsumerT c')" using ev(2) by auto
  show "safe_step g ?g"
    using ev c(2) f cons by (intro safe_stepI [OF ok, of "{current_cell c (c_store g)}"]) (auto split: if_splits)
  show "safe_step g g'" if "message_ok s' m" "into_raw (LmqMessageT m) ?g = (r, g')"
    using ev c(2) f cons that(1) fetch_into_raw [OF that(2)]
    by (intro safe_stepI [OF ok, of "{current_cell c (c_store g)}"]) (auto split: if_splits)
qed

lemma look_safe:
  assumes ok: "capi_ok g" and c: "fetch g p = Some (LmqConsumerT c)" "\<not> viewed g (current_cell c (c_store g))"
    and t: "try_next c (c_store g) = Some (m, c', s')"
  shows "case m of
      None \<Rightarrow> safe_step g (write_box p (LmqConsumerT c') (g\<lparr>c_store := s'\<rparr>))
    | Some x \<Rightarrow> safe_step g (snd (into_raw (LmqMessageT x) (write_box p (LmqConsumerT c') (g\<lparr>c_store := s'\<rparr>))))"
proof -
  obtain q where "consumer_ok q (c_store g) c" using capi_ok_box [OF ok c(1)] by auto
  from consumer_looks [OF capi_okD [OF ok] this] t
  have "evolves {current_cell c (c_store g)} (c_store g) s'" "consumer_ok q s' c'" "\<And>x. m = Some x \<Longrightarrow> message_ok s' x"
    by (metis option.inject prod.inject)+
  from moved_consumer_safe(1) [OF ok c this(1,2)] moved_consumer_safe(2) [OF ok c this(1,2) _ surjective_pairing]
    this(3) show ?thesis by (cases m) auto
qed

lemma try_next_safe:
  assumes ok: "capi_ok g" and "ffi_lmq_consumer_try_next p g = Done (r, g')"
  shows "safe_step g g'"
proof -
  from assms(2) obtain c where c: "fetch g p = Some (LmqConsumerT c)" "\<not> viewed g (current_cell c (c_store g))"
    by (auto simp: ffi_lmq_consumer_try_next_def split: option.splits lmq_box.splits if_splits)
  with assms(2) obtain m c' s' where t: "try_next c (c_store g) = Some (m, c', s')"
    by (auto simp: ffi_lmq_consumer_try_next_def split: option.splits)
  with look_safe [OF ok c t] assms(2) c show ?thesis
    by (cases m) (auto simp: ffi_lmq_consumer_try_next_def prod_eq_iff)
qed

text \<open>\<open>wait\<close> returns exactly when \<open>try_next\<close> finds a message, and then with the same effect.\<close>

lemma wait_is_try_next:
  "ffi_lmq_consumer_wait p g =
     (case ffi_lmq_consumer_try_next p g of
        Done (r, g') \<Rightarrow> if r = 0 then NoReturn else Done (r, g')
      | Undefined \<Rightarrow> Undefined
      | NoReturn \<Rightarrow> NoReturn)"
  by (auto simp: ffi_lmq_consumer_wait_def ffi_lmq_consumer_try_next_def poll_next_def into_raw_def Let_def
      split: option.splits lmq_box.splits)

lemma claim_safe:
  assumes ok: "capi_ok g" and "ffi_lmq_message_claim p g = Done (r, g')"
  shows "safe_step g g'"
proof -
  from assms(2) obtain m where m: "fetch g p = Some (LmqMessageT m)" "\<not> viewed g (payload_ref m)"
    by (auto simp: ffi_lmq_message_claim_def split: option.splits lmq_box.splits if_splits)
  note ev = claim_evolves [OF capi_okD [OF ok], of m]
  show ?thesis
  proof (cases "claim m (c_store g)")
    case (Pair v s')
    show ?thesis
    proof (cases v)
      case None
      with assms(2) m Pair have "g' = g\<lparr>c_store := s'\<rparr>" by (simp add: ffi_lmq_message_claim_def)
      with ev m(2) Pair show ?thesis by (intro safe_stepI [OF ok, of "{payload_ref m}"]) auto
    next
      case (Some payload)
      with assms(2) m Pair obtain r' where "into_raw (LmqVecT payload) (g\<lparr>c_store := s'\<rparr>) = (r', g')"
        by (auto simp: ffi_lmq_message_claim_def split: prod.splits)
      with ev m(2) Pair show ?thesis by (intro safe_new [OF ok, of "{payload_ref m}"]) auto
    qed
  qed
qed

lemma peek_safe:
  assumes ok: "capi_ok g" and "ffi_lmq_message_peek p g = Done (r, g')"
  shows "safe_step g g'"
proof -
  from assms(2) obtain m where m: "fetch g p = Some (LmqMessageT m)"
    by (auto simp: ffi_lmq_message_peek_def split: option.splits lmq_box.splits)
  note refl = evolves_refl [OF capi_okD [OF ok]]
  show ?thesis
  proof (cases "read_message (c_store g) m")
    case None
    with assms(2) m have "g' = g" by (simp add: ffi_lmq_message_peek_def)
    with refl show ?thesis by (intro safe_stepI [OF ok, of "{}"]) auto
  next
    case (Some bytes)
    with assms(2) m obtain r' where r': "into_raw (LmqMessageRefT p (payload_ref m)) g = (r', g')"
      by (auto simp: ffi_lmq_message_peek_def split: prod.splits)
    have "message_ok (c_store g) m" using capi_ok_box [OF ok m] by simp
    then have "payload_ref m < payload_count (c_store g)"
      using store_okD(4) [OF capi_okD [OF ok]] by (auto simp: message_ok_def)
    moreover have "payloads (c_store g) (payload_ref m) \<noteq> None"
      using Some by (auto simp: read_message_def split: option.splits)
    ultimately show ?thesis
      using refl fetch_into_raw [OF r'] by (intro safe_stepI [OF ok, of "{}"]) (auto split: if_splits)
  qed
qed

lemma consumer_destroy_safe:
  assumes ok: "capi_ok g" and "ffi_lmq_consumer_destroy p g = Done (u, g')"
  shows "safe_step g g'"
proof -
  from assms(2) obtain c where c: "fetch g p = Some (LmqConsumerT c)"
    "\<not> (autodrop_claims c (c_store g) \<and> viewed g (current_cell c (c_store g)))"
    and g': "g' = drop_box p (g\<lparr>c_store := drop_consumer c (c_store g)\<rparr>)"
    by (auto simp: ffi_lmq_consumer_destroy_def split: option.splits lmq_box.splits if_splits)
  show ?thesis
    using drop_consumer_evolves [OF capi_okD [OF ok], of c] c fetch_drop [of "g\<lparr>c_store := drop_consumer c (c_store g)\<rparr>" p]
    by (intro safe_stepI [OF ok, of "if autodrop_claims c (c_store g) then {current_cell c (c_store g)} else {}"])
      (auto simp: g' split: if_splits)
qed

lemma ffi_map_Done: "ffi_map f r = Done (a, g') \<longleftrightarrow> (\<exists>x. r = Done (x, g') \<and> a = f x)"
  and ffi_map_NoReturn: "ffi_map f r = NoReturn \<longleftrightarrow> r = NoReturn"
  by (cases r; force)+

lemma ffi_call_safe:
  assumes "capi_ok g" and "ffi_call x g = Done (a, g')"
  shows "safe_step g g'"
proof -
  have "safe_step g g'" if "ffi_lmq_consumer_wait p g = Done (r, g')" for p r
    using that try_next_safe [OF assms(1)]
    by (auto simp: wait_is_try_next split: ffi.splits if_splits)
  moreover have "safe_step g g'" if "ffi_lmq_destroy p g = Done (u, g') \<or> ffi_lmq_message_destroy p g = Done (u, g') \<or>
      ffi_lmq_message_peek_release p g = Done (u, g') \<or> ffi_lmq_vec_destroy p g = Done (u, g')" for p u
    using that safe_drop [OF assms(1)]
    by (auto simp: ffi_defs split: option.splits lmq_box.splits)
  ultimately show ?thesis
    using assms push_safe new_safe consumer_new_safe try_next_safe claim_safe peek_safe consumer_destroy_safe
    by (cases x) (auto simp: ffi_map_Done)
qed

lemma capi_ok_start: "capi_ok (capi_start ad)"
proof -
  have "nxt (empty_store ad) = (\<lambda>_. None)" by (simp add: empty_store_def nxt_def fun_eq_iff)
  then have "store_ok (empty_store ad)"
    by (auto simp: store_ok_def empty_store_def intro: ends_at_self)
  then show ?thesis by (simp add: capi_ok_def capi_start_def fetch_def)
qed

lemma ffi_step_Some: "ffi_step x g = Some (a, g') \<longleftrightarrow> ffi_call x g = Done (a, g')"
  by (auto simp: ffi_step_def split: ffi.splits)

lemma ffi_run_ok: "run_events ffi_step xs g = Some (as, g') \<Longrightarrow> capi_ok g \<Longrightarrow> capi_ok g'"
proof (induction xs arbitrary: g as)
  case (Cons x xs)
  then obtain a g1 as1 where "ffi_call x g = Done (a, g1)" "run_events ffi_step xs g1 = Some (as1, g')"
    by (auto simp: ffi_step_Some split: option.splits)
  with Cons ffi_call_safe show ?case by (blast intro: safe_step_def [THEN iffD1, THEN conjunct1])
qed simp

end
