(* ===== verification/Lmq_Capi_Props.thy ===== *)
theory Lmq_Capi_Props
  imports Lmq_Capi_Safety Lmq_Props
begin

text \<open>
  The properties of the C interface: what can keep a call from returning, the bytes behind a peek view
  stay, and a view blocks its consumer until it is released, whatever else is done with the message.
\<close>

lemmas capi_eval = ffi_step_def ffi_defs capi_start_def fetch_def into_raw_def write_box_def drop_box_def
  viewed_def current_cell_def lmq_eval

section \<open>Only views block\<close>

text \<open>The payload cell whose write lock a call takes.\<close>

definition write_lock :: "lmq_call \<Rightarrow> capi \<Rightarrow> pref option" where
  "write_lock x g =
     (let current = (\<lambda>p. case fetch g p of Some (LmqConsumerT c) \<Rightarrow> Some c | _ \<Rightarrow> None) in
      case x of
        CallTryNext p \<Rightarrow> map_option (\<lambda>c. current_cell c (c_store g)) (current p)
      | CallWait p \<Rightarrow> map_option (\<lambda>c. current_cell c (c_store g)) (current p)
      | CallConsumerDestroy p \<Rightarrow>
          (case current p of
             Some c \<Rightarrow> if autodrop_claims c (c_store g) then Some (current_cell c (c_store g)) else None
           | None \<Rightarrow> None)
      | CallClaim p \<Rightarrow> (case fetch g p of Some (LmqMessageT m) \<Rightarrow> Some (payload_ref m) | _ \<Rightarrow> None)
      | _ \<Rightarrow> None)"

lemma try_next_no_return:
  assumes ok: "capi_ok g" and "ffi_lmq_consumer_try_next p g = NoReturn"
  shows "\<exists>c. fetch g p = Some (LmqConsumerT c) \<and> viewed g (current_cell c (c_store g))"
proof -
  from assms(2) obtain c where c: "fetch g p = Some (LmqConsumerT c)"
    by (auto simp: ffi_lmq_consumer_try_next_def split: option.splits lmq_box.splits)
  with capi_ok_box [OF ok] obtain q where q: "consumer_ok q (c_store g) c" by fastforce
  obtain m c' s' where "try_next c (c_store g) = Some (m, c', s')"
    by (rule consumer_looks [OF capi_okD [OF ok] q])
  with assms(2) c show ?thesis
    by (auto simp: ffi_lmq_consumer_try_next_def split: option.splits if_splits)
qed

lemma push_returns:
  assumes ok: "capi_ok g"
  shows "ffi_lmq_push p data g \<noteq> NoReturn"
proof
  assume "ffi_lmq_push p data g = NoReturn"
  then obtain q v where q: "fetch g p = Some (LmqT q)" and "lmq_push v q (c_store g) = None"
    by (auto simp: ffi_lmq_push_def split: option.splits lmq_box.splits)
  moreover have "queue_ok (c_store g) q" using capi_ok_box [OF ok q] by simp
  ultimately show False using lmq_push_total [OF capi_okD [OF ok]] by (metis option.distinct(1))
qed

text \<open>
  C26: For a client of one thread that uses the queue calls of the C interface (those of
  \<^verbatim>\<open>lmq-capi/src/lmq.rs\<close>; the handlers of \<^verbatim>\<open>lmq_tokio.rs\<close> are \<^verbatim>\<open>Lmq_Handlers\<close>), only its own views block a call.
  After any run of these calls, over any number of queues, consumers and messages, a further call fails to return only for two reasons: the call takes the
  write lock of a payload on which the client holds a view (\<open>try_next\<close> and \<open>wait\<close> that of the message
  the consumer stands on, \<open>claim\<close> that of its message, destroying a consumer that of its current
  message if it would drop it), or it is \<open>wait\<close> and there is no message. In particular none of these
  calls loops and none locks a node it already holds.
\<close>

theorem only_views_block:
  assumes "run_events ffi_step calls (capi_start ad) = Some (as, g)"
    and "ffi_call x g = NoReturn"
  shows "(\<exists>r. write_lock x g = Some r \<and> viewed g r) \<or>
    (\<exists>p g'. x = CallWait p \<and> ffi_call (CallTryNext p) g = Done (AnswerPtr 0, g'))"
proof -
  have ok: "capi_ok g" using ffi_run_ok [OF assms(1) capi_ok_start] .
  show ?thesis
  proof (cases x)
    case (CallWait p)
    with assms(2) consider "ffi_lmq_consumer_try_next p g = NoReturn"
      | g' where "ffi_lmq_consumer_try_next p g = Done (0, g')"
      by (auto simp: ffi_map_NoReturn wait_is_try_next split: ffi.splits if_splits)
    then show ?thesis
      using try_next_no_return [OF ok, of p] CallWait by cases (auto simp: write_lock_def)
  next
    case (CallTryNext p)
    with assms(2) try_next_no_return [OF ok, of p] show ?thesis
      by (auto simp: ffi_map_NoReturn write_lock_def)
  qed (use assms(2) push_returns [OF ok] in
      \<open>auto simp: ffi_map_NoReturn ffi_defs write_lock_def split: option.splits lmq_box.splits if_splits prod.splits\<close>)
qed

theorem only_views_block_witness:
  "\<exists>as g. run_events ffi_step [CallNew, CallConsumerNew 1 7, CallPush 1 (Some [9]), CallTryNext 2, CallPeek 3]
      (capi_start True) = Some (as, g) \<and> ffi_call (CallClaim 3) g = NoReturn \<and>
    (\<exists>r. write_lock (CallClaim 3) g = Some r \<and> viewed g r)"
proof -
  have "\<exists>as g. run_events ffi_step [CallNew, CallConsumerNew 1 7, CallPush 1 (Some [9]), CallTryNext 2, CallPeek 3]
      (capi_start True) = Some (as, g) \<and> ffi_call (CallClaim 3) g = NoReturn"
    by (simp add: capi_eval)
  with only_views_block show ?thesis by blast
qed

section \<open>Views\<close>

text \<open>The bytes behind the view \<open>r\<close>, as long as the view and its message are there.\<close>

definition view_bytes :: "capi \<Rightarrow> ptr \<Rightarrow> byte list option" where
  "view_bytes g r =
     (case fetch g r of
        Some (LmqMessageRefT message guarded) \<Rightarrow>
          (case fetch g message of
             Some (LmqMessageT _) \<Rightarrow> payloads (c_store g) guarded
           | _ \<Rightarrow> None)
      | _ \<Rightarrow> None)"

lemma fetch_into_raw_old:
  "into_raw b g = (p, g') \<Longrightarrow> fetch g v = Some x \<Longrightarrow> fetch g' v = Some x"
  using fetch_into_raw [of b g p g'] by auto

text \<open>The box a call destroys or rewrites.\<close>

definition touches :: "lmq_call \<Rightarrow> ptr \<Rightarrow> bool" where
  "touches x v \<longleftrightarrow>
     (case x of
        CallDestroy p \<Rightarrow> p = v | CallPush p _ \<Rightarrow> p = v | CallConsumerDestroy p \<Rightarrow> p = v
      | CallTryNext p \<Rightarrow> p = v | CallWait p \<Rightarrow> p = v | CallMessageDestroy p \<Rightarrow> p = v
      | CallPeekRelease p \<Rightarrow> p = v | CallVecDestroy p \<Rightarrow> p = v | _ \<Rightarrow> False)"

lemma write_other:
  "fetch g v = Some x \<Longrightarrow> v \<noteq> p \<Longrightarrow> fetch g p = Some b \<Longrightarrow>
     fetch (write_box p b' (g\<lparr>c_store := s\<rparr>)) v = Some x"
  using fetch_write [of "g\<lparr>c_store := s\<rparr>" p b b'] by simp

lemma drop_other:
  "fetch g v = Some x \<Longrightarrow> v \<noteq> p \<Longrightarrow> fetch g p = Some b \<Longrightarrow>
     fetch (drop_box p (g\<lparr>c_store := s\<rparr>)) v = Some x"
  "fetch g v = Some x \<Longrightarrow> v \<noteq> p \<Longrightarrow> fetch g p = Some b \<Longrightarrow> fetch (drop_box p g) v = Some x"
  using fetch_drop [of "g\<lparr>c_store := s\<rparr>" p b] fetch_drop [of g p b] by simp_all

lemma into_raw_keeps: "fetch g v = Some x \<Longrightarrow> fetch (snd (into_raw b g)) v = Some x"
  using fetch_into_raw [OF surjective_pairing, of b g] by auto

lemma fetch_no_store: "fetch g v = Some x \<Longrightarrow> fetch (g\<lparr>c_store := s\<rparr>) v = Some x"
  by simp

lemmas kept_intros = into_raw_keeps write_other drop_other fetch_no_store

lemma try_next_keeps:
  assumes "ffi_lmq_consumer_try_next p g = Done (r, g')" and "fetch g v = Some b" and "v \<noteq> p"
  shows "fetch g' v = Some b"
proof -
  from assms(1) obtain c where c: "fetch g p = Some (LmqConsumerT c)" "\<not> viewed g (current_cell c (c_store g))"
    by (auto simp: ffi_lmq_consumer_try_next_def split: option.splits lmq_box.splits if_splits)
  with assms(1) obtain m c' s' where "try_next c (c_store g) = Some (m, c', s')"
    by (auto simp: ffi_lmq_consumer_try_next_def split: option.splits)
  with assms(1) c have "g' = write_box p (LmqConsumerT c') (g\<lparr>c_store := s'\<rparr>) \<or>
      (\<exists>x. g' = snd (into_raw (LmqMessageT x) (write_box p (LmqConsumerT c') (g\<lparr>c_store := s'\<rparr>))))"
    by (cases m) (auto simp: ffi_lmq_consumer_try_next_def prod_eq_iff)
  then show ?thesis using assms(2,3) c(1) by (auto intro!: kept_intros)
qed

lemma untouched_kept:
  assumes "ffi_call x g = Done (a, g')" and "fetch g v = Some b" and "\<not> touches x v"
  shows "fetch g' v = Some b"
proof -
  have "fetch g' v = Some b" if "ffi_lmq_consumer_wait p g = Done (r, g')" "v \<noteq> p" for p r
    using that try_next_keeps [OF _ assms(2)]
    by (auto simp: wait_is_try_next split: ffi.splits if_splits)
  then show ?thesis
    using assms try_next_keeps [OF _ assms(2)]
    by (cases x) (auto simp: touches_def ffi_map_Done ffi_lmq_new_def ffi_lmq_destroy_def ffi_lmq_push_def
        ffi_lmq_consumer_new_def ffi_lmq_consumer_destroy_def ffi_lmq_message_destroy_def
        ffi_lmq_message_peek_def ffi_lmq_message_peek_release_def ffi_lmq_message_claim_def
        ffi_lmq_vec_destroy_def prod_eq_iff intro!: kept_intros
        split: option.splits lmq_box.splits if_splits prod.splits)
qed

lemma view_kept:
  assumes "ffi_call x g = Done (a, g')" and "fetch g v = Some (LmqMessageRefT m r)" and "x \<noteq> CallPeekRelease v"
  shows "fetch g' v = Some (LmqMessageRefT m r)"
proof (rule untouched_kept [OF assms(1,2)])
  show "\<not> touches x v"
    using assms by (cases x) (auto simp: touches_def ffi_map_Done ffi_defs)
qed

lemma message_kept:
  assumes "ffi_call x g = Done (a, g')" and "fetch g v = Some (LmqMessageT m)" and "x \<noteq> CallMessageDestroy v"
  shows "fetch g' v = Some (LmqMessageT m)"
proof (rule untouched_kept [OF assms(1,2)])
  show "\<not> touches x v"
    using assms by (cases x) (auto simp: touches_def ffi_map_Done ffi_defs)
qed

text \<open>A consumer whose current message is under a view.\<close>

lemma blocked_kept:
  assumes "ffi_call x g = Done (a, g')" and "fetch g p = Some (LmqConsumerT c)"
    and "viewed g (current_cell c (c_store g))" and "x \<noteq> CallConsumerDestroy p"
  shows "fetch g' p = Some (LmqConsumerT c)"
proof (rule untouched_kept [OF assms(1,2)])
  show "\<not> touches x p"
    using assms by (cases x) (auto simp: touches_def ffi_map_Done ffi_defs)
qed

lemma view_step:
  assumes ok: "capi_ok g" and v: "fetch g v = Some (LmqMessageRefT m r)"
    and x: "ffi_call x g = Done (a, g')" "x \<noteq> CallPeekRelease v"
  shows "fetch g' v = Some (LmqMessageRefT m r)" and "payloads (c_store g') r = payloads (c_store g) r"
    and "y < node_count (c_store g) \<Longrightarrow> payload_ref (nodes (c_store g') y) = payload_ref (nodes (c_store g) y)"
proof -
  show "fetch g' v = Some (LmqMessageRefT m r)" using view_kept [OF x(1) v x(2)] .
  obtain W where W: "evolves W (c_store g) (c_store g')" "\<forall>r \<in> W. \<not> viewed g r"
    using ffi_call_safe [OF ok x(1)] by (auto simp: safe_step_def)
  have "r < payload_count (c_store g)" using capi_ok_box [OF ok v] by simp
  moreover have "r \<notin> W" using W(2) v by (auto simp: viewed_iff)
  ultimately show "payloads (c_store g') r = payloads (c_store g) r" using W(1) by (simp add: evolves_def)
  show "payload_ref (nodes (c_store g') y) = payload_ref (nodes (c_store g) y)" if "y < node_count (c_store g)"
    using W(1) that by (simp add: evolves_def)
qed

lemma ffi_run_Cons:
  assumes "run_events ffi_step (x # xs) g = Some (as, g')"
  obtains a g1 as1 where "ffi_call x g = Done (a, g1)" and "run_events ffi_step xs g1 = Some (as1, g')"
  using assms by (auto simp: ffi_step_Some split: option.splits)

lemma view_run:
  assumes "run_events ffi_step xs g = Some (as, g')" and "capi_ok g"
    and "fetch g v = Some (LmqMessageRefT m r)" and "list_all (\<lambda>x. x \<noteq> CallPeekRelease v) xs"
  shows "fetch g' v = Some (LmqMessageRefT m r) \<and> payloads (c_store g') r = payloads (c_store g) r"
  using assms
proof (induction xs arbitrary: g as)
  case (Cons x xs)
  obtain a g1 as1 where x: "ffi_call x g = Done (a, g1)" and xs: "run_events ffi_step xs g1 = Some (as1, g')"
    using Cons.prems(1) by (rule ffi_run_Cons)
  have ne: "x \<noteq> CallPeekRelease v" using Cons.prems(4) by simp
  note s = view_step [OF Cons.prems(2,3) x ne]
  have "capi_ok g1" using ffi_call_safe [OF Cons.prems(2) x] by (simp add: safe_step_def)
  from Cons.IH [OF xs this s(1)] Cons.prems(4) s(2) show ?case by simp
qed simp

lemma message_run:
  assumes "run_events ffi_step xs g = Some (as, g')" and "fetch g v = Some (LmqMessageT m)"
    and "list_all (\<lambda>x. x \<noteq> CallMessageDestroy v) xs"
  shows "fetch g' v = Some (LmqMessageT m)"
  using assms
proof (induction xs arbitrary: g as)
  case (Cons x xs)
  obtain a g1 as1 where x: "ffi_call x g = Done (a, g1)" and xs: "run_events ffi_step xs g1 = Some (as1, g')"
    using Cons.prems(1) by (rule ffi_run_Cons)
  have "x \<noteq> CallMessageDestroy v" using Cons.prems(3) by simp
  from Cons.IH [OF xs message_kept [OF x Cons.prems(2) this]] Cons.prems(3) show ?case by simp
qed simp

text \<open>
  C22: The bytes behind a view stay. When \<open>lmq_message_peek\<close> has given the client a view, then whatever
  other calls return in between (pushes, \<open>try_next\<close> of any consumer, claims through other handles of
  the same message, destroying queues and consumers, automatic drops), the bytes are unchanged as
  long as neither the view is released nor the message destroyed.
\<close>

theorem peek_view_stable:
  assumes "run_events ffi_step before (capi_start ad) = Some (as, g)"
    and "ffi_call (CallPeek m) g = Done (AnswerBytes v (Some bytes), g1)"
    and "run_events ffi_step meanwhile g1 = Some (as1, g2)"
    and "list_all (\<lambda>x. x \<noteq> CallPeekRelease v) meanwhile"
    and "list_all (\<lambda>x. x \<noteq> CallMessageDestroy m) meanwhile"
  shows "view_bytes g2 v = Some bytes"
proof -
  have ok: "capi_ok g" using ffi_run_ok [OF assms(1) capi_ok_start] .
  then have ok1: "capi_ok g1" using ffi_call_safe [OF ok assms(2)] by (simp add: safe_step_def)
  from assms(2) obtain msg where msg: "fetch g m = Some (LmqMessageT msg)"
    by (auto simp: ffi_map_Done ffi_lmq_message_peek_def split: option.splits lmq_box.splits)
  then obtain v' where "read_message (c_store g) msg = Some bytes"
    and v': "into_raw (LmqMessageRefT m (payload_ref msg)) g = (v', g1)" "v' = v"
    using assms(2) by (auto simp: ffi_map_Done ffi_lmq_message_peek_def split: option.splits prod.splits)
  then have bytes: "payloads (c_store g) (payload_ref msg) = Some bytes"
    by (auto simp: read_message_def split: option.splits)
  have v: "fetch g1 v = Some (LmqMessageRefT m (payload_ref msg))" "c_store g1 = c_store g"
    "fetch g1 m = Some (LmqMessageT msg)"
    using fetch_into_raw [OF v'(1)] v'(2) msg by auto
  from view_run [OF assms(3) ok1 v(1) assms(4)] message_run [OF assms(3) v(3) assms(5)] bytes v(2)
  show ?thesis by (simp add: view_bytes_def)
qed

theorem peek_view_stable_witness:
  "\<exists>as g g1 as1 g2. run_events ffi_step [CallNew, CallConsumerNew 1 7, CallPush 1 (Some [9]), CallTryNext 2]
      (capi_start True) = Some (as, g) \<and>
    ffi_call (CallPeek 3) g = Done (AnswerBytes 4 (Some [9]), g1) \<and>
    run_events ffi_step [CallPush 1 (Some [8]), CallDestroy 1] g1 = Some (as1, g2) \<and>
    view_bytes g2 4 = Some [9]"
proof -
  have "\<exists>as g g1 as1 g2. run_events ffi_step [CallNew, CallConsumerNew 1 7, CallPush 1 (Some [9]), CallTryNext 2]
      (capi_start True) = Some (as, g) \<and>
    ffi_call (CallPeek 3) g = Done (AnswerBytes 4 (Some [9]), g1) \<and>
    run_events ffi_step [CallPush 1 (Some [8]), CallDestroy 1] g1 = Some (as1, g2)"
    by (simp add: capi_eval)
  moreover have "list_all (\<lambda>x. x \<noteq> CallPeekRelease 4) [CallPush 1 (Some [8]), CallDestroy 1]"
    "list_all (\<lambda>x. x \<noteq> CallMessageDestroy 3) [CallPush 1 (Some [8]), CallDestroy 1]" by simp_all
  ultimately show ?thesis using peek_view_stable by blast
qed

text \<open>
  C30: A view blocks its consumer until it is released. While the client holds a view on the message a
  consumer stands on, \<open>try_next\<close> and \<open>wait\<close> of that consumer do not return, whatever other calls the
  client makes, as long as it does not release the view (or destroy the consumer). Destroying the
  message does not help, although \<^verbatim>\<open>lmq.h\<close> lists it among the ways to unblock.
\<close>

theorem view_blocks_until_release:
  assumes "run_events ffi_step before (capi_start ad) = Some (as, g)"
    and "fetch g v = Some (LmqMessageRefT m r)"
    and "fetch g p = Some (LmqConsumerT c)" and "current_cell c (c_store g) = r"
    and "run_events ffi_step meanwhile g = Some (as1, g1)"
    and "list_all (\<lambda>x. x \<noteq> CallPeekRelease v) meanwhile"
    and "list_all (\<lambda>x. x \<noteq> CallConsumerDestroy p) meanwhile"
  shows "ffi_call (CallTryNext p) g1 = NoReturn \<and> ffi_call (CallWait p) g1 = NoReturn"
proof -
  have "capi_ok g" using ffi_run_ok [OF assms(1) capi_ok_start] .
  with assms(2-7) have "fetch g1 v = Some (LmqMessageRefT m r) \<and> fetch g1 p = Some (LmqConsumerT c) \<and>
      current_cell c (c_store g1) = r"
  proof (induction meanwhile arbitrary: g as1)
    case (Cons x xs)
    obtain a g2 as2 where x: "ffi_call x g = Done (a, g2)" and xs: "run_events ffi_step xs g2 = Some (as2, g1)"
      using Cons.prems(4) by (rule ffi_run_Cons)
    have ne: "x \<noteq> CallPeekRelease v" "x \<noteq> CallConsumerDestroy p" using Cons.prems(5,6) by simp_all
    note ok = Cons.prems(7)
    note s = view_step [OF ok Cons.prems(1) x ne(1)]
    have "viewed g (current_cell c (c_store g))" using Cons.prems(1,3) by (auto simp: viewed_iff)
    note p = blocked_kept [OF x Cons.prems(2) this ne(2)]
    have "mc_current c < node_count (c_store g)"
      using capi_ok_box [OF ok Cons.prems(2)] by (auto simp: consumer_ok_def)
    with s(3) Cons.prems(3) have "current_cell c (c_store g2) = r" by (simp add: current_cell_def)
    moreover have "capi_ok g2" using ffi_call_safe [OF ok x] by (simp add: safe_step_def)
    ultimately show ?case using Cons.IH [OF s(1) p _ xs] Cons.prems(5,6) by simp
  qed simp
  then have "viewed g1 (current_cell c (c_store g1))" "fetch g1 p = Some (LmqConsumerT c)"
    by (auto simp: viewed_iff)
  then show ?thesis
    by (simp_all add: ffi_lmq_consumer_try_next_def ffi_lmq_consumer_wait_def)
qed

theorem view_blocks_until_release_witness:
  "\<exists>as g as1 g1. run_events ffi_step [CallNew, CallConsumerNew 1 7, CallPush 1 (Some [9]), CallTryNext 2, CallPeek 3]
      (capi_start True) = Some (as, g) \<and>
    run_events ffi_step [CallMessageDestroy 3, CallPush 1 (Some [8])] g = Some (as1, g1) \<and>
    ffi_call (CallTryNext 2) g1 = NoReturn"
proof -
  have "\<exists>as g m r c as1 g1. run_events ffi_step [CallNew, CallConsumerNew 1 7, CallPush 1 (Some [9]), CallTryNext 2, CallPeek 3]
      (capi_start True) = Some (as, g) \<and>
    fetch g 4 = Some (LmqMessageRefT m r) \<and> fetch g 2 = Some (LmqConsumerT c) \<and> current_cell c (c_store g) = r \<and>
    run_events ffi_step [CallMessageDestroy 3, CallPush 1 (Some [8])] g = Some (as1, g1)"
    by (simp add: capi_eval)
  moreover have "list_all (\<lambda>x. x \<noteq> CallPeekRelease 4) [CallMessageDestroy 3, CallPush 1 (Some [8])]"
    "list_all (\<lambda>x. x \<noteq> CallConsumerDestroy 2) [CallMessageDestroy 3, CallPush 1 (Some [8])]" by simp_all
  ultimately show ?thesis using view_blocks_until_release by blast
qed

end
