(* ===== verification/Lmq_Handlers.thy ===== *)
theory Lmq_Handlers
  imports Lmq_Broadcast
begin

text \<open>
  The message handlers of the C interface (\<^verbatim>\<open>lmq-capi/src/lmq_tokio.rs\<close>): the registry
  \<open>LMQ_WAIT_TASKS\<close> with its lock, the tasks that call back for every message of a consumer, and the
  calls that register, resume and deregister them. One client thread makes the calls; the worker
  threads of the runtime poll the tasks. A step is what a thread does between two points at which
  another may run: a lock that is taken, a channel that is full, a task that is awaited.
\<close>

section \<open>Callback identifiers\<close>

text \<open>\<open>NEXT_CALLBACK_ID\<close> is fetched and incremented; the arithmetic of \<open>AtomicU64\<close> wraps.\<close>

definition get_next_callback_id :: "u64 \<Rightarrow> u64 \<times> u64" where
  "get_next_callback_id next =
     (let i = next; next = next + 1 in if i = 0 then (next, next + 1) else (i, next))"

section \<open>Data\<close>

datatype lmq_action = LMQ_ACTION_CONTINUE | LMQ_ACTION_PAUSE | LMQ_ACTION_DEREGISTER

text \<open>
  A callback on its user data and a message or \<open>NULL\<close>: its answer, whether it claims the message
  (\<open>lmq_message_claim\<close>) before it answers, and the user data it leaves.
\<close>

type_synonym 'u lmq_msg_callback = "'u \<Rightarrow> byte list option \<Rightarrow> lmq_action \<times> bool \<times> 'u"

datatype lmq_resume_mode = LMQ_RESUME_WAIT | LMQ_RESUME_TRY

text \<open>\<open>From<c_int>\<close>: \<open>None\<close> is the panic, which aborts the process at the C boundary.\<close>

definition lmq_resume_mode_from :: "int \<Rightarrow> lmq_resume_mode option" where
  "lmq_resume_mode_from v =
     (if v = 0 then Some LMQ_RESUME_WAIT else if v = 1 then Some LMQ_RESUME_TRY else None)"

text \<open>
  Where a task stands: waiting for a resume signal, at the top of its loop, in \<open>deregister_handler\<close>
  before it has the lock, or finished.
\<close>

datatype task_phase = Paused | Looking lmq_resume_mode | Deregistering | Finished

text \<open>
  A task: the runtime it was spawned on, the consumer it uses, the callback with its user data, the
  channel of capacity 1 and whether its sender is alive. An idle task waits to be polled or woken; a
  cancelled one ends when it is idle or would wait.
\<close>

record 'u handler_task =
  task_id :: u64
  task_runtime :: nat
  task_consumer :: nat
  task_callback :: "'u lmq_msg_callback"
  task_user :: 'u
  task_phase :: task_phase
  task_signal :: "lmq_resume_mode option"
  task_sender :: bool
  task_idle :: bool
  task_cancelled :: bool
  task_panicked :: bool

text \<open>
  What the client thread is doing. \<open>Sending\<close>, \<open>Awaiting\<close> and \<open>DroppingRuntime\<close> hold the lock of the
  registry.
\<close>

datatype client_phase =
    Idle
  | Inserting u64 nat
  | Sending nat lmq_resume_mode
  | Awaiting nat
  | DroppingRuntime nat bool
  | Aborted

text \<open>
  \<open>h_runtime\<close> is \<open>TOKIO_RT\<close>, \<open>h_runtimes\<close> counts the runtimes built; \<open>h_calls\<close> lists the calls of
  callbacks: the consumer, and the payload of the message or \<open>NULL\<close>. \<open>h_drop_panics\<close> says whether
  dropping a runtime on one of its own worker threads panics.
\<close>

record 'u handlers =
  h_sys :: lmq_system
  h_next_id :: u64
  h_runtime :: "nat option"
  h_runtimes :: nat
  h_drop_panics :: bool
  h_tasks_of :: "nat hmap"
  h_locked :: bool
  h_tasks :: "'u handler_task list"
  h_client :: client_phase
  h_calls :: "(nat \<times> byte list option) list"

text \<open>\<open>HClaim\<close>: the client claims a message that a callback kept.\<close>

datatype 'u handler_op =
    HPush "byte list"
  | HRegister nat "'u lmq_msg_callback" bool 'u
  | HInsert
  | HResume u64 int
  | HSend
  | HDeregister u64
  | HAwaited
  | HRuntimeGone
  | HPoll nat
  | HClaim nat

datatype handler_event =
    HSilent | HRegistered u64 | HResumed int | HDeregistered bool | HAborts

section \<open>The calls of the client thread\<close>

definition set_task :: "nat \<Rightarrow> ('u handler_task \<Rightarrow> 'u handler_task) \<Rightarrow> 'u handlers \<Rightarrow> 'u handlers" where
  "set_task k f g = g\<lparr>h_tasks := (h_tasks g)[k := f (h_tasks g ! k)]\<rparr>"

text \<open>Shutting a runtime down cancels its tasks.\<close>

definition cancel_runtime :: "nat \<Rightarrow> 'u handlers \<Rightarrow> 'u handlers" where
  "cancel_runtime r g =
     g\<lparr>h_tasks := map (\<lambda>t. if task_runtime t = r then t\<lparr>task_cancelled := True\<rparr> else t) (h_tasks g)\<rparr>"

definition get_or_insert_runtime :: "'u handlers \<Rightarrow> nat \<times> 'u handlers" where
  "get_or_insert_runtime g =
     (case h_runtime g of
        Some r \<Rightarrow> (r, g)
      | None \<Rightarrow> (h_runtimes g, g\<lparr>h_runtime := Some (h_runtimes g), h_runtimes := Suc (h_runtimes g)\<rparr>))"

text \<open>
  \<open>lmq_register_handler\<close> up to \<open>rt.spawn\<close>, and its insertion into the registry. The task may run in
  between.
\<close>

definition lmq_register_handler ::
  "nat \<Rightarrow> 'u lmq_msg_callback \<Rightarrow> bool \<Rightarrow> 'u \<Rightarrow> 'u handlers \<Rightarrow> 'u handlers" where
  "lmq_register_handler consumer callback start_paused user_data g =
     (let (callback_id, next) = get_next_callback_id (h_next_id g);
          (rt, g) = get_or_insert_runtime g;
          task = \<lparr>task_id = callback_id, task_runtime = rt, task_consumer = consumer,
                  task_callback = callback, task_user = user_data,
                  task_phase = (if start_paused then Paused else Looking LMQ_RESUME_WAIT),
                  task_signal = None, task_sender = True, task_idle = True, task_cancelled = False,
                  task_panicked = False\<rparr>
      in g\<lparr>h_next_id := next, h_tasks := h_tasks g @ [task],
           h_client := Inserting callback_id (length (h_tasks g))\<rparr>)"

definition insert_handler :: "u64 \<Rightarrow> nat \<Rightarrow> 'u handlers \<Rightarrow> handler_event \<times> 'u handlers" where
  "insert_handler callback_id k g =
     (if map_of (h_tasks_of g) callback_id \<noteq> None then (HAborts, g\<lparr>h_client := Aborted\<rparr>)
      else (HRegistered callback_id,
            g\<lparr>h_tasks_of := hm_insert callback_id k (h_tasks_of g), h_client := Idle\<rparr>))"

text \<open>\<open>blocking_send\<close> into the channel of capacity 1, with the lock of the registry held.\<close>

definition blocking_send :: "nat \<Rightarrow> lmq_resume_mode \<Rightarrow> 'u handlers \<Rightarrow> handler_event \<times> 'u handlers" where
  "blocking_send k mode g =
     (if task_phase (h_tasks g ! k) = Finished then (HResumed (-1), g\<lparr>h_locked := False, h_client := Idle\<rparr>)
      else if task_signal (h_tasks g ! k) = None then
        (HResumed 0, (set_task k (\<lambda>t. t\<lparr>task_signal := Some mode\<rparr>) g)\<lparr>h_locked := False, h_client := Idle\<rparr>)
      else (HSilent, g\<lparr>h_locked := True, h_client := Sending k mode\<rparr>))"

definition lmq_resume_handler :: "u64 \<Rightarrow> int \<Rightarrow> 'u handlers \<Rightarrow> handler_event \<times> 'u handlers" where
  "lmq_resume_handler callback_id no_block g =
     (case map_of (h_tasks_of g) callback_id of
        Some k \<Rightarrow>
          (case lmq_resume_mode_from no_block of
             Some mode \<Rightarrow> blocking_send k mode g
           | None \<Rightarrow> (HAborts, g\<lparr>h_client := Aborted\<rparr>))
      | None \<Rightarrow> (HResumed (-1), g))"

text \<open>
  \<open>deregister_handler\<close> with \<open>abort\<close>: the entry goes, the task is cancelled and awaited; then the
  runtime is dropped when nothing is registered, which waits for its tasks.
\<close>

definition check_shutdown :: "bool \<Rightarrow> 'u handlers \<Rightarrow> handler_event \<times> 'u handlers" where
  "check_shutdown found g =
     (case (h_tasks_of g, h_runtime g) of
        ([], Some r) \<Rightarrow>
          (HSilent, (cancel_runtime r g)\<lparr>h_runtime := None, h_locked := True, h_client := DroppingRuntime r found\<rparr>)
      | _ \<Rightarrow> (HDeregistered found, g\<lparr>h_locked := False, h_client := Idle\<rparr>))"

definition lmq_deregister_handler :: "u64 \<Rightarrow> 'u handlers \<Rightarrow> handler_event \<times> 'u handlers" where
  "lmq_deregister_handler callback_id g =
     (let (rt, g) = get_or_insert_runtime g in
      case map_of (h_tasks_of g) callback_id of
        Some k \<Rightarrow>
          (HSilent,
           (set_task k (\<lambda>t. t\<lparr>task_cancelled := True\<rparr>) g)
             \<lparr>h_tasks_of := hm_remove callback_id (h_tasks_of g), h_locked := True, h_client := Awaiting k\<rparr>)
      | None \<Rightarrow> check_shutdown False g)"

text \<open>\<open>abort_handler_backend\<close> once the task has ended: a panic of the task aborts the process.\<close>

definition abort_handler_backend :: "nat \<Rightarrow> 'u handlers \<Rightarrow> handler_event \<times> 'u handlers" where
  "abort_handler_backend k g =
     (if task_panicked (h_tasks g ! k) then (HAborts, g\<lparr>h_client := Aborted\<rparr>)
      else check_shutdown True (set_task k (\<lambda>t. t\<lparr>task_sender := False\<rparr>) g))"

section \<open>A task\<close>

text \<open>\<open>deregister_handler\<close> from the task itself: no abort; the runtime is dropped from within.\<close>

definition deregister_self :: "nat \<Rightarrow> 'u handlers \<Rightarrow> 'u handlers" where
  "deregister_self k g =
     (let g = g\<lparr>h_tasks_of := hm_remove (task_id (h_tasks g ! k)) (h_tasks_of g)\<rparr> in
      case (h_tasks_of g, h_runtime g) of
        ([], Some r) \<Rightarrow>
          set_task k (\<lambda>t. t\<lparr>task_phase := Finished, task_panicked := h_drop_panics g\<rparr>)
            ((cancel_runtime r g)\<lparr>h_runtime := None\<rparr>)
      | _ \<Rightarrow> set_task k (\<lambda>t. t\<lparr>task_phase := Finished\<rparr>) g)"

text \<open>The message that was delivered last is claimed.\<close>

definition claim_newest :: "lmq_system \<Rightarrow> lmq_system" where
  "claim_newest y = y\<lparr>sy_store := snd (claim (last (sy_held y)) (sy_store y))\<rparr>"

text \<open>The callback and what follows from its answer. Without a message there is nothing to claim.\<close>

definition call_back :: "nat \<Rightarrow> lmq_resume_mode \<Rightarrow> byte list option \<Rightarrow> 'u handlers \<Rightarrow> 'u handlers" where
  "call_back k mode message g =
     (let t = h_tasks g ! k;
          (action, claims, user) = task_callback t (task_user t) message;
          g = g\<lparr>h_calls := h_calls g @ [(task_consumer t, message)],
                h_sys := (if claims \<and> message \<noteq> None then claim_newest (h_sys g) else h_sys g)\<rparr>
      in set_task k (\<lambda>t. t\<lparr>task_user := user, task_phase :=
            (case action of
               LMQ_ACTION_CONTINUE \<Rightarrow> Looking mode
             | LMQ_ACTION_PAUSE \<Rightarrow> Paused
             | LMQ_ACTION_DEREGISTER \<Rightarrow> Deregistering)\<rparr>) g)"

text \<open>
  One turn of task \<open>k\<close>: up to its next callback or to a point where it waits. \<open>None\<close> when it can do
  nothing. A task that would wait ends instead when it is cancelled, or when its sender is gone.
\<close>

definition would_wait :: "nat \<Rightarrow> 'u handlers \<Rightarrow> 'u handlers" where
  "would_wait k =
     set_task k (\<lambda>t. if task_cancelled t then t\<lparr>task_phase := Finished\<rparr> else t\<lparr>task_idle := True\<rparr>)"

definition handler_turn :: "nat \<Rightarrow> 'u handlers \<Rightarrow> 'u handlers option" where
  "handler_turn k g =
     (let t = h_tasks g ! k; finish = set_task k (\<lambda>t. t\<lparr>task_phase := Finished\<rparr>) in
      if task_phase t = Finished then None
      else if task_cancelled t \<and> task_idle t then Some (finish g)
      else
        (let g = set_task k (\<lambda>t. t\<lparr>task_idle := False\<rparr>) g in
         case task_phase t of
           Paused \<Rightarrow>
             (case task_signal t of
                Some mode \<Rightarrow> Some (set_task k (\<lambda>t. t\<lparr>task_signal := None, task_phase := Looking mode\<rparr>) g)
              | None \<Rightarrow> if \<not> task_sender t then Some (finish g) else Some (would_wait k g))
         | Looking mode \<Rightarrow>
             (case sys_step (TryNext (task_consumer t)) (h_sys g) of
                Some (Delivered _ message, y) \<Rightarrow> Some (call_back k mode message (g\<lparr>h_sys := y\<rparr>))
              | Some (Nothing _, y) \<Rightarrow>
                  (case mode of
                     LMQ_RESUME_TRY \<Rightarrow> Some (call_back k mode None (g\<lparr>h_sys := y\<rparr>))
                   | LMQ_RESUME_WAIT \<Rightarrow> Some (would_wait k (g\<lparr>h_sys := y\<rparr>)))
              | _ \<Rightarrow> None)
         | Deregistering \<Rightarrow> if h_locked g then None else Some (deregister_self k g)
         | Finished \<Rightarrow> None))"

section \<open>The system\<close>

fun handler_step :: "'u handler_op \<Rightarrow> 'u handlers \<Rightarrow> (handler_event \<times> 'u handlers) option" where
  "handler_step (HPush v) g =
     (if h_client g = Idle then
        (case sys_step (Push v) (h_sys g) of
           Some (_, y) \<Rightarrow> Some (HSilent, g\<lparr>h_sys := y\<rparr>)
         | None \<Rightarrow> None)
      else None)"
| "handler_step (HRegister i cb p u) g =
     (if h_client g = Idle then Some (HSilent, lmq_register_handler i cb p u g) else None)"
| "handler_step HInsert g =
     (case h_client g of
        Inserting callback_id k \<Rightarrow> if h_locked g then None else Some (insert_handler callback_id k g)
      | _ \<Rightarrow> None)"
| "handler_step (HResume callback_id no_block) g =
     (if h_client g = Idle \<and> \<not> h_locked g then Some (lmq_resume_handler callback_id no_block g) else None)"
| "handler_step HSend g =
     (case h_client g of
        Sending k mode \<Rightarrow>
          if task_phase (h_tasks g ! k) = Finished \<or> task_signal (h_tasks g ! k) = None
          then Some (blocking_send k mode g) else None
      | _ \<Rightarrow> None)"
| "handler_step (HDeregister callback_id) g =
     (if h_client g = Idle \<and> \<not> h_locked g then Some (lmq_deregister_handler callback_id g) else None)"
| "handler_step HAwaited g =
     (case h_client g of
        Awaiting k \<Rightarrow>
          if task_phase (h_tasks g ! k) = Finished then Some (abort_handler_backend k g) else None
      | _ \<Rightarrow> None)"
| "handler_step HRuntimeGone g =
     (case h_client g of
        DroppingRuntime r found \<Rightarrow>
          if list_all (\<lambda>t. task_runtime t = r \<longrightarrow> task_phase t = Finished) (h_tasks g)
          then Some (HDeregistered found, g\<lparr>h_locked := False, h_client := Idle\<rparr>)
          else None
      | _ \<Rightarrow> None)"
| "handler_step (HPoll k) g =
     (if k < length (h_tasks g) then map_option (Pair HSilent) (handler_turn k g) else None)"
| "handler_step (HClaim m) g =
     (if h_client g = Idle then
        (case sys_step (Claim m) (h_sys g) of
           Some (_, y) \<Rightarrow> Some (HSilent, g\<lparr>h_sys := y\<rparr>)
         | None \<Rightarrow> None)
      else None)"

definition handlers_start :: "bool \<Rightarrow> lmq_system \<Rightarrow> 'u handlers" where
  "handlers_start panics y =
     \<lparr>h_sys = y, h_next_id = 1, h_runtime = None, h_runtimes = 0, h_drop_panics = panics, h_tasks_of = [], h_locked = False, h_tasks = [],
      h_client = Idle, h_calls = []\<rparr>"

end
