(* ===== verification/Lmq_Handlers_Props.thy ===== *)
theory Lmq_Handlers_Props
  imports Lmq_Handlers Lmq_Broadcast_Props "HOL-Library.Sublist"
begin

text \<open>
  The properties of the message handlers: identifiers, what the callbacks receive, and two ways in
  which deregistering goes wrong.
\<close>

section \<open>Identifiers\<close>

fun callback_ids :: "nat \<Rightarrow> u64 \<Rightarrow> u64 list" where
  "callback_ids 0 next = []"
| "callback_ids (Suc k) next =
     (let (callback_id, next) = get_next_callback_id next in callback_id # callback_ids k next)"

lemma unat_word_of_nat: "m < 2 ^ 64 \<Longrightarrow> unat (word_of_nat m :: u64) = m"
  by (simp add: unsigned_of_nat take_bit_nat_eq_self)

text \<open>The identifiers run through \<open>1\<close> to \<open>2 ^ 64 - 1\<close> in a circle.\<close>

definition nth_id :: "nat \<Rightarrow> u64" where
  "nth_id m = word_of_nat (m mod (2 ^ 64 - 1) + 1)"

lemma unat_nth_id: "unat (nth_id m) = m mod (2 ^ 64 - 1) + 1"
proof -
  have "m mod (2 ^ 64 - 1) < 2 ^ 64 - 1" by (rule mod_less_divisor) simp
  then show ?thesis unfolding nth_id_def by (intro unat_word_of_nat) simp
qed

lemma nth_id_neq_0: "nth_id m \<noteq> 0"
  using unat_nth_id [of m] by (metis Suc_eq_plus1 nat.distinct(1) unat_0)

lemma nth_id_Suc: "nth_id (Suc m) = (if nth_id m + 1 = 0 then 1 else nth_id m + 1)"
proof -
  let ?M = "2 ^ 64 - 1 :: nat"
  have lt: "m mod ?M < ?M" by (rule mod_less_divisor) simp
  have sum: "nth_id m + 1 = word_of_nat (m mod ?M + 2)" by (simp add: nth_id_def)
  show ?thesis
  proof (cases "m mod ?M = ?M - 1")
    case True
    then have "Suc m mod ?M = 0" by (simp add: mod_Suc)
    moreover have "nth_id m + 1 = 0" unfolding sum True by simp
    ultimately show ?thesis by (simp add: nth_id_def)
  next
    case False
    then have "Suc m mod ?M = Suc (m mod ?M)" using lt by (auto simp: mod_Suc)
    moreover have "nth_id m + 1 \<noteq> 0"
    proof
      assume "nth_id m + 1 = 0"
      moreover have "m mod ?M + 2 < 2 ^ 64" using lt False by simp
      ultimately have "m mod ?M + 2 = 0"
        unfolding sum by (metis unat_0 unat_word_of_nat)
      then show False by simp
    qed
    ultimately show ?thesis unfolding sum by (simp add: nth_id_def)
  qed
qed

definition first_id :: "u64 \<Rightarrow> u64" where
  "first_id next = (if next = 0 then 1 else next)"

lemma get_next_nth:
  assumes "first_id next = nth_id m"
  shows "fst (get_next_callback_id next) = nth_id m" and "first_id (snd (get_next_callback_id next)) = nth_id (Suc m)"
  using assms by (auto simp: get_next_callback_id_def first_id_def nth_id_Suc Let_def split: if_splits)

lemma callback_ids_nth: "first_id next = nth_id m \<Longrightarrow> callback_ids k next = map nth_id [m..<m + k]"
proof (induction k arbitrary: m "next")
  case (Suc k)
  have "[m..<m + Suc k] = m # [Suc m..<Suc m + k]" by (simp add: upt_conv_Cons)
  with Suc.IH [OF get_next_nth(2) [OF Suc.prems]] get_next_nth(1) [OF Suc.prems] show ?case
    by (simp add: Let_def split_def)
qed simp

lemma nth_id_inj: "nth_id a = nth_id b \<Longrightarrow> a \<le> b \<Longrightarrow> b < a + (2 ^ 64 - 1) \<Longrightarrow> a = b"
proof -
  assume eq: "nth_id a = nth_id b" and le: "a \<le> b" "b < a + (2 ^ 64 - 1)"
  have "a mod (2 ^ 64 - 1) = b mod (2 ^ 64 - 1)"
    using arg_cong [OF eq, of unat] unfolding unat_nth_id by simp
  then have "(2 ^ 64 - 1) dvd (b - a)" using le(1) by (metis mod_eq_dvd_iff_nat)
  moreover have "b - a < 2 ^ 64 - 1" using le by linarith
  ultimately have "b - a = 0" by (metis dvd_imp_le linorder_not_less neq0_conv)
  with le(1) show "a = b" by simp
qed

text \<open>
  C35: A callback identifier is never \<open>0\<close>, and no identifier is given out twice within \<open>2 ^ 64 - 1\<close>
  consecutive calls, wherever the wrapping counter stands.
\<close>

theorem callback_ids_unique:
  assumes "k < 2 ^ 64"
  shows "distinct (callback_ids k next) \<and> 0 \<notin> set (callback_ids k next)"
proof -
  have pos: "0 < unat (first_id next)" by (auto simp: first_id_def unat_gt_0)
  have "unat (first_id next) < 2 ^ 64" using unsigned_less [of "first_id next"] by simp
  then have "(unat (first_id next) - 1) mod (2 ^ 64 - 1) = unat (first_id next) - 1"
    using pos by (intro mod_less) linarith
  then have "unat (nth_id (unat (first_id next) - 1)) = unat (first_id next)"
    using pos unfolding unat_nth_id by simp
  then have start: "first_id next = nth_id (unat (first_id next) - 1)" by (simp add: word_unat_eq_iff)
  let ?m = "unat (first_id next) - 1"
  have "inj_on nth_id (set [?m..<?m + k])"
  proof (rule inj_onI)
    fix a b assume "a \<in> set [?m..<?m + k]" "b \<in> set [?m..<?m + k]" and eq: "nth_id a = nth_id b"
    then have "b < a + (2 ^ 64 - 1)" "a < b + (2 ^ 64 - 1)" using assms by auto
    then show "a = b" using nth_id_inj [OF eq] nth_id_inj [OF eq [symmetric]] by linarith
  qed
  with callback_ids_nth [OF start, of k] show ?thesis by (auto simp: distinct_map nth_id_neq_0 [symmetric])
qed

theorem callback_ids_unique_witness:
  "distinct (callback_ids 3 (- 2)) \<and> 0 \<notin> set (callback_ids 3 (- 2)) \<and> callback_ids 3 (- 2) = [- 2, - 1, 1]"
  using callback_ids_unique [of 3 "- 2"] by (simp add: get_next_callback_id_def Let_def numeral_3_eq_3)

section \<open>A lock held for a task that needs it\<close>

text \<open>
  The client holds the lock of the registry and waits for task \<open>k\<close>, which waits for that lock.
\<close>

definition deadlocked :: "nat \<Rightarrow> 'u handlers \<Rightarrow> bool" where
  "deadlocked k g \<longleftrightarrow>
     h_locked g \<and> k < length (h_tasks g) \<and> task_phase (h_tasks g ! k) = Deregistering \<and>
     \<not> task_idle (h_tasks g ! k) \<and>
     (h_client g = Awaiting k \<or> (\<exists>mode. h_client g = Sending k mode \<and> task_signal (h_tasks g ! k) \<noteq> None))"

lemma set_task_simps [simp]:
  "h_locked (set_task j f g) = h_locked g" "h_client (set_task j f g) = h_client g"
  "length (h_tasks (set_task j f g)) = length (h_tasks g)" "h_sys (set_task j f g) = h_sys g"
  "h_calls (set_task j f g) = h_calls g"
  "j \<noteq> k \<Longrightarrow> h_tasks (set_task j f g) ! k = h_tasks g ! k"
  "k < length (h_tasks g) \<Longrightarrow> h_tasks (set_task k f g) ! k = f (h_tasks g ! k)"
  by (simp_all add: set_task_def)

lemma call_back_simps [simp]:
  "h_locked (call_back j mode m g) = h_locked g" "h_client (call_back j mode m g) = h_client g"
  "length (h_tasks (call_back j mode m g)) = length (h_tasks g)"
  "h_calls (call_back j mode m g) = h_calls g @ [(task_consumer (h_tasks g ! j), m)]"
  "j \<noteq> k \<Longrightarrow> h_tasks (call_back j mode m g) ! k = h_tasks g ! k"
  by (simp_all add: call_back_def Let_def split_def set_task_def)

lemma turn_frame:
  assumes "handler_turn j g = Some g'" and "h_locked g" and "j \<noteq> k"
  shows "h_locked g' \<and> h_client g' = h_client g \<and> length (h_tasks g') = length (h_tasks g) \<and>
    h_tasks g' ! k = h_tasks g ! k"
  using assms
  by (auto simp: handler_turn_def would_wait_def Let_def
      split: if_splits task_phase.splits option.splits lmq_event.splits lmq_resume_mode.splits)

lemma deadlock_step:
  assumes "deadlocked k g" and "handler_step x g = Some (ev, g')"
  shows "deadlocked k g' \<and> h_client g' = h_client g \<and> ev = HSilent"
proof (cases x)
  case (HPoll j)
  with assms(2) have turn: "handler_turn j g = Some g'" "ev = HSilent" by (auto split: if_splits)
  have "j \<noteq> k" using turn(1) assms(1) by (auto simp: handler_turn_def deadlocked_def set_task_def Let_def)
  from turn_frame [OF turn(1) _ this] assms(1) turn(2) show ?thesis by (auto simp: deadlocked_def)
qed (use assms in \<open>auto simp: deadlocked_def\<close>)

text \<open>
  C24: Deregistering can deadlock for ever. When the callback of a handler has answered
  \<open>LMQ_ACTION_DEREGISTER\<close> and its task is about to lock the registry, and the client thread calls
  \<open>lmq_deregister_handler\<close> for the same handler, then the client holds the lock while it awaits the
  task: from then on that call never returns, the task never ends and the lock is never released.
  The same happens when the client resumes a handler a second time (the first signal is still
  unread) whose callback answers \<open>LMQ_ACTION_DEREGISTER\<close>.
\<close>

theorem deregister_deadlock:
  assumes "k < length (h_tasks g)" and "task_phase (h_tasks g ! k) = Deregistering"
    and "\<not> task_idle (h_tasks g ! k)"
    and "h_client g = Idle" and "\<not> h_locked g" and "map_of (h_tasks_of g) callback_id = Some k"
    and "x = HDeregister callback_id \<or> (x = HResume callback_id no_block \<and>
      task_signal (h_tasks g ! k) \<noteq> None \<and> lmq_resume_mode_from no_block \<noteq> None)"
    and "run_events handler_step (x # xs) g = Some (evs, g')"
  shows "list_all (\<lambda>ev. ev = HSilent) evs \<and> h_locked g' \<and> h_client g' \<noteq> Idle \<and>
    task_phase (h_tasks g' ! k) = Deregistering \<and> handler_step (HPoll k) g' = None \<and>
    handler_step HAwaited g' = None \<and> handler_step HSend g' = None"
proof -
  have start: "deadlocked k g1 \<and> h_client g1 \<noteq> Idle \<and> ev = HSilent" if "handler_step x g = Some (ev, g1)" for ev g1
    using that assms(1-7)
    by (auto simp: lmq_deregister_handler_def get_or_insert_runtime_def lmq_resume_handler_def blocking_send_def
        set_task_def deadlocked_def Let_def split: option.splits)
  have run: "deadlocked k g2 \<and> h_client g2 = h_client g1 \<and> list_all (\<lambda>ev. ev = HSilent) evs"
    if "run_events handler_step xs g1 = Some (evs, g2)" "deadlocked k g1" for xs evs g1 g2
    using that
  proof (induction xs arbitrary: g1 evs)
    case (Cons x xs)
    then obtain ev g3 evs3 where step: "handler_step x g1 = Some (ev, g3)"
      and rest: "run_events handler_step xs g3 = Some (evs3, g2)" and evs: "evs = ev # evs3"
      by (auto split: option.splits simp del: handler_step.simps)
    from deadlock_step [OF Cons.prems(2) step] Cons.IH [OF rest] evs show ?case by simp
  qed simp
  from assms(8) obtain ev g1 evs1 where "handler_step x g = Some (ev, g1)"
    "run_events handler_step xs g1 = Some (evs1, g')" "evs = ev # evs1"
    by (auto split: option.splits simp del: handler_step.simps)
  with start run [of xs g1 evs1 g'] have "deadlocked k g'" "list_all (\<lambda>ev. ev = HSilent) evs"
    "h_client g' \<noteq> Idle" by auto
  then show ?thesis
    by (auto simp: deadlocked_def handler_turn_def set_task_def Let_def)
qed

lemmas handlers_eval = handlers_start_def lmq_register_handler_def get_next_callback_id_def
  get_or_insert_runtime_def insert_handler_def lmq_resume_handler_def lmq_resume_mode_from_def
  blocking_send_def check_shutdown_def lmq_deregister_handler_def abort_handler_backend_def
  deregister_self_def cancel_runtime_def call_back_def claim_newest_def would_wait_def handler_turn_def set_task_def
  lmq_eval

theorem deregister_deadlock_witness:
  "\<exists>g evs g'. map_option snd (run_events handler_step
      [HPush [1], HRegister 0 (\<lambda>u m. (LMQ_ACTION_DEREGISTER, False, u)) False (), HInsert,
       HRegister 1 (\<lambda>u m. (LMQ_ACTION_CONTINUE, True, u)) False (), HInsert, HPoll 0]
      (handlers_start True (case run_events sys_step (new_consumers [7, 8]) (sys_init True) of Some (_, y) \<Rightarrow> y))) =
    Some g \<and> run_events handler_step [HDeregister 1, HPoll 1] g = Some (evs, g') \<and>
    list_all (\<lambda>ev. ev = HSilent) evs \<and> h_locked g' \<and> handler_step (HPoll 0) g' = None"
proof -
  let ?run = "run_events handler_step
      [HPush [1], HRegister 0 (\<lambda>u m. (LMQ_ACTION_DEREGISTER, False, u)) False (), HInsert,
       HRegister 1 (\<lambda>u m. (LMQ_ACTION_CONTINUE, True, u)) False (), HInsert, HPoll 0]
      (handlers_start True (case run_events sys_step (new_consumers [7, 8]) (sys_init True) of Some (_, y) \<Rightarrow> y))"
  have "\<exists>g evs g'. map_option snd ?run = Some g \<and> 0 < length (h_tasks g) \<and>
      task_phase (h_tasks g ! 0) = Deregistering \<and> \<not> task_idle (h_tasks g ! 0) \<and> h_client g = Idle \<and>
      \<not> h_locked g \<and> map_of (h_tasks_of g) 1 = Some 0 \<and>
      run_events handler_step (HDeregister 1 # [HPoll 1]) g = Some (evs, g')"
    by (simp add: new_consumers_def handlers_eval)
  then obtain g evs g' where g: "map_option snd ?run = Some g" "0 < length (h_tasks g)"
      "task_phase (h_tasks g ! 0) = Deregistering" "\<not> task_idle (h_tasks g ! 0)" "h_client g = Idle"
      "\<not> h_locked g" "map_of (h_tasks_of g) 1 = Some 0"
    and run: "run_events handler_step (HDeregister 1 # [HPoll 1]) g = Some (evs, g')" by blast
  from deregister_deadlock [OF g(2-7) _ run] g(1) run show ?thesis by blast
qed

text \<open>
  C32: A process can abort in \<open>lmq_deregister_handler\<close> although its client keeps to \<^verbatim>\<open>lmq.h\<close>. Take any state
  in which the client thread is idle and no handler is registered, any consumer with a message
  available and any callback that answers it with \<open>LMQ_ACTION_DEREGISTER\<close>. If the task runs before
  \<open>lmq_register_handler\<close> has put it into the registry, it finds the registry empty and drops the runtime
  it runs on; where that panics (as it does in tokio, \<open>h_drop_panics\<close>), the task ends panicked. The entry of the dead task is then
  inserted and its identifier returned, and deregistering that identifier meets the panic and
  resumes it across the C boundary.
\<close>

theorem stale_registration_aborts:
  assumes "h_client g = Idle" and "\<not> h_locked g" and "h_tasks_of g = []" and "h_drop_panics g"
    and "get_next_callback_id (h_next_id g) = (callback_id, next)"
    and "sys_step (TryNext i) (h_sys g) = Some (Delivered j m, y)"
    and "fst (callback u m) = LMQ_ACTION_DEREGISTER"
  shows "\<exists>g'. run_events handler_step
      [HRegister i callback False u, HPoll (length (h_tasks g)), HPoll (length (h_tasks g)), HInsert,
       HDeregister callback_id, HAwaited] g =
      Some ([HSilent, HSilent, HSilent, HRegistered callback_id, HSilent, HAborts], g') \<and> h_client g' = Aborted"
  using assms
  by (cases "h_runtime g")
    (simp_all add: lmq_register_handler_def get_or_insert_runtime_def insert_handler_def
      lmq_deregister_handler_def abort_handler_backend_def deregister_self_def cancel_runtime_def call_back_def
      handler_turn_def set_task_def split_def Let_def hm_insert_def nth_append del: sys_step.simps)

theorem stale_registration_aborts_witness:
  "\<exists>g'. run_events handler_step
      ([HPush [1]] @ [HRegister 0 (\<lambda>u m. (LMQ_ACTION_DEREGISTER, True, u)) False (), HPoll 0, HPoll 0, HInsert,
       HDeregister 1, HAwaited]) (handlers_start True (one_consumer True 7)) =
      Some ([HSilent] @ [HSilent, HSilent, HSilent, HRegistered 1, HSilent, HAborts], g') \<and> h_client g' = Aborted"
proof -
  let ?start = "handlers_start True (one_consumer True 7) :: unit handlers"
  have "\<exists>g y. run_events handler_step [HPush [1]] ?start = Some ([HSilent], g) \<and> h_tasks g = [] \<and>
      h_client g = Idle \<and> \<not> h_locked g \<and> h_tasks_of g = [] \<and> h_drop_panics g \<and> h_next_id g = 1 \<and>
      sys_step (TryNext 0) (h_sys g) = Some (Delivered 0 (Some [1]), y)"
    by (simp add: one_consumer_def handlers_start_def lmq_eval)
  then obtain g y where g: "run_events handler_step [HPush [1]] ?start = Some ([HSilent], g)" "h_tasks g = []"
      "h_client g = Idle" "\<not> h_locked g" "h_tasks_of g = []" "h_drop_panics g" "h_next_id g = 1"
      "sys_step (TryNext 0) (h_sys g) = Some (Delivered 0 (Some [1]), y)" by blast
  let ?cb = "\<lambda>u m. (LMQ_ACTION_DEREGISTER, True, u) :: lmq_action \<times> bool \<times> unit"
  have "get_next_callback_id (h_next_id g) = (1, 2)" using g(7) by (simp add: get_next_callback_id_def Let_def)
  moreover have "fst (?cb () (Some [1])) = LMQ_ACTION_DEREGISTER" by simp
  ultimately obtain g' where "run_events handler_step [HRegister 0 ?cb False (), HPoll 0, HPoll 0, HInsert,
      HDeregister 1, HAwaited] g = Some ([HSilent, HSilent, HSilent, HRegistered 1, HSilent, HAborts], g')"
      "h_client g' = Aborted"
    using stale_registration_aborts [OF g(3-6) _ g(8), of 1 2 ?cb "()"] unfolding g(2) list.size by blast
  then show ?thesis by (auto simp only: run_events_append g(1) option.case prod.case)
qed

section \<open>What the callbacks receive\<close>

fun handler_pushes :: "'u handler_op list \<Rightarrow> byte list list" where
  "handler_pushes [] = []"
| "handler_pushes (HPush v # xs) = v # handler_pushes xs"
| "handler_pushes (_ # xs) = handler_pushes xs"

text \<open>The messages given to callbacks for consumer \<open>i\<close>.\<close>

fun received :: "nat \<Rightarrow> (nat \<times> byte list option) list \<Rightarrow> byte list list" where
  "received i [] = []"
| "received i ((j, Some v) # cs) = (if j = i then v # received i cs else received i cs)"
| "received i ((j, None) # cs) = received i cs"

lemma received_append: "received i (cs @ ds) = received i cs @ received i ds"
  by (induction i cs rule: received.induct) auto

text \<open>Nobody claims: neither a callback its message nor the client one that a callback kept.\<close>

definition never_claims :: "'u lmq_msg_callback \<Rightarrow> bool" where
  "never_claims callback \<longleftrightarrow> (\<forall>u m. \<not> fst (snd (callback u m)))"

fun leaves_messages :: "'u handler_op \<Rightarrow> bool" where
  "leaves_messages (HRegister i callback p u) = never_claims callback"
| "leaves_messages (HClaim m) = False"
| "leaves_messages _ = True"

definition callbacks :: "'u handlers \<Rightarrow> 'u lmq_msg_callback list" where
  "callbacks g = map task_callback (h_tasks g)"

lemma callbacks_set_task [simp]:
  "(\<And>t. task_callback (f t) = task_callback t) \<Longrightarrow> callbacks (set_task k f g) = callbacks g"
  by (cases "k < length (h_tasks g)")
    (simp_all add: callbacks_def set_task_def list_update_beyond map_update list_update_same_conv)

lemma callbacks_cancel [simp]: "callbacks (cancel_runtime r g) = callbacks g"
  by (simp add: callbacks_def cancel_runtime_def)

lemma callbacks_fields [simp]:
  "callbacks (g\<lparr>h_sys := y\<rparr>) = callbacks g" "callbacks (g\<lparr>h_runtime := r\<rparr>) = callbacks g"
  "callbacks (g\<lparr>h_runtimes := n\<rparr>) = callbacks g" "callbacks (g\<lparr>h_tasks_of := m\<rparr>) = callbacks g"
  "callbacks (g\<lparr>h_locked := b\<rparr>) = callbacks g" "callbacks (g\<lparr>h_client := c\<rparr>) = callbacks g"
  "callbacks (g\<lparr>h_calls := l\<rparr>) = callbacks g" "callbacks (g\<lparr>h_next_id := d\<rparr>) = callbacks g"
  "callbacks (g\<lparr>h_tasks := h_tasks h @ ts\<rparr>) = callbacks h @ map task_callback ts"
  by (simp_all add: callbacks_def)

definition serving :: "u64 list \<Rightarrow> byte list list \<Rightarrow> 'u handlers \<Rightarrow> bool" where
  "serving ids vs g \<longleftrightarrow>
     (\<exists>a. bcast_rel ids (h_sys g) a \<and> b_log a = vs \<and>
        (\<forall>i. received i (h_calls g) = (case position a i of None \<Rightarrow> [] | Some p \<Rightarrow> take p vs)))"

lemma idle_consumer [simp]:
  "task_consumer (ts[k := (ts ! k)\<lparr>task_idle := b\<rparr>] ! k) = task_consumer (ts ! k)"
  by (cases "k < length ts") (simp_all add: list_update_beyond)

lemma idle_callback [simp]:
  "task_callback (ts[k := (ts ! k)\<lparr>task_idle := b\<rparr>] ! k) = task_callback (ts ! k)"
  by (cases "k < length ts") (simp_all add: list_update_beyond)

lemma call_back_quiet:
  "never_claims (task_callback (h_tasks g ! k)) \<Longrightarrow> h_sys (call_back k mode m g) = h_sys g"
  by (simp add: call_back_def never_claims_def split_def Let_def)

text \<open>What a turn does to the queue and to the calls.\<close>

lemma turn_effect:
  assumes "handler_turn k g = Some g'" and "never_claims (task_callback (h_tasks g ! k))"
  defines "i \<equiv> task_consumer (h_tasks g ! k)"
  shows "(h_sys g' = h_sys g \<and> h_calls g' = h_calls g) \<or>
    (\<exists>j m. sys_step (TryNext i) (h_sys g) = Some (Delivered j m, h_sys g') \<and> h_calls g' = h_calls g @ [(i, m)]) \<or>
    (\<exists>j. sys_step (TryNext i) (h_sys g) = Some (Nothing j, h_sys g') \<and>
       (h_calls g' = h_calls g \<or> h_calls g' = h_calls g @ [(i, None)]))"
proof -
  have "h_calls (deregister_self k g) = h_calls g \<and> h_sys (deregister_self k g) = h_sys g" for g :: "'a handlers"
    by (auto simp: deregister_self_def cancel_runtime_def Let_def split: list.split option.split)
  then show ?thesis
    using assms
    by (auto simp: handler_turn_def would_wait_def Let_def set_task_def call_back_quiet split_def
        simp del: sys_step.simps
        split: if_splits task_phase.splits option.splits lmq_event.splits lmq_resume_mode.splits)
qed

lemma other_effect:
  assumes "handler_step x g = Some (ev, g')" and "leaves_messages x" and "\<And>k. x \<noteq> HPoll k" and "\<And>v. x \<noteq> HPush v"
  shows "h_sys g' = h_sys g \<and> h_calls g' = h_calls g"
  using assms
  by (cases x)
    (auto simp: lmq_register_handler_def get_or_insert_runtime_def insert_handler_def lmq_resume_handler_def
      blocking_send_def check_shutdown_def lmq_deregister_handler_def abort_handler_backend_def
      cancel_runtime_def Let_def split_def
      split: if_splits option.splits client_phase.splits list.splits)

lemma serving_push:
  assumes "serving ids vs g" and "handler_step (HPush v) g = Some (ev, g')"
  shows "serving ids (vs @ [v]) g'"
proof -
  from assms(1) obtain a where a: "bcast_rel ids (h_sys g) a" "b_log a = vs"
    "\<And>i. received i (h_calls g) = (case position a i of None \<Rightarrow> [] | Some p \<Rightarrow> take p vs)"
    by (auto simp: serving_def)
  let ?a = "a\<lparr>b_log := b_log a @ [v]\<rparr>"
  from bcast_push [OF a(1), of v] assms(2) have "bcast_rel ids (h_sys g') ?a" "h_calls g' = h_calls g"
    by (auto split: if_splits simp del: sys_step.simps)
  moreover have "received i (h_calls g) = (case position ?a i of None \<Rightarrow> [] | Some p \<Rightarrow> take p (vs @ [v]))" for i
    using a(3) [of i] position_le [OF a(1), of i] a(2) by (auto simp: position_def split: option.splits)
  ultimately show ?thesis using a(2) unfolding serving_def by (intro exI [of _ ?a]) simp
qed

lemma serving_turn:
  assumes "serving ids vs g" and "handler_turn k g = Some g'" and "never_claims (task_callback (h_tasks g ! k))"
  shows "serving ids vs g'"
proof -
  let ?i = "task_consumer (h_tasks g ! k)"
  from assms(1) obtain a where a: "bcast_rel ids (h_sys g) a" "b_log a = vs"
    "\<And>i. received i (h_calls g) = (case position a i of None \<Rightarrow> [] | Some p \<Rightarrow> take p vs)"
    by (auto simp: serving_def)
  from bcast_try_next [OF a(1), of ?i] obtain y where
    y: "sys_step (TryNext ?i) (h_sys g) = Some (fst (bcast_step (TryNext ?i) a), y)"
    "bcast_rel ids y (snd (bcast_step (TryNext ?i) a))" by blast
  from turn_effect [OF assms(2,3)] consider "h_sys g' = h_sys g" "h_calls g' = h_calls g"
    | (delivered) j m where "sys_step (TryNext ?i) (h_sys g) = Some (Delivered j m, h_sys g')"
        "h_calls g' = h_calls g @ [(?i, m)]"
    | (silent) j where "sys_step (TryNext ?i) (h_sys g) = Some (Nothing j, h_sys g')"
        "h_calls g' = h_calls g \<or> h_calls g' = h_calls g @ [(?i, None)]"
    by blast
  then show ?thesis
  proof cases
    case 1
    with a show ?thesis by (auto simp: serving_def)
  next
    case (delivered j m)
    note step = delivered(1) and calls = delivered(2)
    from step y(1) obtain p where p: "position a ?i = Some p" "p < length vs" "m = Some (vs ! p)"
      "snd (bcast_step (TryNext ?i) a) = a\<lparr>b_pos := (b_pos a)[?i := Some (Suc p)]\<rparr>" "y = h_sys g'"
      using a(2) by (auto split: option.splits if_splits simp del: sys_step.simps)
    let ?a = "a\<lparr>b_pos := (b_pos a)[?i := Some (Suc p)]\<rparr>"
    have pos: "position ?a i = (if i = ?i then Some (Suc p) else position a i)" for i
      using p(1) by (auto simp: position_def split: if_splits)
    have "received i (h_calls g') = (case position ?a i of None \<Rightarrow> [] | Some p \<Rightarrow> take p vs)" for i
      using a(3) [of i] p(1-3) by (simp add: calls received_append pos take_Suc_conv_app_nth)
    with y(2) p(4,5) a(2) show ?thesis unfolding serving_def by (intro exI [of _ ?a]) simp
  next
    case (silent j)
    note step = silent(1) and calls = silent(2)
    from step y(1) have "snd (bcast_step (TryNext ?i) a) = a" "y = h_sys g'"
      by (auto split: option.splits if_splits simp del: sys_step.simps)
    with y(2) a calls show ?thesis by (auto simp: serving_def received_append)
  qed
qed

text \<open>No step changes a callback, and only a registration brings one.\<close>

lemma turn_callbacks:
  assumes "handler_turn k g = Some g'"
  shows "callbacks g' = callbacks g"
proof -
  have "callbacks (call_back k mode m g) = callbacks g" for mode m and g :: "'a handlers"
    by (simp add: call_back_def Let_def split_def)
  moreover have "callbacks (deregister_self k g) = callbacks g" for g :: "'a handlers"
    by (simp add: deregister_self_def Let_def split: list.split option.split)
  moreover have "callbacks (would_wait k g) = callbacks g" for g :: "'a handlers"
    by (simp add: would_wait_def)
  ultimately show ?thesis
    using assms
    by (auto simp: handler_turn_def Let_def simp del: sys_step.simps
        split: if_splits task_phase.splits option.splits lmq_event.splits lmq_resume_mode.splits)
qed

lemma step_callbacks:
  assumes "handler_step x g = Some (ev, g')"
  shows "callbacks g' = callbacks g @ (case x of HRegister i callback p u \<Rightarrow> [callback] | _ \<Rightarrow> [])"
  using assms turn_callbacks
  by (cases x)
    (auto simp: lmq_register_handler_def get_or_insert_runtime_def insert_handler_def lmq_resume_handler_def
      blocking_send_def check_shutdown_def lmq_deregister_handler_def abort_handler_backend_def
      Let_def split_def simp del: sys_step.simps
      split: if_splits option.splits client_phase.splits list.splits)

lemma serving_run:
  "run_events handler_step xs g = Some (evs, g') \<Longrightarrow> list_all leaves_messages xs \<Longrightarrow>
   list_all never_claims (callbacks g) \<Longrightarrow> serving ids vs g \<Longrightarrow>
   serving ids (vs @ handler_pushes xs) g' \<and> list_all never_claims (callbacks g')"
proof (induction xs arbitrary: g evs vs)
  case (Cons x xs)
  then obtain ev g1 evs1 where step: "handler_step x g = Some (ev, g1)"
    and rest: "run_events handler_step xs g1 = Some (evs1, g')"
    by (auto split: option.splits simp del: handler_step.simps)
  have x: "leaves_messages x" "list_all leaves_messages xs" using Cons.prems(2) by simp_all
  have leave: "list_all never_claims (callbacks g1)"
    using step_callbacks [OF step] x(1) Cons.prems(3) by (cases x) simp_all
  note IH = Cons.IH [OF rest x(2) leave]
  consider (push) v where "x = HPush v" | (poll) k where "x = HPoll k"
    | (other) "\<And>v. x \<noteq> HPush v" "\<And>k. x \<noteq> HPoll k" by blast
  then show ?case
  proof cases
    case push
    with IH [OF serving_push [OF Cons.prems(4)]] step show ?thesis by simp
  next
    case poll
    with step have "handler_turn k g = Some g1" "k < length (h_tasks g)" by (auto split: if_splits)
    with Cons.prems(3) IH [OF serving_turn [OF Cons.prems(4)]] poll show ?thesis by (simp add: callbacks_def list_all_length)
  next
    case other
    with other_effect [OF step x(1)] Cons.prems(4) have "serving ids vs g1" by (auto simp: serving_def)
    moreover have "handler_pushes (x # xs) = handler_pushes xs" using other by (cases x) auto
    ultimately show ?thesis using IH by simp
  qed
qed simp

text \<open>A task that looks and gives its callback no message has nothing to give.\<close>

lemma nothing_left:
  assumes "serving ids vs g" and "handler_turn k g = Some g'" and "task_phase (h_tasks g ! k) = Looking mode"
    and "\<not> task_cancelled (h_tasks g ! k)" and "never_claims (task_callback (h_tasks g ! k))"
  defines "i \<equiv> task_consumer (h_tasks g ! k)"
  shows "received i (h_calls g') = vs \<or> (\<exists>v. h_calls g' = h_calls g @ [(i, Some v)])"
proof -
  from assms(1) obtain a where a: "bcast_rel ids (h_sys g) a" "b_log a = vs"
    "\<And>i. received i (h_calls g) = (case position a i of None \<Rightarrow> [] | Some p \<Rightarrow> take p vs)"
    by (auto simp: serving_def)
  obtain y where y: "sys_step (TryNext i) (h_sys g) = Some (fst (bcast_step (TryNext i) a), y)"
    using bcast_try_next [OF a(1), of i] by blast
  have "\<exists>ev. sys_step (TryNext i) (h_sys g) = Some (ev, h_sys g') \<and> ev \<noteq> Ignored \<and>
      (\<forall>j m. ev = Delivered j m \<longrightarrow> h_calls g' = h_calls g @ [(i, m)]) \<and>
      (\<forall>j. ev = Nothing j \<longrightarrow> received i (h_calls g') = received i (h_calls g))"
    using assms(2-5)
    by (auto simp: i_def handler_turn_def would_wait_def Let_def set_task_def call_back_quiet split_def
        received_append simp del: sys_step.simps
        split: if_splits option.splits lmq_event.splits lmq_resume_mode.splits)
  then obtain ev where ev: "sys_step (TryNext i) (h_sys g) = Some (ev, h_sys g')" "ev \<noteq> Ignored"
    "\<And>j m. ev = Delivered j m \<Longrightarrow> h_calls g' = h_calls g @ [(i, m)]"
    "\<And>j. ev = Nothing j \<Longrightarrow> received i (h_calls g') = received i (h_calls g)" by blast
  from ev(1) y have eq: "ev = fst (bcast_step (TryNext i) a)" by simp
  with ev(2) obtain p where p: "position a i = Some p" by (cases "position a i") auto
  show ?thesis
  proof (cases "p < length vs")
    case True
    with eq p a(2) have "ev = Delivered i (Some (vs ! p))" by simp
    with ev(3) show ?thesis by blast
  next
    case False
    with eq p a(2) have "ev = Nothing i" by simp
    with ev(4) a(3) [of i] p False position_le [OF a(1) p] a(2) show ?thesis by simp
  qed
qed

text \<open>
  C23: Handlers lose nothing and keep the order, as long as nobody claims. Take consumers created
  before the first push, their identifiers distinct. Whatever the interleaving of pushes,
  registrations, resumes, deregistrations and turns of the tasks, pauses included, if no callback
  claims its message and the client claims none that a callback kept, then the messages that
  callbacks received for a consumer are a prefix of the pushed ones, each once and in order; and when
  a task looks and does not give its callback a message, everything pushed so far has been received.
  (A callback that claims takes the message from the other consumers, so their messages are no prefix.)
\<close>

theorem handlers_receive_in_order:
  assumes "distinct ids" and "run_events sys_step (new_consumers ids) (sys_init ad) = Some (created, y)"
    and "run_events handler_step xs (handlers_start panics y) = Some (evs, g)"
    and "list_all leaves_messages xs"
  shows "prefix (received i (h_calls g)) (handler_pushes xs) \<and>
    (\<forall>k mode g'. k < length (h_tasks g) \<and> task_phase (h_tasks g ! k) = Looking mode \<and>
       \<not> task_cancelled (h_tasks g ! k) \<and> handler_step (HPoll k) g = Some (HSilent, g') \<longrightarrow>
       received (task_consumer (h_tasks g ! k)) (h_calls g') = handler_pushes xs \<or>
       (\<exists>v. h_calls g' = h_calls g @ [(task_consumer (h_tasks g ! k), Some v)]))"
proof -
  have "bcast_rel ids y (bcast_init (length ids))"
    using bcast_start [OF assms(1), of ad] assms(2) by auto
  then have "serving ids [] (handlers_start panics y)"
    by (auto simp: serving_def handlers_start_def bcast_init_def split: option.split)
  moreover have "list_all never_claims (callbacks (handlers_start panics y))"
    by (simp add: callbacks_def handlers_start_def)
  ultimately have s: "serving ids (handler_pushes xs) g" and leave: "list_all never_claims (callbacks g)"
    using serving_run [OF assms(3,4)] by fastforce+
  then obtain a where a: "\<forall>i. received i (h_calls g) =
      (case position a i of None \<Rightarrow> [] | Some p \<Rightarrow> take p (handler_pushes xs))"
    unfolding serving_def by blast
  have "prefix (received i (h_calls g)) (handler_pushes xs)"
    using a [rule_format, of i] by (cases "position a i") (simp_all add: take_is_prefix)
  moreover have "received (task_consumer (h_tasks g ! k)) (h_calls g') = handler_pushes xs \<or>
      (\<exists>v. h_calls g' = h_calls g @ [(task_consumer (h_tasks g ! k), Some v)])"
    if "k < length (h_tasks g)" "task_phase (h_tasks g ! k) = Looking mode" "\<not> task_cancelled (h_tasks g ! k)"
      "handler_step (HPoll k) g = Some (HSilent, g')" for k mode g'
    using nothing_left [OF s _ that(2,3), of g'] that(1,4) leave by (auto simp: callbacks_def list_all_length split: if_splits)
  ultimately show ?thesis by blast
qed

theorem handlers_receive_in_order_witness:
  "\<exists>created y evs g. run_events sys_step (new_consumers [7, 8]) (sys_init True) = Some (created, y) \<and>
    run_events handler_step
      [HRegister 0 (\<lambda>u m. (if u = 0 then LMQ_ACTION_PAUSE else LMQ_ACTION_CONTINUE, False, Suc u)) False (0 :: nat),
       HInsert, HPush [1], HPoll 0, HPush [2], HPush [3], HPoll 0, HResume 1 0, HPoll 0, HPoll 0]
      (handlers_start True y) = Some (evs, g) \<and>
    received 0 (h_calls g) = [[1], [2]] \<and> prefix (received 0 (h_calls g)) [[1], [2], [3]]"
proof -
  let ?xs = "[HRegister 0 (\<lambda>u m. (if u = 0 then LMQ_ACTION_PAUSE else LMQ_ACTION_CONTINUE, False, Suc u)) False (0 :: nat),
       HInsert, HPush [1], HPoll 0, HPush [2], HPush [3], HPoll 0, HResume 1 0, HPoll 0, HPoll 0]"
  have "\<exists>created y evs g. run_events sys_step (new_consumers [7, 8]) (sys_init True) = Some (created, y) \<and>
      run_events handler_step ?xs (handlers_start True y) = Some (evs, g) \<and> received 0 (h_calls g) = [[1], [2]]"
    by (simp add: new_consumers_def handlers_eval)
  then obtain created y evs g where run: "run_events sys_step (new_consumers [7, 8]) (sys_init True) = Some (created, y)"
    "run_events handler_step ?xs (handlers_start True y) = Some (evs, g)"
    and calls: "received 0 (h_calls g) = [[1], [2]]" by blast
  have "distinct [7 :: u64, 8]" by simp
  moreover have "list_all leaves_messages ?xs" by (simp add: never_claims_def)
  ultimately have "prefix (received 0 (h_calls g)) [[1], [2], [3]]"
    using handlers_receive_in_order [OF _ run, of 0] by simp
  with run calls show ?thesis by blast
qed

end
