(* ===== verification/Lmq_Wasm.thy ===== *)
theory Lmq_Wasm
  imports Lmq_Capi Backing_Common
begin

text \<open>
  The WebAssembly binding (\<^verbatim>\<open>lmq-wasm/src/lib.rs\<close>). There is one thread, so a call that takes a lock
  under a view never returns. A message object keeps the view its last \<open>read\<close> took and gives it up
  before it reads again or claims.
\<close>

section \<open>Objects\<close>

record wasm_message =
  wm_inner :: next_message
  wm_read_ref :: "pref option"

text \<open>The objects JavaScript has not freed; \<open>None\<close> marks a freed message.\<close>

record wasm =
  w_store :: lmq_store
  w_messages :: "wasm_message option list"

definition wasm_viewed :: "wasm \<Rightarrow> pref \<Rightarrow> bool" where
  "wasm_viewed w r \<longleftrightarrow>
     list_ex (\<lambda>m. case m of Some m \<Rightarrow> wm_read_ref m = Some r | None \<Rightarrow> False) (w_messages w)"

definition message_at :: "wasm \<Rightarrow> nat \<Rightarrow> wasm_message option" where
  "message_at w k = (if k < length (w_messages w) then w_messages w ! k else None)"

definition wasm_queue_new :: "wasm \<Rightarrow> link_message_queue \<times> wasm" where
  "wasm_queue_new w = (case lmq_new (w_store w) of (q, s) \<Rightarrow> (q, w\<lparr>w_store := s\<rparr>))"

definition wasm_push :: "byte list \<Rightarrow> link_message_queue \<Rightarrow> wasm \<Rightarrow> (link_message_queue \<times> wasm) ffi" where
  "wasm_push payload q w =
     (case lmq_push payload q (w_store w) of
        None \<Rightarrow> NoReturn
      | Some (q, s) \<Rightarrow> Done (q, w\<lparr>w_store := s\<rparr>))"

definition wasm_create_consumer :: "u64 \<Rightarrow> link_message_queue \<Rightarrow> wasm \<Rightarrow> message_consumer \<times> wasm" where
  "wasm_create_consumer cid q w =
     (case create_consumer cid q (w_store w) of (c, s) \<Rightarrow> (c, w\<lparr>w_store := s\<rparr>))"

text \<open>A new message object has no view.\<close>

definition wrap_message :: "next_message \<Rightarrow> wasm \<Rightarrow> nat \<times> wasm" where
  "wrap_message m w =
     (length (w_messages w), w\<lparr>w_messages := w_messages w @ [Some \<lparr>wm_inner = m, wm_read_ref = None\<rparr>]\<rparr>)"

definition wasm_try_next :: "message_consumer \<Rightarrow> wasm \<Rightarrow> (nat option \<times> message_consumer \<times> wasm) ffi" where
  "wasm_try_next c w =
     (if wasm_viewed w (current_cell c (w_store w)) then NoReturn
      else case try_next c (w_store w) of
             None \<Rightarrow> NoReturn
           | Some (Some m, c, s) \<Rightarrow> (case wrap_message m (w\<lparr>w_store := s\<rparr>) of (k, w) \<Rightarrow> Done (Some k, c, w))
           | Some (None, c, s) \<Rightarrow> Done (None, c, w\<lparr>w_store := s\<rparr>))"

text \<open>\<open>blocking_next\<close> parks the only thread when there is no message.\<close>

definition wasm_blocking_next :: "message_consumer \<Rightarrow> wasm \<Rightarrow> (nat \<times> message_consumer \<times> wasm) ffi" where
  "wasm_blocking_next c w =
     (case wasm_try_next c w of
        Done (Some k, c, w) \<Rightarrow> Done (k, c, w)
      | Undefined \<Rightarrow> Undefined
      | _ \<Rightarrow> NoReturn)"

text \<open>One poll of the promise \<open>next\<close> returns; \<open>Inl\<close> is the future to be polled again.\<close>

definition wasm_next ::
  "(nat \<Rightarrow> nat \<Rightarrow> bool) \<Rightarrow> next_future \<Rightarrow> message_consumer \<Rightarrow> wasm \<Rightarrow>
     ((next_future + nat) \<times> message_consumer \<times> wasm) ffi" where
  "wasm_next ready fut c w =
     (if wasm_viewed w (current_cell c (w_store w)) then NoReturn
      else case poll_next ready fut c (w_store w) of
             None \<Rightarrow> NoReturn
           | Some (Inr m, c, s) \<Rightarrow> (case wrap_message m (w\<lparr>w_store := s\<rparr>) of (k, w) \<Rightarrow> Done (Inr k, c, w))
           | Some (Inl fut, c, s) \<Rightarrow> Done (Inl fut, c, w\<lparr>w_store := s\<rparr>))"

text \<open>\<open>read\<close> drops the previous view, then takes a new one.\<close>

definition set_read_ref :: "nat \<Rightarrow> pref option \<Rightarrow> wasm \<Rightarrow> wasm" where
  "set_read_ref k r w =
     w\<lparr>w_messages := (w_messages w)[k := map_option (\<lambda>m. m\<lparr>wm_read_ref := r\<rparr>) (w_messages w ! k)]\<rparr>"

definition wasm_read :: "nat \<Rightarrow> wasm \<Rightarrow> (byte list option \<times> wasm) ffi" where
  "wasm_read k w =
     (case message_at w k of
        None \<Rightarrow> Undefined
      | Some m \<Rightarrow>
          (let w = set_read_ref k None w in
           case read_message (w_store w) (wm_inner m) of
             Some bytes \<Rightarrow> Done (Some bytes, set_read_ref k (Some (payload_ref (wm_inner m))) w)
           | None \<Rightarrow> Done (None, w)))"

definition wasm_claim :: "nat \<Rightarrow> wasm \<Rightarrow> (byte list option \<times> wasm) ffi" where
  "wasm_claim k w =
     (case message_at w k of
        None \<Rightarrow> Undefined
      | Some m \<Rightarrow>
          (let w = set_read_ref k None w in
           if wasm_viewed w (payload_ref (wm_inner m)) then NoReturn
           else case claim (wm_inner m) (w_store w) of (v, s) \<Rightarrow> Done (v, w\<lparr>w_store := s\<rparr>)))"

definition wasm_free_message :: "nat \<Rightarrow> wasm \<Rightarrow> (unit \<times> wasm) ffi" where
  "wasm_free_message k w =
     (case message_at w k of
        None \<Rightarrow> Undefined
      | Some _ \<Rightarrow> Done ((), w\<lparr>w_messages := (w_messages w)[k := None]\<rparr>))"

section \<open>A message does not block itself\<close>

text \<open>Some object other than \<open>k\<close> holds a view on the cell.\<close>

definition viewed_by_other :: "nat \<Rightarrow> wasm \<Rightarrow> pref \<Rightarrow> bool" where
  "viewed_by_other k w r \<longleftrightarrow>
     (\<exists>j m. j \<noteq> k \<and> message_at w j = Some m \<and> wm_read_ref m = Some r)"

lemma message_at_set:
  "message_at (set_read_ref k r w) j =
     (if j = k then map_option (\<lambda>m. m\<lparr>wm_read_ref := r\<rparr>) (message_at w k) else message_at w j)"
  by (auto simp: message_at_def set_read_ref_def)

lemma set_read_ref_store [simp]: "w_store (set_read_ref k r w) = w_store w"
  by (simp add: set_read_ref_def)

lemma wasm_viewed_iff: "wasm_viewed w r \<longleftrightarrow> (\<exists>j m. message_at w j = Some m \<and> wm_read_ref m = Some r)"
proof -
  have "wasm_viewed w r \<longleftrightarrow> (\<exists>j < length (w_messages w).
      case w_messages w ! j of Some m \<Rightarrow> wm_read_ref m = Some r | None \<Rightarrow> False)"
    by (simp add: wasm_viewed_def list_ex_length)
  then show ?thesis by (auto simp: message_at_def split: option.splits if_splits)
qed

text \<open>
  The view a message object holds never blocks its own \<open>claim\<close>: the call returns exactly when no other
  object views the payload, and then gives what \<open>read\<close> showed.
\<close>

lemma wasm_claim_returns:
  assumes "message_at w k = Some m"
  shows "wasm_claim k w = NoReturn \<longleftrightarrow> viewed_by_other k w (payload_ref (wm_inner m))"
  using assms
  by (auto simp: wasm_claim_def Let_def claim_def wasm_viewed_iff message_at_set viewed_by_other_def
      split: if_splits)

lemma viewed_by_other_set [simp]: "viewed_by_other k (set_read_ref k r w) = viewed_by_other k w"
  by (auto simp: viewed_by_other_def message_at_set fun_eq_iff)

lemma wasm_read_then_claim:
  assumes "message_at w k = Some m" and "wasm_read k w = Done (Some bytes, w1)"
    and "\<not> viewed_by_other k w (payload_ref (wm_inner m))"
  shows "\<exists>w2. wasm_claim k w1 = Done (Some bytes, w2) \<and> \<not> wasm_viewed w2 (payload_ref (wm_inner m))"
proof -
  let ?r = "payload_ref (wm_inner m)"
  from assms(1,2) have w1: "w1 = set_read_ref k (Some ?r) (set_read_ref k None w)"
    and bytes: "payloads (w_store w) ?r = Some bytes"
    by (auto simp: wasm_read_def read_message_def Let_def split: option.splits)
  have at: "message_at w1 k = Some (m\<lparr>wm_read_ref := Some ?r\<rparr>)"
    using assms(1) by (simp add: w1 message_at_set)
  have other: "\<not> viewed_by_other k w1 ?r" using assms(3) by (simp add: w1)
  have free: "\<not> wasm_viewed (set_read_ref k None w1) ?r"
    using other at by (auto simp: wasm_viewed_iff message_at_set viewed_by_other_def split: if_splits)
  moreover have "wasm_viewed ((set_read_ref k None w1)\<lparr>w_store := s\<rparr>) ?r = wasm_viewed (set_read_ref k None w1) ?r" for s
    by (simp add: wasm_viewed_def)
  ultimately show ?thesis
    using at bytes by (simp add: wasm_claim_def claim_def Let_def) (simp add: w1)
qed

end
