(* ===== verification/Sc_Capi.thy ===== *)
theory Sc_Capi
  imports Tokio_Layer
begin

text \<open>
  The C interface of SkyCurrent (\<^verbatim>\<open>skycurrent-capi/src/skycurrent.rs\<close>): the tokio layer behind
  \<open>extern "C"\<close>, with a runtime of its own. A panic aborts the process at this boundary; \<open>Panics\<close> stands
  for that. The state is the combined runtime, the global message queue, and whether \<open>TOKIO_RT\<close> holds
  a runtime.
\<close>

record ('w, 'h) sc_state =
  sc_combined :: "('w, 'h) combined"
  sc_messages :: "link_message_queue \<times> lmq_store"
  sc_tokio :: bool

text \<open>\<open>to_str\<close> is \<open>CStr::to_str\<close>: the bytes before the terminator as a path, if they are UTF-8.\<close>

definition sc_set_global_project_dir ::
  "(byte list \<Rightarrow> path option) \<Rightarrow> byte list \<Rightarrow> ('w, 'h) sc_state \<Rightarrow> int \<times> ('w, 'h) sc_state" where
  "sc_set_global_project_dir to_str project_dir g =
     (case to_str project_dir of
        Some path_str \<Rightarrow> (0, g\<lparr>sc_combined := set_global_project_dir path_str (sc_combined g)\<rparr>)
      | None \<Rightarrow> (1, g))"

text \<open>The C callback gets the header's bytes, their number and the user data.\<close>

definition sc_set_global_should_collect ::
  "(byte list \<Rightarrow> nat \<Rightarrow> 'u \<Rightarrow> bool) \<Rightarrow> 'u \<Rightarrow> ('w, 'h) sc_state \<Rightarrow> ('w, 'h) sc_state" where
  "sc_set_global_should_collect should_collect user_data g =
     g\<lparr>sc_combined := set_global_should_collect
         (\<lambda>data. Some (should_collect data (length data) user_data)) (sc_combined g)\<rparr>"

definition sc_close ::
  "('w, 'h) build \<Rightarrow> bool \<Rightarrow> ('w, 'h) sc_state \<Rightarrow> ('w, 'h) sc_state outcome option" where
  "sc_close b wakes g =
     (case combined_close b wakes (sc_combined g) of
        None \<Rightarrow> None
      | Some Panics \<Rightarrow> Some Panics
      | Some (Returns g1) \<Rightarrow> Some (Returns (g\<lparr>sc_combined := g1, sc_tokio := False\<rparr>)))"

definition sc_init :: "('w, 'h) build \<Rightarrow> ('w, 'h) sc_state \<Rightarrow> ('w, 'h) sc_state outcome option" where
  "sc_init b g =
     (let g = g\<lparr>sc_tokio := True\<rparr> in
      case tokio_init b (sc_combined g) of
        None \<Rightarrow> None
      | Some Panics \<Rightarrow> Some Panics
      | Some (Returns g1) \<Rightarrow> Some (Returns (g\<lparr>sc_combined := g1\<rparr>)))"

definition sc_send_stream ::
  "('w, 'h) build \<Rightarrow> byte list \<Rightarrow> nat \<Rightarrow> ('w, 'h) sc_state \<Rightarrow> ('w, 'h) sc_state outcome option" where
  "sc_send_stream b payload header_size g =
     (case tokio_send_stream b payload header_size (sc_combined g) of
        None \<Rightarrow> None
      | Some Panics \<Rightarrow> Some Panics
      | Some (Returns g1) \<Rightarrow> Some (Returns (g\<lparr>sc_combined := g1\<rparr>)))"

text \<open>The consumer is boxed for the C side, which frees it with \<open>lmq_consumer_destroy\<close>.\<close>

definition sc_iter_stream :: "u64 \<Rightarrow> ('w, 'h) sc_state \<Rightarrow> message_consumer \<times> ('w, 'h) sc_state" where
  "sc_iter_stream cid g =
     (case iter_stream cid (sc_messages g) of (c, q, s) \<Rightarrow> (c, g\<lparr>sc_messages := (q, s)\<rparr>))"

section \<open>Lemmas\<close>

lemma sc_project_dir_code:
  "fst (sc_set_global_project_dir to_str p g) = 0 \<longleftrightarrow> to_str p \<noteq> None"
  by (simp add: sc_set_global_project_dir_def split: option.split)

lemma sc_rejected_dir_changes_nothing:
  "fst (sc_set_global_project_dir to_str p g) \<noteq> 0 \<Longrightarrow> snd (sc_set_global_project_dir to_str p g) = g"
  by (auto simp: sc_set_global_project_dir_def split: option.splits)

text \<open>No call of the interface touches the messages that wait in the queue.\<close>

lemma sc_keeps_messages:
  "sc_init b g = Some (Returns g1) \<Longrightarrow> sc_messages g1 = sc_messages g"
  "sc_close b wakes g = Some (Returns g1) \<Longrightarrow> sc_messages g1 = sc_messages g"
  "sc_send_stream b payload hs g = Some (Returns g1) \<Longrightarrow> sc_messages g1 = sc_messages g"
  by (auto simp: sc_init_def sc_close_def sc_send_stream_def Let_def split: option.splits outcome.splits)

end
