(* ===== verification/Identity_Hasher.thy ===== *)
theory Identity_Hasher
  imports Backing_Common
begin

text \<open>
  The hasher of the maps keyed by random 64-bit numbers (\<^verbatim>\<open>lmq/src/hasher.rs\<close>, and its copy
  \<^verbatim>\<open>skycurrent/src/hasher.rs\<close>). It returns the key itself, so two keys never collide, and panics on
  anything but one \<open>u64\<close>; the maps of the development therefore do not mention it.
\<close>

datatype identity_hash = IdentityHash u64

definition hasher_default :: identity_hash where
  "hasher_default = IdentityHash 0"

primrec finish :: "identity_hash \<Rightarrow> u64" where
  "finish (IdentityHash v) = v"

definition hasher_write :: "byte list \<Rightarrow> identity_hash \<Rightarrow> identity_hash outcome" where
  "hasher_write bytes h = Panics"

definition write_u64 :: "u64 \<Rightarrow> identity_hash \<Rightarrow> identity_hash" where
  "write_u64 i h = IdentityHash i"

definition build_hasher :: "identity_hash \<Rightarrow> identity_hash" where
  "build_hasher h = h"

text \<open>What a map computes for a key: \<open>u64\<close> hashes itself with one \<open>write_u64\<close>.\<close>

definition key_hash :: "identity_hash \<Rightarrow> u64 \<Rightarrow> u64" where
  "key_hash s k = finish (write_u64 k (build_hasher s))"

lemma key_hash [simp]: "key_hash s k = k"
  by (simp add: key_hash_def write_u64_def)

lemma key_hash_injective: "inj (key_hash s)"
  by (simp add: inj_def)

lemma key_hash_state: "key_hash s = key_hash s'"
  by (simp add: fun_eq_iff)

end
