(* ===== verification/Spec2Isabelle.thy ===== *)
theory Spec2Isabelle
  imports Chat_Client Gateway_Props Gateway_Wakeup Lmq_Views_Progress Lmq_Broadcast_Props Lmq_Locks_Broadcast
    Lmq_Capi_Props Lmq_Handlers_Props Lmq_Wasm Sc_Capi Identity_Hasher
begin

text \<open>
  A verification development for SkyCurrent: a message mesh over shared memory (iceoryx2) with a
  websocket gateway, and the linked message queue (\<^verbatim>\<open>lmq\<close>) in which received messages are offered to
  any number of consumers.

  \<^bold>\<open>Parts of the program and where they are modelled.\<close>

  \<^item> \<open>Sc_Prelude\<close>, \<open>Event_Machine\<close>: what the components share. Rust slices and their panics, \<open>usize\<close>
    arithmetic with both overflow behaviours, little-endian codecs (locale \<open>byte_codec\<close>),
    \<open>slice::chunks\<close>, maps keyed by \<open>u64\<close>; runs of a step function, with the interfaces
    \<open>guarded_machine\<close> (steps keep an invariant), \<open>invariant_machine\<close> (and every step returns) and
    \<open>event_simulation\<close> (every step answers as a total specification does).

  \<^item> \<open>Lmq_Queue\<close> (\<^verbatim>\<open>lmq/src/lib.rs\<close>): \<open>LinkMessageQueue\<close>, \<open>NextMessage\<close>, \<open>MessageConsumer\<close> over an explicit
    store of nodes (\<open>Arc<Mutex<NextMessage>>\<close>), payload cells and consumer trackers; \<open>new\<close>, \<open>push\<close>,
    \<open>create_consumer\<close>, \<open>try_next\<close> with its pruning loop, \<open>next\<close> as a future, \<open>claim\<close>, \<open>read\<close>, \<open>drop\<close> and the
    automatic drop. \<open>Lmq_Paths\<close> has the paths of \<open>next\<close> pointers and the effect of pruning on them,
    \<open>Lmq_Invariant\<close> and \<open>Lmq_Next\<close> the well-formedness of the store and its preservation,
    \<open>Lmq_System\<close> a queue with all its clients as a machine, \<open>Lmq_Fifo\<close> the abstract FIFO of one
    consumer and \<open>Lmq_Broadcast\<close> the log with positions of several, each with its simulation;
    \<open>Lmq_Props\<close> and \<open>Lmq_Broadcast_Props\<close> the properties. There each operation is one step;
    \<open>Lmq_Locks\<close> has the same operations as threads that interleave at every lock they take, with their
    invariant, deadlock freedom and termination (\<open>Lmq_Locks_Props\<close>), and \<open>Lmq_Locks_Atomic\<close> shows the
    atomic operations to be runs of these threads, \<open>Lmq_Locks_Broadcast\<close> that under every schedule
    they do what the log with positions does. \<open>Lmq_Read_Lock\<close> has the lock of one payload, which
    \<open>read\<close> takes twice. \<open>Lmq_Views\<close> puts both together: the threads of a queue with clients that read,
    view and claim its messages; \<open>Lmq_Views_Invariant\<close> has what every step keeps, \<open>Lmq_Views_Props\<close> what a
    view stops, \<open>Lmq_Views_Progress\<close> which calls end.

  \<^item> \<open>Lmq_Capi\<close>, \<open>Lmq_Capi_Safety\<close>, \<open>Lmq_Capi_Props\<close> (\<^verbatim>\<open>lmq-capi/src/lmq.rs\<close>): the C interface for one client
    thread, with boxes behind pointers, undefined calls, and the read locks of peek views; what every
    call keeps for any number of queues. \<open>Lmq_Handlers\<close>, \<open>Lmq_Handlers_Props\<close>
    (\<^verbatim>\<open>lmq-capi/src/lmq_tokio.rs\<close>): the handler registry, its lock and its tasks, interleaved with the calls
    of a client; callbacks may claim the messages they are given.

  \<^item> \<open>Lmq_Wasm\<close> (\<^verbatim>\<open>lmq-wasm/src/lib.rs\<close>), \<open>Sc_Capi\<close> (\<^verbatim>\<open>skycurrent-capi/src/skycurrent.rs\<close>),
    \<open>Identity_Hasher\<close> (\<^verbatim>\<open>hasher.rs\<close>): the remaining bindings and the hasher.

  \<^item> \<open>Backing_Common\<close> (\<^verbatim>\<open>skycurrent/src/backing/common.rs\<close>), \<open>Iox2_Wire\<close>, \<open>Iox2_Merge\<close>,
    \<open>Iox2_Reassembly\<close>, \<open>Iox2_Port\<close>, \<open>Iox2_Send\<close>, \<open>Iox2_Lifecycle\<close>, \<open>Iox2_Props\<close>
    (\<^verbatim>\<open>skycurrent/src/backing/iox2.rs\<close>): the pages on the wire and the merging of fragments; the
    partial-merge invariant and the refinement to sets of fragments; the thread-local cells and every
    call of the backing over an interface (\<open>iox2_api\<close>) for iceoryx2; sending, retrying, receiving.

  \<^item> \<open>Ws_Gateway\<close> (\<^verbatim>\<open>skycurrent/src/backing/ws_gateway.rs\<close>): the origin check, the client loop, the
    calls over the broadcast channels (\<open>ws_api\<close>).

  \<^item> \<open>Combined\<close>, \<open>Combined_Runtime\<close>, \<open>Combined_Props\<close> (\<^verbatim>\<open>skycurrent/src/backing/combined.rs\<close>): the actor
    threads with their channels, the scheduler of \<open>try_recv_stream\<close>, \<open>wait_stream\<close> and its lock bits,
    forwarding between mesh and gateway, \<open>init\<close> and \<open>close\<close>; and the runtime as a machine whose steps
    are the calls of the receiving thread, the end of the actor's wait and changes of the world.
    \<open>Combined_Recv\<close>: \<open>recv_stream\<close> as a future with its rounds and waits, the blocking calls, and that it
    reads what the mesh brings. \<open>Mesh_Wakeup\<close>: the receiving process against senders, notifications and
    time, as a step relation with its invariant. \<open>Recv_Props\<close>: the properties of both. \<open>Gateway_Props\<close>: what
    becomes of the frames of websocket clients; \<open>Gateway_Wakeup\<close>: the receiving process against these
    clients, as a step relation.

  \<^item> \<open>Tokio_Layer\<close>, \<open>Tokio_Props\<close> (\<^verbatim>\<open>skycurrent/src/tokio.rs\<close>): what is retried and what panics, the loops of
    \<open>init\<close> and \<open>send_stream\<close>, the task that moves received payloads into the queue.

  \<^item> \<open>End_To_End\<close>: the path of a message through all of them, from \<open>send_stream\<close> of one process to a
    consumer in another. \<open>Chat_Client\<close> (\<^verbatim>\<open>skycurrent/examples/ascii-test-client-tokio.rs\<close>): a whole program
    over the library, with the UTF-8 strings it reads.

  \<^bold>\<open>Conventions.\<close> A panic is \<open>None\<close> in the wire functions and
  \<open>Panics\<close> in the calls; a call that may never return has an \<open>option\<close> around its
  result, and \<open>None\<close> there is not returning (loops are \<^theory_text>\<open>partial_function
  (option)\<close>, no fuel is used anywhere). \<open>Result<T, E>\<close> is a sum with
  \<open>Inl\<close> for the error. Third-party code (iceoryx2, postage, tokio, HTTP, the file system,
  random numbers) is an argument; what a property relies on of it is a named hypothesis
  (\<open>lossless\<close>, \<open>buffered\<close>, \<open>mesh_buffer\<close>,
  \<open>quiet_gateway\<close>, \<open>brings_pages\<close>, \<open>waits_quietly\<close>), and
  \<open>bus_api\<close>, \<open>bus_ws\<close>, \<open>bus_build\<close> are concrete instances on which
  it holds. The flag \<open>ov\<close> is \<open>cfg(overflow_checks)\<close>; the target is 64-bit.

  \<^bold>\<open>What the lemmas show.\<close> The queue, while nobody holds a view: no run of calls loops or
  self-deadlocks; a single consumer sees exactly a FIFO; several consumers, created before the first
  message and without claims, see a broadcast, and there a waiting \<open>next\<close> wakes for every push; a message
  is claimed once; with threads interleaved at every lock, no deadlock, a bound on the steps of all calls,
  and the same broadcast under every schedule; and two defects of pruning (a root that is cut off for ever,
  a consumer that is sent back to an earlier message). With readers that hold views: a view never changes, a reader stops the
  consumers and the \<open>push\<close> that come to its message, and \<open>read\<close> deadlocks the queue
  exactly when a writer asks for the payload between the two locks it takes.
  Its C interface: views are stable, and for one thread only its views block the queue calls; handlers
  whose callbacks do not claim lose nothing, and their registry can deadlock or abort. The wire: whatever is sent is reassembled exactly once, in any order and
  interleaving, and pages never overflow. The runtime: lock bits guard the actor, nothing blocks without
  the gateway; with both backings and a quiet gateway \<open>recv_stream\<close> returns what the mesh brings, whichever backing
  has its turn, and with both backings no notification is lost under any interleaving with the senders; well-formed
  frames of clients reach everybody, with the same bytes at the clients of other processes. And six
  defects: a frame that is overlooked between the last look and the wait, a wait error
  that deafens the runtime, a spinning wait, a turn that hides the gateway, frames
  that panic the receiver, and, without the gateway, its turns, in which pages are left lying. The tokio
  layer: a returned \<open>init\<close> is complete, payloads reach consumers in order, and a failed
  notification publishes a message twice. End to end, what is sent is received, once and in order, and
  what is typed at one chat client is shown at another; three inputs stop that client.

  \<^bold>\<open>Bounds.\<close> Payload lengths below \<open>2 ^ 32\<close> bytes suffice for the
  fragment count to fit its 32-bit field (a chunk has at least one byte); \<open>usize\<close> values are
  below \<open>2 ^ 64\<close>. The steps that complete all calls of a queue are bounded by
  \<open>steps_bound\<close>, from the number of consumers and of nodes; with readers by
  \<open>vw_bound\<close>, from these and the calls of the clients.

  \<^bold>\<open>Not modelled.\<close> Fairness of the locks beyond that readers wait for waiting writers;
  the accept loop and HTTP serving of
  the gateway (library code around \<open>server_upgrade\<close>); how \<open>block_on\<close> parks a
  thread (what happens until it is woken is an argument, \<open>surroundings\<close>); several client
  threads at the C interface; panic messages and the abort of \<open>ffi_fn!\<close>, which appear as
  events. The older example is written for an interface that the crate no longer exports; the TypeScript
  clients are another language. \<close>

end
